(* ===== verification/Crawl_Prelude.thy ===== *)
theory Crawl_Prelude
  imports Main "HOL-Library.Multiset"
begin

text \<open>
  Shared vocabulary of the crawler development: the type names of the model, the
  collection of definitional equations that witnesses unfold, and the generic lemmas
  on lists and multisets that the component theories use for the review buffer
  (a Python list that is appended to and cleared).
\<close>

type_synonym url = string
type_synonym path = string

named_theorems model_simps "equations of the model unfolded to evaluate it on concrete inputs"

text \<open>Python's \<open>range(1, n + 1)\<close> for a Python \<open>int\<close> \<open>n\<close>: empty when \<open>n \<le> 0\<close>.\<close>

definition py_range1 :: "int \<Rightarrow> nat list" where
  "py_range1 n = [1..<nat n + 1]"

lemma py_range1_length [simp]: "length (py_range1 n) = nat n"
  by (simp add: py_range1_def)

lemma py_range1_set [simp]: "set (py_range1 n) = {1..nat n}"
  by (auto simp: py_range1_def)

lemma py_range1_distinct [simp]: "distinct (py_range1 n)"
  by (simp add: py_range1_def)

lemma py_range1_nonpos: "n \<le> 0 \<Longrightarrow> py_range1 n = []"
  by (simp add: py_range1_def)

text \<open>Sums of multisets over lists, used for ``the union of all pages' reviews''.\<close>

lemma sum_list_remove1_mset:
  "x \<in> set xs \<Longrightarrow> (\<Sum>y\<leftarrow>xs. f y) = f x + (\<Sum>y\<leftarrow>remove1 x xs. (f y :: 'a multiset))"
  by (induction xs) (auto simp: add.left_commute)

lemma sum_list_perm_mset:
  "mset xs = mset ys \<Longrightarrow> (\<Sum>x\<leftarrow>xs. f x) = (\<Sum>x\<leftarrow>ys. (f x :: 'a multiset))"
  by (metis mset_map sum_mset_sum_list)

lemma mset_concat_map:
  "mset (concat (map f xs)) = (\<Sum>x\<leftarrow>xs. mset (f x))"
  by (induction xs) auto

lemma mem_map_filter_iff:
  "y \<in> set (List.map_filter f xs) \<longleftrightarrow> (\<exists>x\<in>set xs. f x = Some y)"
  by (induction xs) (auto split: option.splits)

lemma length_map_filter:
  "length (List.map_filter f xs) = length (filter (\<lambda>x. f x \<noteq> None) xs)"
  by (simp add: List.map_filter_def)


lemma set_remove_nth_subset: "set (take j xs @ drop (Suc j) xs) \<subseteq> set xs"
  using set_take_subset set_drop_subset by fastforce

lemma distinct_remove_nth: "distinct xs \<Longrightarrow> distinct (take j xs @ drop (Suc j) xs)"
  by (simp add: set_take_disj_set_drop_if_distinct)

end
