(* ===== verification/Py_Builtins.thy ===== *)
theory Py_Builtins
  imports Crawl_Prelude
begin

text \<open>
  The Python built-ins the crawler relies on, written out where HOL's total functions
  differ from Python: the exceptions the source can raise (\<open>pyerr\<close>), \<open>str.strip()\<close>,
  \<open>int(str)\<close> with its \<open>ValueError\<close>, decimal formatting of an \<open>int\<close> (an f-string),
  negative list indexing with its \<open>IndexError\<close>, and \<open>str.replace\<close> of one character.
  Strings are byte strings (\<open>char list\<close>); Python's Unicode whitespace and digits
  beyond ASCII are not modelled.
\<close>

datatype pyerr =
    TypeError
  | AttributeError
  | IndexError
  | ValueError
  | FileExistsError
  | FileNotFoundError
  | ClientError

subsection \<open>Exception propagation\<close>

text \<open>
  Sequencing two Python statements: an exception raised by the first skips the second
  and propagates (the bind of the sum type, \<open>Inl\<close> being the raised exception).
\<close>

definition sbind :: "'e + 'a \<Rightarrow> ('a \<Rightarrow> 'e + 'b) \<Rightarrow> 'e + 'b" where
  "sbind r f = (case r of Inl e \<Rightarrow> Inl e | Inr a \<Rightarrow> f a)"

subsection \<open>\<open>str.strip()\<close>\<close>

definition py_isspace :: "char \<Rightarrow> bool" where
  "py_isspace c = (let k = (of_char c :: nat) in (9 \<le> k \<and> k \<le> 13) \<or> (28 \<le> k \<and> k \<le> 32))"

definition py_strip :: "string \<Rightarrow> string" where
  "py_strip s = rev (dropWhile py_isspace (rev (dropWhile py_isspace s)))"

subsection \<open>\<open>int(str)\<close>\<close>

definition is_digit :: "char \<Rightarrow> bool" where
  "is_digit c = (let k = (of_char c :: nat) in 48 \<le> k \<and> k \<le> 57)"

definition digit_val :: "char \<Rightarrow> nat" where
  "digit_val c = of_char c - 48"

text \<open>No two underscores in a row (Python allows single underscores between digits).\<close>

fun us_ok :: "string \<Rightarrow> bool" where
  "us_ok (a # b # cs) = (\<not> (a = CHR ''_'' \<and> b = CHR ''_'') \<and> us_ok (b # cs))"
| "us_ok _ = True"

definition digits_ok :: "string \<Rightarrow> bool" where
  "digits_ok ds \<longleftrightarrow> ds \<noteq> [] \<and> is_digit (hd ds) \<and> is_digit (last ds)
     \<and> list_all (\<lambda>c. is_digit c \<or> c = CHR ''_'') ds \<and> us_ok ds"

definition digits_value :: "string \<Rightarrow> nat" where
  "digits_value ds = foldl (\<lambda>acc c. 10 * acc + digit_val c) 0 (filter is_digit ds)"

definition py_int_body :: "string \<Rightarrow> pyerr + int" where
  "py_int_body ds = (if digits_ok ds then Inr (int (digits_value ds)) else Inl ValueError)"

definition py_int :: "string \<Rightarrow> pyerr + int" where
  "py_int s =
     (case py_strip s of
        [] \<Rightarrow> Inl ValueError
      | c # ds \<Rightarrow>
          if c = CHR ''-'' then map_sum id uminus (py_int_body ds)
          else if c = CHR ''+'' then py_int_body ds
          else py_int_body (c # ds))"

subsection \<open>Decimal formatting of a non-negative \<open>int\<close>\<close>

definition digit_char :: "nat \<Rightarrow> char" where
  "digit_char d = char_of (48 + d)"

fun str_of_nat :: "nat \<Rightarrow> string" where
  "str_of_nat n = (if n < 10 then [digit_char n] else str_of_nat (n div 10) @ [digit_char (n mod 10)])"

declare str_of_nat.simps [simp del]

subsection \<open>Indexing and replacing\<close>

text \<open>\<open>xs[i]\<close>: a negative index counts from the end; out of range raises.\<close>

definition py_index :: "'a list \<Rightarrow> int \<Rightarrow> pyerr + 'a" where
  "py_index xs i =
     (let k = (if 0 \<le> i then i else i + int (length xs))
      in if k < 0 \<or> int (length xs) \<le> k then Inl IndexError else Inr (xs ! nat k))"

text \<open>\<open>s.replace(a, b)\<close> for one-character \<open>a\<close> and \<open>b\<close>.\<close>

definition py_replace_char :: "char \<Rightarrow> char \<Rightarrow> string \<Rightarrow> string" where
  "py_replace_char a b s = map (\<lambda>c. if c = a then b else c) s"

subsection \<open>Lemmas\<close>

lemma sbind_Inl [simp]: "sbind (Inl e) f = Inl e"
  by (simp add: sbind_def)

lemma sbind_Inr [simp]: "sbind (Inr a) f = f a"
  by (simp add: sbind_def)

lemma sbind_eq_Inr: "sbind r f = Inr b \<longleftrightarrow> (\<exists>a. r = Inr a \<and> f a = Inr b)"
  by (cases r) auto

lemma digit_char_is_digit: "d < 10 \<Longrightarrow> is_digit (digit_char d)"
  by (simp add: is_digit_def digit_char_def)

lemma digit_val_digit_char [simp]: "d < 10 \<Longrightarrow> digit_val (digit_char d) = d"
  by (simp add: digit_val_def digit_char_def)

lemma str_of_nat_digits: "list_all is_digit (str_of_nat n)"
proof (induction n rule: str_of_nat.induct)
  case (1 n)
  then show ?case
    by (subst str_of_nat.simps) (simp add: digit_char_is_digit)
qed

lemma str_of_nat_not_Nil [simp]: "str_of_nat n \<noteq> []"
  by (subst str_of_nat.simps) simp

lemma digits_value_snoc:
  "list_all is_digit xs \<Longrightarrow> is_digit c \<Longrightarrow> digits_value (xs @ [c]) = 10 * digits_value xs + digit_val c"
  by (simp add: digits_value_def list_all_iff)

lemma digits_value_str_of_nat: "digits_value (str_of_nat n) = n"
proof (induction n rule: str_of_nat.induct)
  case (1 n)
  show ?case
  proof (cases "n < 10")
    case True
    then show ?thesis
      by (subst str_of_nat.simps) (simp add: digits_value_def digit_char_is_digit)
  next
    case False
    then have "digits_value (str_of_nat n) = 10 * digits_value (str_of_nat (n div 10)) + n mod 10"
      by (subst str_of_nat.simps) (simp add: digits_value_snoc str_of_nat_digits digit_char_is_digit)
    with False "1.IH" show ?thesis by simp
  qed
qed

text \<open>\<open>str.strip()\<close> removes exactly the whitespace around the text: what it returns is
  the text with a whitespace prefix and suffix taken off, and it neither starts nor ends
  with whitespace.\<close>

lemma py_strip_spec:
  "\<exists>p q. s = p @ py_strip s @ q \<and> list_all py_isspace p \<and> list_all py_isspace q \<and>
     (py_strip s = [] \<or> \<not> py_isspace (hd (py_strip s)) \<and> \<not> py_isspace (last (py_strip s)))"
proof -
  define s1 where "s1 = dropWhile py_isspace s"
  define r where "r = dropWhile py_isspace (rev s1)"
  have st: "py_strip s = rev r" by (simp add: py_strip_def s1_def r_def)
  have s: "s = takeWhile py_isspace s @ s1" by (simp add: s1_def)
  have "rev s1 = takeWhile py_isspace (rev s1) @ r" by (simp add: r_def)
  then have s1: "s1 = rev r @ rev (takeWhile py_isspace (rev s1))"
    by (metis rev_append rev_rev_ident)
  have p: "list_all py_isspace (takeWhile py_isspace s)"
    by (auto simp: list_all_iff dest: set_takeWhileD)
  have q: "list_all py_isspace (rev (takeWhile py_isspace (rev s1)))"
    by (auto simp: list_all_iff dest: set_takeWhileD)
  have ends: "rev r = [] \<or> \<not> py_isspace (hd (rev r)) \<and> \<not> py_isspace (last (rev r))"
  proof (cases r)
    case (Cons y ys)
    then have y: "\<not> py_isspace y" using dropWhile_eq_Cons_conv [of _ "rev s1" y ys] by (auto simp: r_def)
    have "s1 \<noteq> []" using s1 Cons by auto
    moreover have "\<not> py_isspace (hd s1)" if "s1 \<noteq> []"
      using that hd_dropWhile [of py_isspace s] by (simp add: s1_def)
    moreover have "hd (rev r) = hd s1"
    proof -
      have "rev r \<noteq> []" using Cons by simp
      then show ?thesis by (subst s1) (simp add: hd_append2)
    qed
    ultimately show ?thesis using y Cons by simp
  qed simp
  from s s1 have "s = takeWhile py_isspace s @ rev r @ rev (takeWhile py_isspace (rev s1))" by simp
  with p q ends show ?thesis unfolding st by blast
qed

lemma py_index_last: "py_index xs (-1) = (if xs = [] then Inl IndexError else Inr (last xs))"
  by (cases xs rule: rev_cases) (auto simp: py_index_def nth_append)

lemma py_index_minus2:
  "py_index xs (-2) = (if length xs < 2 then Inl IndexError else Inr (xs ! (length xs - 2)))"
  by (auto simp: py_index_def nat_diff_distrib)

lemma py_replace_char_removes: "a \<noteq> b \<Longrightarrow> a \<notin> set (py_replace_char a b s)"
  by (auto simp: py_replace_char_def)

end
