(* ===== verification/Html_Doc.thy ===== *)
theory Html_Doc
  imports Py_Builtins
begin

text \<open>
  The part of BeautifulSoup the crawler calls, as an interface over a parsed document:
  a document is a list of nodes, an element has a tag, attributes, a class list and
  children. \<open>find_all(tag, class_=c)\<close> lists the matching descendants in document order
  (pre-order), \<open>find\<close> is its first element or \<open>None\<close>, \<open>.text\<close> concatenates the
  descendant strings, \<open>.get(attr)\<close> reads an attribute. Parsing HTML text into this tree
  (the \<open>lxml\<close> parser) is the library's and is not modelled: a fetched page is its tree.
  A class filter matches an element one of whose classes equals it, as bs4 matches a
  multi-valued \<open>class\<close> attribute.
\<close>

datatype node =
    Text string
  | Elem string "(string \<times> string) list" "string list" "node list"

definition class_ok :: "string option \<Rightarrow> string list \<Rightarrow> bool" where
  "class_ok c cl = (case c of None \<Rightarrow> True | Some k \<Rightarrow> k \<in> set cl)"

fun tag_matches :: "string \<Rightarrow> string option \<Rightarrow> node \<Rightarrow> bool" where
  "tag_matches t c (Elem tg at cl ch) = (tg = t \<and> class_ok c cl)"
| "tag_matches t c (Text s) = False"

fun bs_find_all :: "string \<Rightarrow> string option \<Rightarrow> node list \<Rightarrow> node list" where
  "bs_find_all t c [] = []"
| "bs_find_all t c (Text s # ns) = bs_find_all t c ns"
| "bs_find_all t c (Elem tg at cl ch # ns) =
     (if tg = t \<and> class_ok c cl then [Elem tg at cl ch] else []) @ bs_find_all t c ch @ bs_find_all t c ns"

definition bs_find :: "string \<Rightarrow> string option \<Rightarrow> node list \<Rightarrow> node option" where
  "bs_find t c ns = (case bs_find_all t c ns of [] \<Rightarrow> None | n # _ \<Rightarrow> Some n)"

fun children :: "node \<Rightarrow> node list" where
  "children (Elem tg at cl ch) = ch"
| "children (Text s) = []"

fun text_of :: "node list \<Rightarrow> string" where
  "text_of [] = []"
| "text_of (Text s # ns) = s @ text_of ns"
| "text_of (Elem tg at cl ch # ns) = text_of ch @ text_of ns"

text \<open>\<open>el.text\<close>.\<close>

fun bs_text :: "node \<Rightarrow> string" where
  "bs_text (Text s) = s"
| "bs_text (Elem tg at cl ch) = text_of ch"

text \<open>\<open>el.get(name)\<close>.\<close>

fun bs_get :: "node \<Rightarrow> string \<Rightarrow> string option" where
  "bs_get (Elem tg at cl ch) a = map_of at a"
| "bs_get (Text s) a = None"

text \<open>
  \<open>x.find(...).attr\<close> where \<open>find\<close> returned \<open>None\<close> raises \<open>AttributeError\<close>
  (\<open>None\<close> has no attribute): the chained call as an error value.
\<close>

definition bs_find_req :: "string \<Rightarrow> string option \<Rightarrow> node list \<Rightarrow> pyerr + node" where
  "bs_find_req t c ns = (case bs_find t c ns of None \<Rightarrow> Inl AttributeError | Some n \<Rightarrow> Inr n)"

subsection \<open>Lemmas\<close>

lemma bs_find_all_append [simp]:
  "bs_find_all t c (xs @ ys) = bs_find_all t c xs @ bs_find_all t c ys"
  by (induction xs rule: bs_find_all.induct) auto

lemma bs_find_all_matches: "list_all (tag_matches t c) (bs_find_all t c ns)"
  by (induction t c ns rule: bs_find_all.induct) auto

lemma bs_find_Some: "bs_find t c ns = Some n \<Longrightarrow> tag_matches t c n \<and> n \<in> set (bs_find_all t c ns)"
  using bs_find_all_matches [of t c ns]
  by (auto simp: bs_find_def list_all_iff split: list.splits)

lemma bs_find_None: "bs_find t c ns = None \<longleftrightarrow> bs_find_all t c ns = []"
  by (simp add: bs_find_def split: list.splits)

lemma bs_find_req_Inr: "bs_find_req t c ns = Inr n \<longleftrightarrow> bs_find t c ns = Some n"
  by (simp add: bs_find_req_def split: option.splits)

lemma bs_find_req_Inl: "bs_find_req t c ns = Inl e \<longleftrightarrow> e = AttributeError \<and> bs_find t c ns = None"
  by (auto simp: bs_find_req_def split: option.splits)

lemmas bs_simps [model_simps] =
  class_ok_def bs_find_def bs_find_req_def

end
