(* ===== verification/Http.thy ===== *)
theory Http
  imports Html_Doc
begin

text \<open>
  The HTTP side of \<open>EldoradoParser\<close>: its fixed configuration (\<open>__init__\<close>), the request a
  call of \<open>session.get\<close> or \<open>requests.get\<close> sends, and the site as a function from
  requests to responses. The site is static during a run, so a request always has the
  same answer; \<open>None\<close> is a transport failure, which \<open>aiohttp\<close> and \<open>requests\<close> raise
  (\<open>ClientError\<close>). The \<open>asyncio.sleep\<close> delays shape timing, which
  \<open>Listing_Timing\<close> models; what they separate is modelled as distinct scheduling
  points in \<open>Category_Run\<close>.
\<close>

definition home_url :: url where
  "home_url = ''https://www.eldorado.ru''"

definition category_urls :: url where
  "category_urls = home_url @ ''/d''"

definition headers :: "(string \<times> string) list" where
  "headers =
     [(''accept'', ''text/html,application/xhtml+xml,application/xml;q=0.9,image/avif,image/webp,image/apng,*/*;q=0.8,application/signed-exchange;v=b3;q=0.9''),
      (''user-agent'', ''Mozilla/5.0 (X11; Linux x86_64) AppleWebKit/537.36 (KHTML, like Gecko) Chrome/94.0.4606.81 Safari/537.36'')]"

record request =
  req_url :: url
  req_params :: "(string \<times> string) list"
  req_headers :: "(string \<times> string) list"

record response =
  status :: nat
  body :: "node list"

type_synonym web = "request \<Rightarrow> response option"

text \<open>\<open>session.get(url=u, params=ps, headers=self.headers)\<close>; every call site passes the headers.\<close>

definition mk_request :: "url \<Rightarrow> (string \<times> string) list \<Rightarrow> request" where
  "mk_request u ps = \<lparr>req_url = u, req_params = ps, req_headers = headers\<rparr>"

definition http_get :: "web \<Rightarrow> url \<Rightarrow> (string \<times> string) list \<Rightarrow> pyerr + response" where
  "http_get w u ps = (case w (mk_request u ps) of None \<Rightarrow> Inl ClientError | Some r \<Rightarrow> Inr r)"

text \<open>The review-view query string \<open>{'show': 'response'}\<close> and a listing page's \<open>{'page': p}\<close>.\<close>

definition show_params :: "(string \<times> string) list" where
  "show_params = [(''show'', ''response'')]"

definition page_params :: "nat \<Rightarrow> (string \<times> string) list" where
  "page_params p = [(''page'', str_of_nat p)]"

text \<open>\<open>_parse_comments\<close>, lines 45--48: page 1 is the product URL itself.\<close>

definition page_url :: "url \<Rightarrow> nat \<Rightarrow> url" where
  "page_url u page = (if page = 1 then u else u @ ''/page/'' @ str_of_nat page)"

lemma http_get_Inr: "http_get w u ps = Inr r \<longleftrightarrow> w (mk_request u ps) = Some r"
  by (simp add: http_get_def split: option.splits)

lemma http_get_Inl: "http_get w u ps = Inl e \<longleftrightarrow> e = ClientError \<and> w (mk_request u ps) = None"
  by (auto simp: http_get_def split: option.splits)

lemma page_url_inj:
  assumes "page_url u p = page_url u q" and "0 < p" and "0 < q"
  shows "p = q"
proof -
  have len: "length (str_of_nat n) > 0" for n by (cases "str_of_nat n") auto
  have "str_of_nat p = str_of_nat q \<Longrightarrow> p = q"
    by (metis digits_value_str_of_nat)
  with assms len show ?thesis
    by (auto simp: page_url_def split: if_splits)
qed

lemmas http_simps [model_simps] =
  home_url_def category_urls_def mk_request_def http_get_def show_params_def page_params_def page_url_def

end
