(* ===== verification/Extract.thy ===== *)
theory Extract
  imports Http
begin

text \<open>
  The extraction profiles of \<open>src/parsers/eldorado_parser.py\<close>: what each method reads
  out of a fetched page. Category links (\<open>get_url_categories\<close>, the regular expression
  \<open>/c/([\w.-]+)/\<close>), product links of a listing page, the page counts of a product and of
  a category with their different error handling, the display names, and the review
  records of a review page with the per-container \<open>try\<close>/\<open>except\<close>.
\<close>

subsection \<open>The category-link pattern \<open>re.search(r'/c/([\w.-]+)/', href)\<close>\<close>

text \<open>\<open>\w\<close> on ASCII: letters, digits and underscore; the class adds \<open>.\<close> and \<open>-\<close>.\<close>

definition cat_class :: "char \<Rightarrow> bool" where
  "cat_class c =
     (let k = (of_char c :: nat)
      in (48 \<le> k \<and> k \<le> 57) \<or> (65 \<le> k \<and> k \<le> 90) \<or> (97 \<le> k \<and> k \<le> 122) \<or> k = 95 \<or> k = 46 \<or> k = 45)"

text \<open>
  A match anchored at the start. The run \<open>[\w.-]+\<close> is greedy and never contains \<open>/\<close>,
  so backtracking cannot find a shorter run followed by \<open>/\<close>: the maximal run is the
  only candidate.
\<close>

definition cat_match_at :: "string \<Rightarrow> string option" where
  "cat_match_at s =
     (if take 3 s = ''/c/'' then
        (let rest = drop 3 s; run = takeWhile cat_class rest; after = dropWhile cat_class rest
         in if run \<noteq> [] \<and> after \<noteq> [] \<and> hd after = CHR ''/'' then Some (''/c/'' @ run @ ''/'') else None)
      else None)"

text \<open>\<open>re.search\<close>: the leftmost position at which the pattern matches; \<open>group(0)\<close>.\<close>

fun re_search_cat :: "string \<Rightarrow> string option" where
  "re_search_cat [] = None"
| "re_search_cat (c # cs) = (case cat_match_at (c # cs) of Some m \<Rightarrow> Some m | None \<Rightarrow> re_search_cat cs)"

text \<open>The loop of \<open>get_url_categories\<close> over the anchors: \<open>re.search(.., None)\<close> raises \<open>TypeError\<close>.\<close>

fun add_category_urls :: "string set \<Rightarrow> node list \<Rightarrow> pyerr + string set" where
  "add_category_urls S [] = Inr S"
| "add_category_urls S (l # ls) =
     (case bs_get l ''href'' of
        None \<Rightarrow> Inl TypeError
      | Some h \<Rightarrow> add_category_urls (case re_search_cat h of None \<Rightarrow> S | Some m \<Rightarrow> insert m S) ls)"

definition get_url_categories :: "web \<Rightarrow> pyerr + string set" where
  "get_url_categories w =
     sbind (http_get w category_urls [])
       (\<lambda>r. add_category_urls {} (bs_find_all ''a'' (Some ''ss'') (body r)))"

subsection \<open>Reviews of one review page\<close>

record review =
  rv_url :: url
  author :: string
  date :: string
  content :: string

text \<open>
  One container (lines 55--64): a missing field makes \<open>None.text\<close> raise
  \<open>AttributeError\<close>, which \<open>except Exception: continue\<close> turns into a skip (\<open>None\<close>).
  The author is not stripped; date and content are.
\<close>

definition parse_comment :: "url \<Rightarrow> node \<Rightarrow> review option" where
  "parse_comment u cm =
     (let ch = children cm in
      case bs_find ''span'' (Some ''userName'') ch of
        None \<Rightarrow> None
      | Some a \<Rightarrow>
          (case bs_find ''div'' (Some ''userReviewDate'') ch of
             None \<Rightarrow> None
           | Some d \<Rightarrow>
               (case bs_find ''div'' (Some ''middleBlockItem'') ch of
                  None \<Rightarrow> None
                | Some m \<Rightarrow>
                    Some \<lparr>rv_url = u, author = bs_text a, date = py_strip (bs_text d),
                          content = py_strip (bs_text m)\<rparr>)))"

definition extract_reviews :: "url \<Rightarrow> node list \<Rightarrow> review list" where
  "extract_reviews u doc =
     List.map_filter (parse_comment u) (bs_find_all ''div'' (Some ''usersReviewsListItemInnerContainer'') doc)"

subsection \<open>Product page: page count and name\<close>

text \<open>
  Lines 73--76: \<open>int(soup.find('div', class_='pages').find_all('a')[-1].text)\<close>, with
  \<open>AttributeError\<close> and \<open>IndexError\<close> caught and replaced by 1. A \<open>ValueError\<close> from
  \<open>int\<close> is not caught and propagates.
\<close>

definition product_page_count :: "node list \<Rightarrow> pyerr + int" where
  "product_page_count doc =
     (case sbind (bs_find_req ''div'' (Some ''pages'') doc)
             (\<lambda>pg. sbind (py_index (bs_find_all ''a'' None (children pg)) (-1)) (\<lambda>a. py_int (bs_text a))) of
        Inl e \<Rightarrow> (if e = AttributeError \<or> e = IndexError then Inr 1 else Inl e)
      | Inr n \<Rightarrow> Inr n)"

text \<open>Line 77: \<open>soup.find('h1', class_='catalogItemDetailHd').text.replace('/', '_')\<close>.\<close>

definition product_name :: "node list \<Rightarrow> pyerr + string" where
  "product_name doc =
     map_sum id (\<lambda>h. py_replace_char CHR ''/'' CHR ''_'' (bs_text h))
       (bs_find_req ''h1'' (Some ''catalogItemDetailHd'') doc)"

subsection \<open>Listing page: product links; category page: page count and name\<close>

text \<open>Line 95 and the f-string of line 68: an anchor without \<open>href\<close> gives the text \<open>None\<close>.\<close>

definition product_links :: "node list \<Rightarrow> node list" where
  "product_links doc = bs_find_all ''a'' (Some ''sG'') doc"

definition href_str :: "node \<Rightarrow> string" where
  "href_str a = (case bs_get a ''href'' of None \<Rightarrow> ''None'' | Some h \<Rightarrow> h)"

definition product_url :: "string \<Rightarrow> url" where
  "product_url h = home_url @ ''/'' @ h"

text \<open>Line 106: \<open>int(soup.find('div', class_='zr').find_all('li')[-2].text)\<close>, nothing caught.\<close>

definition category_page_count :: "node list \<Rightarrow> pyerr + int" where
  "category_page_count doc =
     sbind (bs_find_req ''div'' (Some ''zr'') doc)
       (\<lambda>z. sbind (py_index (bs_find_all ''li'' None (children z)) (-2)) (\<lambda>li. py_int (bs_text li)))"

text \<open>Line 107: \<open>soup.find('h1', class_='-K').text\<close>.\<close>

definition category_name :: "node list \<Rightarrow> pyerr + string" where
  "category_name doc = map_sum id bs_text (bs_find_req ''h1'' (Some ''-K'') doc)"

definition cat_pattern :: "string \<Rightarrow> bool" where
  "cat_pattern m \<longleftrightarrow> (\<exists>run. m = ''/c/'' @ run @ ''/'' \<and> run \<noteq> [] \<and> list_all cat_class run)"

lemma slash_not_cat_class [simp]: "\<not> cat_class CHR ''/''"
  by (simp add: cat_class_def)

lemma cat_match_at_Some:
  "cat_match_at s = Some m \<longleftrightarrow> cat_pattern m \<and> (\<exists>q. s = m @ q)"
proof
  assume a: "cat_match_at s = Some m"
  let ?rest = "drop 3 s"
  let ?run = "takeWhile cat_class ?rest"
  let ?after = "dropWhile cat_class ?rest"
  from a have t: "take 3 s = ''/c/''" and r: "?run \<noteq> []" and af: "?after \<noteq> []"
    and h: "hd ?after = CHR ''/''" and m: "m = ''/c/'' @ ?run @ ''/''"
    by (auto simp: cat_match_at_def Let_def split: if_splits)
  have "s = ''/c/'' @ ?run @ ?after"
    using t by (metis append_take_drop_id takeWhile_dropWhile_id)
  also have "?after = CHR ''/'' # tl ?after" using af h by (cases ?after) auto
  finally have "s = m @ tl ?after" using m by simp
  moreover have "list_all cat_class ?run"
    by (simp add: list_all_iff) (meson set_takeWhileD)
  ultimately show "cat_pattern m \<and> (\<exists>q. s = m @ q)"
    using r m by (auto simp: cat_pattern_def)
next
  assume "cat_pattern m \<and> (\<exists>q. s = m @ q)"
  then obtain run q where m: "m = ''/c/'' @ run @ ''/''" and r: "run \<noteq> []"
    and c: "list_all cat_class run" and s: "s = m @ q"
    by (auto simp: cat_pattern_def)
  have tw: "takeWhile cat_class (run @ CHR ''/'' # q) = run"
    using c by (simp add: list_all_iff takeWhile_append2)
  have dw: "dropWhile cat_class (run @ CHR ''/'' # q) = CHR ''/'' # q"
    using c by (simp add: list_all_iff dropWhile_append2)
  show "cat_match_at s = Some m"
    using s m r tw dw by (simp add: cat_match_at_def Let_def)
qed

lemma cat_pattern_nonempty: "cat_pattern m \<Longrightarrow> m \<noteq> []"
  by (auto simp: cat_pattern_def)

lemma re_search_cat_None:
  "re_search_cat s = None \<longleftrightarrow> \<not> (\<exists>p m q. s = p @ m @ q \<and> cat_pattern m)"
proof (induction s)
  case Nil
  then show ?case by (auto dest: cat_pattern_nonempty)
next
  case (Cons c cs)
  show ?case
  proof (cases "cat_match_at (c # cs)")
    case (Some m0)
    then obtain q0 where w: "c # cs = [] @ m0 @ q0" and pm: "cat_pattern m0"
      by (auto simp: cat_match_at_Some)
    have "re_search_cat (c # cs) \<noteq> None" using Some by simp
    with w pm show ?thesis by blast
  next
    case None
    have "(\<exists>p m q. c # cs = p @ m @ q \<and> cat_pattern m) \<longleftrightarrow> (\<exists>p m q. cs = p @ m @ q \<and> cat_pattern m)"
    proof
      assume "\<exists>p m q. c # cs = p @ m @ q \<and> cat_pattern m"
      then obtain p m q where d: "c # cs = p @ m @ q" and pm: "cat_pattern m" by blast
      show "\<exists>p m q. cs = p @ m @ q \<and> cat_pattern m"
      proof (cases p)
        case Nil
        with d pm None show ?thesis by (metis append_Nil cat_match_at_Some option.distinct(1))
      next
        case (Cons c' p')
        with d pm show ?thesis by auto
      qed
    next
      assume "\<exists>p m q. cs = p @ m @ q \<and> cat_pattern m"
      then obtain p m q where "cs = p @ m @ q" "cat_pattern m" by blast
      then have "c # cs = (c # p) @ m @ q \<and> cat_pattern m" by simp
      then show "\<exists>p m q. c # cs = p @ m @ q \<and> cat_pattern m" by blast
    qed
    with None Cons.IH show ?thesis by simp
  qed
qed

text \<open>
  C12. \<open>re_search_cat\<close> is \<open>re.search\<close> for the pattern \<open>/c/([\\w.-]+)/\<close>: it
  returns \<open>m\<close> exactly when \<open>m\<close> is an occurrence of the pattern in the string and
  no occurrence starts further left.
\<close>

theorem re_search_cat_leftmost:
  "re_search_cat s = Some m \<longleftrightarrow>
     (\<exists>p q. s = p @ m @ q \<and> cat_pattern m \<and>
        \<not> (\<exists>p' m' q'. s = p' @ m' @ q' \<and> cat_pattern m' \<and> length p' < length p))"
proof (induction s arbitrary: m)
  case Nil
  then show ?case by (auto dest: cat_pattern_nonempty)
next
  case (Cons c cs)
  show ?case
  proof (cases "cat_match_at (c # cs)")
    case (Some m0)
    then have m0: "cat_pattern m0 \<and> (\<exists>q. c # cs = m0 @ q)" by (simp add: cat_match_at_Some)
    show ?thesis
    proof
      assume "re_search_cat (c # cs) = Some m"
      with Some m0 show "\<exists>p q. c # cs = p @ m @ q \<and> cat_pattern m \<and>
        \<not> (\<exists>p' m' q'. c # cs = p' @ m' @ q' \<and> cat_pattern m' \<and> length p' < length p)"
        by (metis append_Nil length_0_conv less_nat_zero_code option.inject re_search_cat.simps(2) option.simps(5))
    next
      assume "\<exists>p q. c # cs = p @ m @ q \<and> cat_pattern m \<and>
        \<not> (\<exists>p' m' q'. c # cs = p' @ m' @ q' \<and> cat_pattern m' \<and> length p' < length p)"
      then obtain p q where d: "c # cs = p @ m @ q" and pm: "cat_pattern m"
        and mn: "\<not> (\<exists>p' m' q'. c # cs = p' @ m' @ q' \<and> cat_pattern m' \<and> length p' < length p)" by blast
      from m0 obtain q0 where "c # cs = [] @ m0 @ q0" by auto
      with m0 mn have "\<not> length ([] :: char list) < length p" by blast
      then have "p = []" by simp
      with d pm have "cat_match_at (c # cs) = Some m" by (simp add: cat_match_at_Some)
      with Some show "re_search_cat (c # cs) = Some m" by simp
    qed
  next
    case None
    have no0: "\<not> (c # cs = m' @ q' \<and> cat_pattern m')" for m' q'
      using None by (metis cat_match_at_Some option.distinct(1))
    show ?thesis
    proof
      assume "re_search_cat (c # cs) = Some m"
      with None have "re_search_cat cs = Some m" by simp
      with Cons.IH obtain p q where d: "cs = p @ m @ q" and pm: "cat_pattern m"
        and mn: "\<not> (\<exists>p' m' q'. cs = p' @ m' @ q' \<and> cat_pattern m' \<and> length p' < length p)" by blast
      have "\<not> (\<exists>p' m' q'. c # cs = p' @ m' @ q' \<and> cat_pattern m' \<and> length p' < length (c # p))"
      proof
        assume "\<exists>p' m' q'. c # cs = p' @ m' @ q' \<and> cat_pattern m' \<and> length p' < length (c # p)"
        then obtain p' m' q' where d': "c # cs = p' @ m' @ q'" and pm': "cat_pattern m'"
          and l: "length p' < length (c # p)" by blast
        show False
        proof (cases p')
          case Nil
          with d' pm' no0 show False by simp
        next
          case (Cons c'' p'')
          with d' pm' l mn show False by auto
        qed
      qed
      with d pm show "\<exists>p q. c # cs = p @ m @ q \<and> cat_pattern m \<and>
        \<not> (\<exists>p' m' q'. c # cs = p' @ m' @ q' \<and> cat_pattern m' \<and> length p' < length p)"
        by (metis append_Cons)
    next
      assume "\<exists>p q. c # cs = p @ m @ q \<and> cat_pattern m \<and>
        \<not> (\<exists>p' m' q'. c # cs = p' @ m' @ q' \<and> cat_pattern m' \<and> length p' < length p)"
      then obtain p q where d: "c # cs = p @ m @ q" and pm: "cat_pattern m"
        and mn: "\<not> (\<exists>p' m' q'. c # cs = p' @ m' @ q' \<and> cat_pattern m' \<and> length p' < length p)" by blast
      obtain p0 where p: "p = c # p0" using d pm no0 by (cases p) auto
      have "\<not> (\<exists>p' m' q'. cs = p' @ m' @ q' \<and> cat_pattern m' \<and> length p' < length p0)"
      proof
        assume "\<exists>p' m' q'. cs = p' @ m' @ q' \<and> cat_pattern m' \<and> length p' < length p0"
        then obtain p' m' q' where "cs = p' @ m' @ q'" "cat_pattern m'" "length p' < length p0" by blast
        then have "c # cs = (c # p') @ m' @ q' \<and> cat_pattern m' \<and> length (c # p') < length p"
          using p by simp
        with mn show False by blast
      qed
      with d p pm have "re_search_cat cs = Some m" using Cons.IH by auto
      with None show "re_search_cat (c # cs) = Some m" by simp
    qed
  qed
qed


lemma py_int_Inl: "py_int s = Inl e \<Longrightarrow> e = ValueError"
  by (auto simp: py_int_def py_int_body_def split: list.splits if_splits)

lemma re_search_cat_pattern: "re_search_cat h = Some m \<Longrightarrow> cat_pattern m"
  by (induction h rule: re_search_cat.induct) (auto simp: cat_match_at_Some split: option.splits)

text \<open>
  C8. The product page count: 1 when the \<open>pages\<close> block is absent or has no anchor;
  otherwise \<open>int()\<close> of the last anchor's text, whose \<open>ValueError\<close> on a non-numeric
  text is not caught (the spec says malformed pagination falls back to 1), and which may
  be 0 or negative.
\<close>

theorem product_page_count_eq:
  "product_page_count doc =
     (case bs_find ''div'' (Some ''pages'') doc of
        None \<Rightarrow> Inr 1
      | Some pg \<Rightarrow>
          (case bs_find_all ''a'' None (children pg) of
             [] \<Rightarrow> Inr 1
           | as \<Rightarrow> py_int (bs_text (last as))))"
proof (cases "bs_find ''div'' (Some ''pages'') doc")
  case None
  then show ?thesis by (simp add: product_page_count_def bs_find_req_def)
next
  case (Some pg)
  let ?as = "bs_find_all ''a'' None (children pg)"
  show ?thesis
  proof (cases "?as = []")
    case True
    with Some show ?thesis by (simp add: product_page_count_def bs_find_req_def py_index_last)
  next
    case False
    have "py_int (bs_text (last ?as)) = Inl e \<Longrightarrow> e = ValueError" for e
      by (rule py_int_Inl)
    with Some False show ?thesis
      by (auto simp: product_page_count_def bs_find_req_def py_index_last list.case_eq_if
          split: sum.splits)
  qed
qed

text \<open>
  C9. The category page count has no fallback at all: an absent \<open>zr\<close> block raises
  \<open>AttributeError\<close>, fewer than two list items raise \<open>IndexError\<close>, otherwise it is
  \<open>int()\<close> of the second-to-last item's text.
\<close>

theorem category_page_count_eq:
  "category_page_count doc =
     (case bs_find ''div'' (Some ''zr'') doc of
        None \<Rightarrow> Inl AttributeError
      | Some z \<Rightarrow>
          (let lis = bs_find_all ''li'' None (children z)
           in if length lis < 2 then Inl IndexError else py_int (bs_text (lis ! (length lis - 2)))))"
  by (simp add: category_page_count_def bs_find_req_def py_index_minus2 Let_def split: option.splits)

lemma parse_comment_None:
  "parse_comment u cm = None \<longleftrightarrow>
     bs_find ''span'' (Some ''userName'') (children cm) = None \<or>
     bs_find ''div'' (Some ''userReviewDate'') (children cm) = None \<or>
     bs_find ''div'' (Some ''middleBlockItem'') (children cm) = None"
  by (simp add: parse_comment_def Let_def split: option.splits)

lemma parse_comment_url: "parse_comment u cm = Some r \<Longrightarrow> rv_url r = u"
  by (auto simp: parse_comment_def Let_def split: option.splits)

lemma extract_reviews_url: "r \<in> set (extract_reviews u doc) \<Longrightarrow> rv_url r = u"
  by (auto simp: extract_reviews_def mem_map_filter_iff dest: parse_comment_url)

lemma add_category_urls_eq:
  "add_category_urls S ls =
     (if list_all (\<lambda>l. bs_get l ''href'' \<noteq> None) ls
      then Inr (S \<union> set (List.map_filter (\<lambda>l. Option.bind (bs_get l ''href'') re_search_cat) ls))
      else Inl TypeError)"
  by (induction S ls rule: add_category_urls.induct)
    (auto simp: map_filter_simps split: option.splits)

text \<open>
  C10. A review page yields no review (an empty list, never an error) exactly when each
  of its review containers lacks the author, the date or the content element; a
  container lacking one is skipped without affecting the others.
\<close>

theorem extract_reviews_empty_iff:
  "extract_reviews u doc = [] \<longleftrightarrow>
     list_all (\<lambda>c. bs_find ''span'' (Some ''userName'') (children c) = None \<or>
                   bs_find ''div'' (Some ''userReviewDate'') (children c) = None \<or>
                   bs_find ''div'' (Some ''middleBlockItem'') (children c) = None)
       (bs_find_all ''div'' (Some ''usersReviewsListItemInnerContainer'') doc)"
proof -
  have "extract_reviews u doc = [] \<longleftrightarrow>
          list_all (\<lambda>c. parse_comment u c = None) (bs_find_all ''div'' (Some ''usersReviewsListItemInnerContainer'') doc)"
    by (simp add: extract_reviews_def List.map_filter_def list_all_iff filter_empty_conv)
  then show ?thesis by (simp add: parse_comment_None)
qed

text \<open>
  C11. A review built from a container (lines 56--61) takes its three fields from the
  \<open>userName\<close> span and the \<open>userReviewDate\<close> and \<open>middleBlockItem\<close> divs: the author is
  their text as it stands, surrounding whitespace included (no \<open>.strip()\<close> at line 58),
  while date and content are their texts with exactly the surrounding whitespace taken
  off, so they neither start nor end with whitespace.
\<close>

theorem parse_comment_fields:
  assumes "parse_comment u cm = Some r"
  shows "\<exists>a d m. bs_find ''span'' (Some ''userName'') (children cm) = Some a \<and>
      bs_find ''div'' (Some ''userReviewDate'') (children cm) = Some d \<and>
      bs_find ''div'' (Some ''middleBlockItem'') (children cm) = Some m \<and>
      rv_url r = u \<and> author r = bs_text a \<and>
      (\<exists>p q. bs_text d = p @ date r @ q \<and> list_all py_isspace p \<and> list_all py_isspace q) \<and>
      (date r = [] \<or> \<not> py_isspace (hd (date r)) \<and> \<not> py_isspace (last (date r))) \<and>
      (\<exists>p q. bs_text m = p @ content r @ q \<and> list_all py_isspace p \<and> list_all py_isspace q) \<and>
      (content r = [] \<or> \<not> py_isspace (hd (content r)) \<and> \<not> py_isspace (last (content r)))"
proof -
  from assms obtain a d m where
    f: "bs_find ''span'' (Some ''userName'') (children cm) = Some a"
       "bs_find ''div'' (Some ''userReviewDate'') (children cm) = Some d"
       "bs_find ''div'' (Some ''middleBlockItem'') (children cm) = Some m"
    and r: "r = \<lparr>rv_url = u, author = bs_text a, date = py_strip (bs_text d), content = py_strip (bs_text m)\<rparr>"
    by (auto simp: parse_comment_def Let_def split: option.splits)
  from f r py_strip_spec [of "bs_text d"] py_strip_spec [of "bs_text m"] show ?thesis by auto
qed

lemmas extract_simps [model_simps] =
  cat_class_def cat_match_at_def get_url_categories_def parse_comment_def extract_reviews_def
  product_page_count_def product_name_def product_links_def href_str_def product_url_def
  category_page_count_def category_name_def

end
