(* ===== verification/Logging.thy ===== *)
theory Logging
  imports Crawl_Prelude
begin

text \<open>
  The logging configuration of the module (lines 10--17) and the parser's logger
  (line 22), with the part of Python's \<open>logging\<close> semantics they rely on. A level is a
  number (\<open>NOTSET\<close> = 0, \<open>INFO\<close> = 20, \<open>WARNING\<close> = 30); the code logs at \<open>INFO\<close> and
  \<open>WARNING\<close> only, so those are the constructors of \<open>level\<close>, ordered by their numbers.
  \<open>logging.basicConfig\<close> installs its handlers on the root logger when it has none and
  sets the root level only when a \<open>level\<close> argument is given; the root level is
  \<open>WARNING\<close> by default. \<open>getLogger(__name__)\<close> creates a logger with level \<open>NOTSET\<close>,
  whose effective level is then the root's. \<open>logger.info(m)\<close> and \<open>logger.warning(m)\<close>
  emit a record to the root's handlers (file \<open>Log.log\<close> and the console) exactly when
  the logger is enabled for the record's level.
\<close>

datatype level = INFO | WARNING

definition level_no :: "level \<Rightarrow> nat" where
  "level_no lv = (case lv of INFO \<Rightarrow> 20 | WARNING \<Rightarrow> 30)"

instantiation level :: linorder
begin

definition less_eq_level :: "level \<Rightarrow> level \<Rightarrow> bool" where
  "less_eq_level a b \<longleftrightarrow> level_no a \<le> level_no b"

definition less_level :: "level \<Rightarrow> level \<Rightarrow> bool" where
  "less_level a b \<longleftrightarrow> level_no a < level_no b"

instance
proof
  fix x y z :: level
  show "x < y \<longleftrightarrow> x \<le> y \<and> \<not> y \<le> x"
    by (auto simp: less_eq_level_def less_level_def)
  show "x \<le> x" by (simp add: less_eq_level_def)
  show "x \<le> y \<Longrightarrow> y \<le> z \<Longrightarrow> x \<le> z" by (simp add: less_eq_level_def)
  show "x \<le> y \<Longrightarrow> y \<le> x \<Longrightarrow> x = y"
    by (cases x; cases y) (simp_all add: less_eq_level_def level_no_def)
  show "x \<le> y \<or> y \<le> x" by (auto simp: less_eq_level_def)
qed

end

text \<open>The state of the logging module that the program touches.\<close>

record log_config =
  lg_level :: nat
  root_level :: nat
  root_handlers :: "string list"

text \<open>Before line 10: a fresh root logger (level \<open>WARNING\<close>, no handler) and, once line 22
  has run, the logger \<open>__name__\<close> with level \<open>NOTSET\<close>.\<close>

definition logging_default :: log_config where
  "logging_default = \<lparr>lg_level = 0, root_level = 30, root_handlers = []\<rparr>"

text \<open>\<open>logging.basicConfig(handlers=hs, level=lv, ...)\<close>; \<open>None\<close> is an absent \<open>level\<close>.\<close>

definition basic_config :: "string list \<Rightarrow> nat option \<Rightarrow> log_config \<Rightarrow> log_config" where
  "basic_config hs lv c =
     (if root_handlers c = [] then
        c\<lparr>root_handlers := hs, root_level := (case lv of None \<Rightarrow> root_level c | Some l \<Rightarrow> l)\<rparr>
      else c)"

text \<open>Lines 10--17: a file handler and a console handler, a format and a date format, and
  no \<open>level\<close>.\<close>

definition log_setup :: log_config where
  "log_setup = basic_config [''Log.log'', ''<stderr>''] None logging_default"

text \<open>\<open>Logger.getEffectiveLevel\<close>: the first level other than \<open>NOTSET\<close> up the hierarchy.\<close>

definition effective_level :: "log_config \<Rightarrow> nat" where
  "effective_level c = (if lg_level c \<noteq> 0 then lg_level c else root_level c)"

definition is_enabled_for :: "log_config \<Rightarrow> level \<Rightarrow> bool" where
  "is_enabled_for c lv \<longleftrightarrow> effective_level c \<le> level_no lv"

text \<open>The records of a run's log that reach the handlers, in order.\<close>

definition emitted :: "log_config \<Rightarrow> (level \<times> string) list \<Rightarrow> (level \<times> string) list" where
  "emitted c l = filter (\<lambda>e. is_enabled_for c (fst e)) l"

lemma level_no_mono [simp]: "level_no a \<le> level_no b \<longleftrightarrow> a \<le> b"
  by (simp add: less_eq_level_def)

lemma warning_le_iff [simp]: "WARNING \<le> lv \<longleftrightarrow> lv = WARNING"
  by (cases lv) (simp_all add: less_eq_level_def level_no_def)

lemma emitted_append [simp]: "emitted c (l1 @ l2) = emitted c l1 @ emitted c l2"
  by (simp add: emitted_def)

text \<open>
  C23. With the configuration of lines 10--17 the handlers receive exactly the
  warnings of the log: \<open>basicConfig\<close> is called without \<open>level\<close>, so the root keeps
  \<open>WARNING\<close>, the logger of line 22 inherits it, and every \<open>logger.info\<close> record (the
  \<open>Run parse\<close> and \<open>End parse\<close> messages of \<open>run_parse\<close>) is dropped.
\<close>

theorem log_setup_emits_warnings_only:
  "emitted log_setup l = filter (\<lambda>e. WARNING \<le> fst e) l"
  unfolding emitted_def is_enabled_for_def effective_level_def log_setup_def basic_config_def
    logging_default_def
  by (intro filter_cong) (simp_all add: level_no_def split: level.split)

end
