(* ===== verification/Category_Run.thy ===== *)
theory Category_Run
  imports Extract Logging
begin

text \<open>
  One \<open>asyncio.run(self._queue_parse_category(url))\<close> after its setup: the listing-page
  tasks of \<open>_parse_category\<close> (one per listing page), each crawling its products one at a
  time through \<open>_queue_parse_comments\<close>, whose review-page tasks \<open>_parse_comments\<close>
  append to the parser's one shared list \<open>self.comments\<close>.

  The event loop is cooperative: a task runs without interruption between two
  \<open>await\<close>s. Each scheduling choice below runs one task from one suspension point to the
  next one that has an effect on shared state, so a run of the loop is a sequence of
  choices (a schedule), and every interleaving the loop can produce is some schedule.
  The atomic segments are
  \<^item> a listing task fetching its page and reading the product anchors (lines 91--95);
  \<^item> a listing task starting its next product: fetching the product page, reading its
    page count and name, creating one review-page task per page (lines 97--98, 66--81),
    or logging a warning on a non-200 status (line 88);
  \<^item> a listing task resuming after \<open>gather\<close> of its product's page tasks, writing the
    shared buffer to the product's file when it is non-empty and clearing it
    (lines 82--86); it may resume only when none of its page tasks is left;
  \<^item> a review-page task fetching its page and appending every well-formed review of it to
    the shared buffer (lines 49--64), with no \<open>await\<close> inside the loop.
  An exception kills the task that raised it (a failing review-page task kills its
  product's listing task, whose \<open>gather\<close> re-raises) and is recorded in \<open>failure\<close>; the
  other tasks may still run until \<open>asyncio.run\<close> tears the loop down, which the model
  allows by not forcing any order on it.

  The field \<open>events\<close> is a history for the proofs (no Python variable holds it): which
  task appended which reviews, and which product wrote which file.
\<close>

datatype ltask =
    LFetch nat
  | LLoop "node list"
  | LGather url int string "node list"
  | LDead

record ptask =
  p_owner :: nat
  p_url :: url
  p_page :: nat

datatype event =
    Appended nat nat "review list"
  | Wrote nat path "review list"

record cstate =
  ltasks :: "ltask list"
  ptasks :: "ptask list"
  comments :: "review list"
  files :: "path \<Rightarrow> review list option"
  log :: "(level \<times> string) list"
  failure :: "pyerr option"
  events :: "event list"

datatype choice = RunListing nat | RunPage nat

subsection \<open>The atomic segments\<close>

definition fail_task :: "nat \<Rightarrow> pyerr \<Rightarrow> cstate \<Rightarrow> cstate" where
  "fail_task i e s =
     s\<lparr>ltasks := (ltasks s)[i := LDead],
       failure := (case failure s of None \<Rightarrow> Some e | Some e0 \<Rightarrow> Some e0)\<rparr>"

text \<open>\<open>_parse_category\<close>, lines 91--95: \<open>GET url?page=p\<close>, no status check.\<close>

definition fetch_listing :: "web \<Rightarrow> url \<Rightarrow> nat \<Rightarrow> nat \<Rightarrow> cstate \<Rightarrow> cstate" where
  "fetch_listing w cu i p s =
     (case http_get w cu (page_params p) of
        Inl e \<Rightarrow> fail_task i e s
      | Inr r \<Rightarrow> s\<lparr>ltasks := (ltasks s)[i := LLoop (product_links (body r))]\<rparr>)"

text \<open>\<open>_queue_parse_comments\<close> up to \<open>gather\<close>, lines 67--81 and 87--88.\<close>

definition page_tasks :: "nat \<Rightarrow> url \<Rightarrow> int \<Rightarrow> ptask list" where
  "page_tasks i u n = map (\<lambda>k. \<lparr>p_owner = i, p_url = u, p_page = k\<rparr>) (py_range1 n)"

definition start_product :: "web \<Rightarrow> nat \<Rightarrow> node \<Rightarrow> node list \<Rightarrow> cstate \<Rightarrow> cstate" where
  "start_product w i a hs s =
     (let u = product_url (href_str a) in
      case http_get w u show_params of
        Inl e \<Rightarrow> fail_task i e s
      | Inr r \<Rightarrow>
          if status r = 200 then
            (case product_page_count (body r) of
               Inl e \<Rightarrow> fail_task i e s
             | Inr n \<Rightarrow>
                 (case product_name (body r) of
                    Inl e \<Rightarrow> fail_task i e s
                  | Inr nm \<Rightarrow>
                      s\<lparr>ltasks := (ltasks s)[i := LGather u n nm hs],
                        ptasks := ptasks s @ page_tasks i u n\<rparr>))
          else s\<lparr>log := log s @ [(WARNING, ''Error parse '' @ u)], ltasks := (ltasks s)[i := LLoop hs]\<rparr>)"

text \<open>After \<open>gather\<close>, lines 83--86: \<open>json.dump(self.comments, ...)\<close>, then \<open>self.comments = []\<close>.\<close>

definition product_file :: "path \<Rightarrow> string \<Rightarrow> path" where
  "product_file pd nm = pd @ ''/'' @ nm @ ''.json''"

definition finish_product :: "path \<Rightarrow> nat \<Rightarrow> string \<Rightarrow> node list \<Rightarrow> cstate \<Rightarrow> cstate" where
  "finish_product pd i nm hs s =
     (if comments s \<noteq> [] then
        s\<lparr>files := (files s)(product_file pd nm \<mapsto> comments s),
          events := events s @ [Wrote i (product_file pd nm) (comments s)],
          comments := [], ltasks := (ltasks s)[i := LLoop hs]\<rparr>
      else s\<lparr>ltasks := (ltasks s)[i := LLoop hs]\<rparr>)"

text \<open>\<open>_parse_comments\<close>, lines 44--64: the review-page task at position \<open>j\<close> of the pool.\<close>

definition page_reviews :: "web \<Rightarrow> url \<Rightarrow> nat \<Rightarrow> pyerr + review list" where
  "page_reviews w u k =
     (let u' = page_url u k in
      sbind (http_get w u' show_params) (\<lambda>r. Inr (extract_reviews u' (body r))))"

definition run_page :: "web \<Rightarrow> nat \<Rightarrow> cstate \<Rightarrow> cstate" where
  "run_page w j s =
     (let pt = ptasks s ! j; s' = s\<lparr>ptasks := take j (ptasks s) @ drop (Suc j) (ptasks s)\<rparr> in
      case page_reviews w (p_url pt) (p_page pt) of
        Inl e \<Rightarrow> fail_task (p_owner pt) e s'
      | Inr rs \<Rightarrow>
          s'\<lparr>comments := comments s @ rs,
             events := events s @ [Appended (p_owner pt) (p_page pt) rs]\<rparr>)"

definition owns_pending :: "nat \<Rightarrow> cstate \<Rightarrow> bool" where
  "owns_pending i s = list_ex (\<lambda>pt. p_owner pt = i) (ptasks s)"

subsection \<open>One scheduling choice, and schedules\<close>

fun cat_step :: "web \<Rightarrow> url \<Rightarrow> path \<Rightarrow> cstate \<Rightarrow> choice \<Rightarrow> cstate option" where
  "cat_step w cu pd s (RunListing i) =
     (if i < length (ltasks s) then
        (case ltasks s ! i of
           LFetch p \<Rightarrow> Some (fetch_listing w cu i p s)
         | LLoop [] \<Rightarrow> None
         | LLoop (a # hs) \<Rightarrow> Some (start_product w i a hs s)
         | LGather u n nm hs \<Rightarrow> (if owns_pending i s then None else Some (finish_product pd i nm hs s))
         | LDead \<Rightarrow> None)
      else None)"
| "cat_step w cu pd s (RunPage j) = (if j < length (ptasks s) then Some (run_page w j s) else None)"

fun run_sched :: "web \<Rightarrow> url \<Rightarrow> path \<Rightarrow> cstate \<Rightarrow> choice list \<Rightarrow> cstate option" where
  "run_sched w cu pd s [] = Some s"
| "run_sched w cu pd s (c # cs) =
     (case cat_step w cu pd s c of None \<Rightarrow> None | Some s' \<Rightarrow> run_sched w cu pd s' cs)"

text \<open>
  The state right after \<open>_queue_parse_category\<close> created its \<open>count_page\<close> listing
  tasks (lines 110--113); \<open>cs\<close> is what \<open>self.comments\<close> holds at that moment.
\<close>

definition cat_init :: "int \<Rightarrow> review list \<Rightarrow> (path \<Rightarrow> review list option) \<Rightarrow> (level \<times> string) list \<Rightarrow> cstate" where
  "cat_init n cs fs lg =
     \<lparr>ltasks = map LFetch (py_range1 n), ptasks = [], comments = cs, files = fs, log = lg,
      failure = None, events = []\<rparr>"

text \<open>\<open>gather\<close> of all listing tasks returned normally: every task finished its loop.\<close>

definition cat_done :: "cstate \<Rightarrow> bool" where
  "cat_done s \<longleftrightarrow> failure s = None \<and> ptasks s = [] \<and> list_all (\<lambda>t. t = LLoop []) (ltasks s)"

inductive cat_reach :: "web \<Rightarrow> url \<Rightarrow> path \<Rightarrow> cstate \<Rightarrow> cstate \<Rightarrow> bool"
  for w :: web and cu :: url and pd :: path where
  refl: "cat_reach w cu pd s s"
| step: "cat_reach w cu pd s0 s \<Longrightarrow> cat_step w cu pd s c = Some s' \<Longrightarrow> cat_reach w cu pd s0 s'"

subsection \<open>Proof vocabulary: histories and invariants\<close>

fun appended_of :: "event list \<Rightarrow> review list" where
  "appended_of [] = []"
| "appended_of (Appended i k rs # es) = rs @ appended_of es"
| "appended_of (Wrote i p rs # es) = appended_of es"

fun written_of :: "event list \<Rightarrow> review list" where
  "written_of [] = []"
| "written_of (Appended i k rs # es) = written_of es"
| "written_of (Wrote i p rs # es) = rs @ written_of es"

definition conserved :: "review list \<Rightarrow> cstate \<Rightarrow> bool" where
  "conserved cs0 s \<longleftrightarrow> cs0 @ appended_of (events s) = written_of (events s) @ comments s"

fun is_gather :: "ltask \<Rightarrow> bool" where
  "is_gather (LGather u n nm hs) = True"
| "is_gather _ = False"

definition owners_gather :: "ltask list \<Rightarrow> ptask list \<Rightarrow> bool" where
  "owners_gather ts pts = list_all (\<lambda>pt. p_owner pt < length ts \<and> is_gather (ts ! p_owner pt)) pts"

definition gather_inv :: "cstate \<Rightarrow> bool" where
  "gather_inv s \<longleftrightarrow> failure s = None \<longrightarrow>
     owners_gather (ltasks s) (ptasks s) \<and> (comments s \<noteq> [] \<longrightarrow> list_ex is_gather (ltasks s))"

definition page_mset :: "web \<Rightarrow> url \<Rightarrow> nat \<Rightarrow> review multiset" where
  "page_mset w u k = (case page_reviews w u k of Inl e \<Rightarrow> {#} | Inr rs \<Rightarrow> mset rs)"

definition solo_inv :: "web \<Rightarrow> cstate \<Rightarrow> bool" where
  "solo_inv w s \<longleftrightarrow> length (ltasks s) = 1 \<and> list_all (\<lambda>pt. p_owner pt = 0) (ptasks s) \<and>
     (failure s = None \<longleftrightarrow> ltasks s ! 0 \<noteq> LDead) \<and>
     (case ltasks s ! 0 of
        LGather u n nm hs \<Rightarrow> list_all (\<lambda>pt. p_url pt = u) (ptasks s) \<and>
          mset (comments s) + (\<Sum>pt\<leftarrow>ptasks s. page_mset w u (p_page pt)) = (\<Sum>k\<leftarrow>py_range1 n. page_mset w u k)
      | LDead \<Rightarrow> True
      | _ \<Rightarrow> ptasks s = [] \<and> comments s = [])"

definition files_inv :: "(path \<Rightarrow> review list option) \<Rightarrow> cstate \<Rightarrow> bool" where
  "files_inv fs s \<longleftrightarrow>
     (\<forall>p. files s p = fs p \<or> (\<exists>i c. files s p = Some c \<and> c \<noteq> [] \<and> Wrote i p c \<in> set (events s)))"

text \<open>Names in flight and names of written files contain no \<open>/\<close> (\<open>replace('/', '_')\<close>, line 77).\<close>

definition names_inv :: "path \<Rightarrow> cstate \<Rightarrow> bool" where
  "names_inv pd s \<longleftrightarrow>
     (\<forall>t\<in>set (ltasks s). case t of LGather u n nm hs \<Rightarrow> CHR ''/'' \<notin> set nm | _ \<Rightarrow> True) \<and>
     (\<forall>e\<in>set (events s). case e of Wrote i p c \<Rightarrow> (\<exists>nm. p = product_file pd nm \<and> CHR ''/'' \<notin> set nm) | _ \<Rightarrow> True)"

subsection \<open>Lemmas\<close>

lemma appended_of_append [simp]: "appended_of (es @ fs) = appended_of es @ appended_of fs"
  by (induction es rule: appended_of.induct) auto

lemma written_of_append [simp]: "written_of (es @ fs) = written_of es @ written_of fs"
  by (induction es rule: written_of.induct) auto

lemma fail_task_frame [simp]:
  "comments (fail_task i e s) = comments s" "events (fail_task i e s) = events s"
  "ptasks (fail_task i e s) = ptasks s" "files (fail_task i e s) = files s"
  "log (fail_task i e s) = log s" "ltasks (fail_task i e s) = (ltasks s)[i := LDead]"
  by (simp_all add: fail_task_def)

lemma fail_task_failure: "failure (fail_task i e s) \<noteq> None"
  by (simp add: fail_task_def split: option.splits)

lemma fetch_listing_frame [simp]:
  "comments (fetch_listing w cu i p s) = comments s" "events (fetch_listing w cu i p s) = events s"
  "ptasks (fetch_listing w cu i p s) = ptasks s" "files (fetch_listing w cu i p s) = files s"
  by (simp_all add: fetch_listing_def split: sum.splits)

lemma start_product_frame [simp]:
  "comments (start_product w i a hs s) = comments s" "events (start_product w i a hs s) = events s"
  "files (start_product w i a hs s) = files s"
  by (simp_all add: start_product_def Let_def split: sum.splits)

lemma finish_product_buffer:
  "comments (finish_product pd i nm hs s) = []"
  "events (finish_product pd i nm hs s) =
     events s @ (if comments s = [] then [] else [Wrote i (product_file pd nm) (comments s)])"
  "files (finish_product pd i nm hs s) =
     (if comments s = [] then files s else (files s)(product_file pd nm \<mapsto> comments s))"
  "ptasks (finish_product pd i nm hs s) = ptasks s"
  by (simp_all add: finish_product_def)

lemma run_page_buffer:
  "page_reviews w (p_url (ptasks s ! j)) (p_page (ptasks s ! j)) = Inr rs \<Longrightarrow>
     comments (run_page w j s) = comments s @ rs \<and>
     events (run_page w j s) = events s @ [Appended (p_owner (ptasks s ! j)) (p_page (ptasks s ! j)) rs] \<and>
     files (run_page w j s) = files s"
  by (simp add: run_page_def Let_def)

lemma run_page_fail:
  "page_reviews w (p_url (ptasks s ! j)) (p_page (ptasks s ! j)) = Inl e \<Longrightarrow>
     comments (run_page w j s) = comments s \<and> events (run_page w j s) = events s \<and>
     files (run_page w j s) = files s \<and> failure (run_page w j s) \<noteq> None"
  by (simp add: run_page_def Let_def fail_task_def split: option.splits)

lemma cat_step_cases:
  assumes "cat_step w cu pd s c = Some s'"
  obtains (fetch) i p where "s' = fetch_listing w cu i p s"
      "i < length (ltasks s)" "ltasks s ! i = LFetch p" "c = RunListing i"
  | (start) i a hs where "s' = start_product w i a hs s"
      "i < length (ltasks s)" "ltasks s ! i = LLoop (a # hs)" "c = RunListing i"
  | (finish) i nm hs u n where "s' = finish_product pd i nm hs s"
      "i < length (ltasks s)" "ltasks s ! i = LGather u n nm hs" "\<not> owns_pending i s" "c = RunListing i"
  | (page) j where "j < length (ptasks s)" "s' = run_page w j s" "c = RunPage j"
  using assms
  by (cases c) (auto split: if_splits ltask.splits list.splits)

lemma cat_step_conserved:
  assumes "cat_step w cu pd s c = Some s'" and "conserved cs0 s"
  shows "conserved cs0 s'"
  using assms(1)
proof (cases rule: cat_step_cases)
  case (finish i nm hs)
  with assms(2) show ?thesis by (simp add: conserved_def finish_product_buffer)
next
  case (page j)
  show ?thesis
  proof (cases "page_reviews w (p_url (ptasks s ! j)) (p_page (ptasks s ! j))")
    case (Inl e)
    with page assms(2) show ?thesis by (simp add: conserved_def run_page_fail)
  next
    case (Inr rs)
    with page assms(2) show ?thesis by (simp add: conserved_def run_page_buffer)
  qed
qed (use assms(2) in \<open>simp_all add: conserved_def\<close>)

lemma cat_reach_conserved:
  "cat_reach w cu pd s0 s \<Longrightarrow> conserved cs0 s0 \<Longrightarrow> conserved cs0 s"
  by (induction rule: cat_reach.induct) (auto intro: cat_step_conserved)


lemma owners_gather_update_other:
  assumes a: "owners_gather ts pts" and b: "\<not> is_gather (ts ! i)"
  shows "owners_gather (ts[i := t]) pts"
  unfolding owners_gather_def list_all_iff
proof
  fix pt assume "pt \<in> set pts"
  with a have l: "p_owner pt < length ts" and g: "is_gather (ts ! p_owner pt)"
    by (auto simp: owners_gather_def list_all_iff)
  with b have "p_owner pt \<noteq> i" by auto
  with l g show "p_owner pt < length (ts[i := t]) \<and> is_gather (ts[i := t] ! p_owner pt)" by simp
qed

lemma owners_gather_update_free:
  assumes a: "owners_gather ts pts" and b: "\<not> list_ex (\<lambda>pt. p_owner pt = i) pts"
  shows "owners_gather (ts[i := t]) pts"
  unfolding owners_gather_def list_all_iff
proof
  fix pt assume pt: "pt \<in> set pts"
  with a have l: "p_owner pt < length ts" and g: "is_gather (ts ! p_owner pt)"
    by (auto simp: owners_gather_def list_all_iff)
  from b pt have "p_owner pt \<noteq> i" by (auto simp: list_ex_iff)
  with l g show "p_owner pt < length (ts[i := t]) \<and> is_gather (ts[i := t] ! p_owner pt)" by simp
qed

lemma owners_gather_sublist:
  "owners_gather ts pts \<Longrightarrow> set qts \<subseteq> set pts \<Longrightarrow> owners_gather ts qts"
  by (auto simp: owners_gather_def list_all_iff)

lemma list_ex_gather_update_other:
  assumes a: "list_ex is_gather ts" and b: "\<not> is_gather (ts ! i)"
  shows "list_ex is_gather (ts[i := t])"
proof -
  from a obtain k where k: "k < length ts" "is_gather (ts ! k)"
    by (auto simp: list_ex_iff in_set_conv_nth)
  with b have "k \<noteq> i" by auto
  from k have m: "ts[i := t] ! k \<in> set (ts[i := t])" by (intro nth_mem) simp
  from k \<open>k \<noteq> i\<close> have "is_gather (ts[i := t] ! k)" by simp
  with m show ?thesis by (auto simp: list_ex_iff)
qed

lemma list_ex_gather_update_new:
  assumes "i < length ts" and "is_gather t"
  shows "list_ex is_gather (ts[i := t])"
proof -
  from assms(1) have "t \<in> set (ts[i := t])" by (rule set_update_memI)
  with assms(2) show ?thesis by (auto simp: list_ex_iff)
qed

lemma gather_inv_fail [simp]: "gather_inv (fail_task i e s)"
  by (simp add: gather_inv_def fail_task_failure)


lemma owners_gather_append [simp]:
  "owners_gather ts (xs @ ys) \<longleftrightarrow> owners_gather ts xs \<and> owners_gather ts ys"
  by (simp add: owners_gather_def)

lemma owners_gather_page_tasks:
  "i < length ts \<Longrightarrow> is_gather (ts ! i) \<Longrightarrow> owners_gather ts (page_tasks i u n)"
  by (simp add: owners_gather_def page_tasks_def list_all_iff)

lemma fetch_listing_gather_inv:
  assumes "i < length (ltasks s)" "ltasks s ! i = LFetch p" "gather_inv s"
  shows "gather_inv (fetch_listing w cu i p s)"
proof (cases "http_get w cu (page_params p)")
  case (Inl e)
  then show ?thesis by (simp add: fetch_listing_def)
next
  case (Inr r)
  with assms show ?thesis
    by (simp add: fetch_listing_def gather_inv_def owners_gather_update_other list_ex_gather_update_other)
qed

lemma start_product_gather_inv:
  assumes i: "i < length (ltasks s)" and t: "ltasks s ! i = LLoop (a # hs)" and inv: "gather_inv s"
  shows "gather_inv (start_product w i a hs s)"
proof -
  let ?u = "product_url (href_str a)"
  have ng: "\<not> is_gather (ltasks s ! i)" using t by simp
  show ?thesis
  proof (cases "http_get w ?u show_params")
    case (Inl e)
    then show ?thesis by (simp add: start_product_def)
  next
    case (Inr r)
    show ?thesis
    proof (cases "status r = 200")
      case False
      with Inr inv ng show ?thesis
        by (simp add: start_product_def gather_inv_def owners_gather_update_other list_ex_gather_update_other)
    next
      case True
      show ?thesis
      proof (cases "product_page_count (body r)")
        case (Inl e)
        with Inr True show ?thesis by (simp add: start_product_def)
      next
        case (Inr n)
        show ?thesis
        proof (cases "product_name (body r)")
          case (Inl e)
          with \<open>http_get w ?u show_params = Inr r\<close> True Inr show ?thesis
            by (simp add: start_product_def)
        next
          case (Inr nm)
          let ?ts = "(ltasks s)[i := LGather ?u n nm hs]"
          have old: "failure s = None \<Longrightarrow> owners_gather ?ts (ptasks s)"
            using inv ng by (simp add: gather_inv_def owners_gather_update_other)
          have new: "owners_gather ?ts (page_tasks i ?u n)"
            using i by (simp add: owners_gather_page_tasks)
          have ex: "list_ex is_gather ?ts"
            using i by (simp add: list_ex_gather_update_new)
          from \<open>http_get w ?u show_params = Inr r\<close> True \<open>product_page_count (body r) = Inr n\<close> Inr old new ex
          show ?thesis by (simp add: start_product_def gather_inv_def Let_def)
        qed
      qed
    qed
  qed
qed

lemma finish_product_gather_inv:
  assumes "\<not> owns_pending i s" "gather_inv s"
  shows "gather_inv (finish_product pd i nm hs s)"
  using assms
  by (simp add: finish_product_def gather_inv_def owns_pending_def owners_gather_update_free)

lemma run_page_gather_inv:
  assumes j: "j < length (ptasks s)" and inv: "gather_inv s"
  shows "gather_inv (run_page w j s)"
proof (cases "page_reviews w (p_url (ptasks s ! j)) (p_page (ptasks s ! j))")
  case (Inl e)
  then show ?thesis by (simp add: run_page_def Let_def)
next
  case (Inr rs)
  let ?pts = "take j (ptasks s) @ drop (Suc j) (ptasks s)"
  have sub: "set ?pts \<subseteq> set (ptasks s)"
    by (metis le_supI set_drop_subset set_take_subset set_append)
  have "failure s = None \<Longrightarrow> list_ex is_gather (ltasks s)"
  proof -
    assume "failure s = None"
    with inv have "owners_gather (ltasks s) (ptasks s)" by (simp add: gather_inv_def)
    with j have "p_owner (ptasks s ! j) < length (ltasks s) \<and> is_gather (ltasks s ! p_owner (ptasks s ! j))"
      by (auto simp: owners_gather_def list_all_iff)
    then show "list_ex is_gather (ltasks s)" by (auto simp: list_ex_iff)
  qed
  with Inr inv sub show ?thesis
    by (auto simp: run_page_def Let_def gather_inv_def intro: owners_gather_sublist)
qed

lemma cat_step_gather_inv:
  assumes "cat_step w cu pd s c = Some s'" and "gather_inv s"
  shows "gather_inv s'"
proof (cases c)
  case (RunListing i)
  with assms show ?thesis
    by (auto split: if_splits ltask.splits list.splits
        intro: fetch_listing_gather_inv start_product_gather_inv finish_product_gather_inv)
next
  case (RunPage j)
  with assms show ?thesis by (auto split: if_splits intro: run_page_gather_inv)
qed

lemma cat_reach_gather_inv:
  "cat_reach w cu pd s0 s \<Longrightarrow> gather_inv s0 \<Longrightarrow> gather_inv s"
  by (induction rule: cat_reach.induct) (auto intro: cat_step_gather_inv)

lemma solo_inv_fail0:
  "length (ltasks s) = 1 \<Longrightarrow> list_all (\<lambda>pt. p_owner pt = 0) (ptasks s) \<Longrightarrow> solo_inv w (fail_task 0 e s)"
  by (simp add: solo_inv_def fail_task_def split: option.splits)

lemma fetch_listing_solo_inv:
  assumes t: "ltasks s ! 0 = LFetch p" and inv: "solo_inv w s"
  shows "solo_inv w (fetch_listing w cu 0 p s)"
proof (cases "http_get w cu (page_params p)")
  case (Inl e)
  from inv have "length (ltasks s) = 1" "list_all (\<lambda>pt. p_owner pt = 0) (ptasks s)"
    by (simp_all add: solo_inv_def)
  then have "solo_inv w (fail_task 0 e s)" by (rule solo_inv_fail0)
  with Inl show ?thesis by (simp add: fetch_listing_def)
next
  case (Inr r)
  with t inv show ?thesis by (simp add: fetch_listing_def solo_inv_def)
qed

lemma sum_page_tasks:
  "(\<Sum>pt\<leftarrow>page_tasks i u n. f (p_page pt)) = (\<Sum>k\<leftarrow>py_range1 n. (f k :: 'a multiset))"
  by (simp add: page_tasks_def comp_def)

lemma page_tasks_owner_url:
  "list_all (\<lambda>pt. p_owner pt = i) (page_tasks i u n)" "list_all (\<lambda>pt. p_url pt = u) (page_tasks i u n)"
  by (simp_all add: page_tasks_def list_all_iff)

lemma start_product_solo_inv:
  assumes t: "ltasks s ! 0 = LLoop (a # hs)" and inv: "solo_inv w s"
  shows "solo_inv w (start_product w 0 a hs s)"
proof -
  from inv have l: "length (ltasks s) = 1" and o: "list_all (\<lambda>pt. p_owner pt = 0) (ptasks s)"
    by (simp_all add: solo_inv_def)
  from inv t have e: "ptasks s = [] \<and> comments s = [] \<and> failure s = None"
    by (simp add: solo_inv_def)
  have f: "solo_inv w (fail_task 0 x s)" for x using l o by (rule solo_inv_fail0)
  let ?u = "product_url (href_str a)"
  show ?thesis
  proof (cases "http_get w ?u show_params")
    case (Inl x)
    with f show ?thesis by (simp add: start_product_def)
  next
    case (Inr r)
    show ?thesis
    proof (cases "status r = 200 \<and> (\<exists>n nm. product_page_count (body r) = Inr n \<and> product_name (body r) = Inr nm)")
      case True
      then obtain n nm where st: "status r = 200" and n: "product_page_count (body r) = Inr n"
        and nm: "product_name (body r) = Inr nm" by blast
      from Inr st n nm l e show ?thesis
        by (simp add: start_product_def solo_inv_def sum_page_tasks page_tasks_owner_url Let_def)
    next
      case False
      with Inr f l e show ?thesis
        by (auto simp: start_product_def solo_inv_def Let_def split: sum.splits)
    qed
  qed
qed

lemma finish_product_solo_inv:
  assumes t: "ltasks s ! 0 = LGather u n nm hs" and np: "\<not> owns_pending 0 s" and inv: "solo_inv w s"
  shows "solo_inv w (finish_product pd 0 nm hs s)"
proof -
  from inv np have "ptasks s = []"
    by (cases "ptasks s") (auto simp: solo_inv_def owns_pending_def)
  with inv t show ?thesis
    by (simp add: finish_product_def solo_inv_def)
qed

lemma sum_list_take_drop_nth:
  "j < length xs \<Longrightarrow>
     (\<Sum>x\<leftarrow>xs. f x) = f (xs ! j) + (\<Sum>x\<leftarrow>take j xs @ drop (Suc j) xs. (f x :: 'a multiset))"
  by (subst id_take_nth_drop [of j xs]) (simp_all add: add.left_commute)

lemma run_page_solo_inv:
  assumes j: "j < length (ptasks s)" and inv: "solo_inv w s"
  shows "solo_inv w (run_page w j s)"
proof -
  let ?pt = "ptasks s ! j"
  let ?rest = "take j (ptasks s) @ drop (Suc j) (ptasks s)"
  from inv have l: "length (ltasks s) = 1" and o: "list_all (\<lambda>pt. p_owner pt = 0) (ptasks s)"
    by (simp_all add: solo_inv_def)
  have sub: "set ?rest \<subseteq> set (ptasks s)"
    by (metis le_supI set_drop_subset set_take_subset set_append)
  with o have o': "list_all (\<lambda>pt. p_owner pt = 0) ?rest" by (auto simp: list_all_iff)
  from o j have own: "p_owner ?pt = 0" by (auto simp: list_all_iff)
  show ?thesis
  proof (cases "page_reviews w (p_url ?pt) (p_page ?pt)")
    case (Inl e)
    have "solo_inv w (fail_task 0 e (s\<lparr>ptasks := ?rest\<rparr>))"
      using l o' by (intro solo_inv_fail0) simp_all
    with Inl own show ?thesis by (simp add: run_page_def Let_def)
  next
    case (Inr rs)
    show ?thesis
    proof (cases "ltasks s ! 0")
      case (LGather u n nm hs)
      with inv have urls: "list_all (\<lambda>pt. p_url pt = u) (ptasks s)"
        and eq: "mset (comments s) + (\<Sum>pt\<leftarrow>ptasks s. page_mset w u (p_page pt)) =
                 (\<Sum>k\<leftarrow>py_range1 n. page_mset w u k)"
        by (simp_all add: solo_inv_def)
      from urls j have "p_url ?pt = u" by (auto simp: list_all_iff)
      with Inr have pm: "page_mset w u (p_page ?pt) = mset rs" by (simp add: page_mset_def)
      from urls sub have urls': "list_all (\<lambda>pt. p_url pt = u) ?rest" by (auto simp: list_all_iff)
      have "(\<Sum>pt\<leftarrow>ptasks s. page_mset w u (p_page pt)) =
              mset rs + (\<Sum>pt\<leftarrow>?rest. page_mset w u (p_page pt))"
        using sum_list_take_drop_nth [OF j, of "\<lambda>pt. page_mset w u (p_page pt)"] pm by simp
      with eq have "mset (comments s @ rs) + (\<Sum>pt\<leftarrow>?rest. page_mset w u (p_page pt)) =
                 (\<Sum>k\<leftarrow>py_range1 n. page_mset w u k)"
        by (simp add: add.assoc)
      with Inr LGather inv o' urls' show ?thesis
        by (simp add: run_page_def Let_def solo_inv_def)
    next
      case LDead
      with Inr inv o' show ?thesis by (simp add: run_page_def Let_def solo_inv_def)
    qed (use inv j in \<open>simp_all add: solo_inv_def\<close>)
  qed
qed

lemma cat_step_solo_inv:
  assumes "cat_step w cu pd s c = Some s'" and "solo_inv w s"
  shows "solo_inv w s'"
proof (cases c)
  case (RunListing i)
  from assms(2) have l: "length (ltasks s) = 1" by (simp add: solo_inv_def)
  with assms RunListing have i: "i = 0" by (auto split: if_splits)
  with assms RunListing show ?thesis
    by (auto split: if_splits ltask.splits list.splits
        intro: fetch_listing_solo_inv start_product_solo_inv finish_product_solo_inv)
next
  case (RunPage j)
  with assms show ?thesis by (auto split: if_splits intro: run_page_solo_inv)
qed

lemma cat_reach_solo_inv:
  "cat_reach w cu pd s0 s \<Longrightarrow> solo_inv w s0 \<Longrightarrow> solo_inv w s"
  by (induction rule: cat_reach.induct) (auto intro: cat_step_solo_inv)

lemma solo_inv_init: "solo_inv w (cat_init 1 [] fs lg)"
  by (simp add: solo_inv_def cat_init_def py_range1_def)

lemma cat_step_events_mono:
  assumes "cat_step w cu pd s c = Some s'"
  shows "set (events s) \<subseteq> set (events s')"
  using assms
proof (cases rule: cat_step_cases)
  case (finish i nm hs)
  then show ?thesis by (auto simp: finish_product_buffer)
next
  case (page j)
  then show ?thesis
    by (cases "page_reviews w (p_url (ptasks s ! j)) (p_page (ptasks s ! j))")
      (auto simp: run_page_fail run_page_buffer)
qed simp_all

lemma cat_step_files:
  assumes "cat_step w cu pd s c = Some s'"
  shows "files s' = files s \<or>
    (\<exists>i p. comments s \<noteq> [] \<and> files s' = (files s)(p \<mapsto> comments s) \<and> Wrote i p (comments s) \<in> set (events s'))"
  using assms
proof (cases rule: cat_step_cases)
  case (finish i nm hs)
  then show ?thesis by (auto simp: finish_product_buffer)
next
  case (page j)
  then show ?thesis
    by (cases "page_reviews w (p_url (ptasks s ! j)) (p_page (ptasks s ! j))")
      (auto simp: run_page_fail run_page_buffer)
qed simp_all

lemma cat_step_files_inv:
  assumes step: "cat_step w cu pd s c = Some s'" and inv: "files_inv fs s"
  shows "files_inv fs s'"
proof -
  have mono: "set (events s) \<subseteq> set (events s')" using step by (rule cat_step_events_mono)
  from step show ?thesis
  proof (rule disjE [OF cat_step_files])
    assume "files s' = files s"
    with inv mono show ?thesis by (fastforce simp: files_inv_def)
  next
    assume "\<exists>i p. comments s \<noteq> [] \<and> files s' = (files s)(p \<mapsto> comments s) \<and> Wrote i p (comments s) \<in> set (events s')"
    with inv mono show ?thesis by (fastforce simp: files_inv_def)
  qed
qed

lemma cat_reach_files_inv:
  "cat_reach w cu pd s0 s \<Longrightarrow> files_inv fs s0 \<Longrightarrow> files_inv fs s"
  by (induction rule: cat_reach.induct) (auto intro: cat_step_files_inv)

lemma cat_reach_step_front:
  "cat_reach w cu pd s1 s \<Longrightarrow> cat_step w cu pd s0 c = Some s1 \<Longrightarrow> cat_reach w cu pd s0 s"
  by (induction rule: cat_reach.induct) (auto intro: cat_reach.intros)

lemma run_sched_reach:
  "run_sched w cu pd s0 cs = Some s \<Longrightarrow> cat_reach w cu pd s0 s"
proof (induction cs arbitrary: s0)
  case Nil
  then show ?case by (auto intro: cat_reach.refl)
next
  case (Cons c cs)
  then obtain s1 where "cat_step w cu pd s0 c = Some s1" and "run_sched w cu pd s1 cs = Some s"
    by (auto split: option.splits)
  with Cons.IH show ?case by (blast intro: cat_reach_step_front)
qed

lemma run_sched_snoc:
  "run_sched w cu pd s0 (cs @ [c]) =
     (case run_sched w cu pd s0 cs of None \<Rightarrow> None | Some s \<Rightarrow> cat_step w cu pd s c)"
  by (induction cs arbitrary: s0) (auto split: option.splits)

lemma reach_run_sched:
  "cat_reach w cu pd s0 s \<Longrightarrow> \<exists>cs. run_sched w cu pd s0 cs = Some s"
proof (induction rule: cat_reach.induct)
  case (refl s)
  have "run_sched w cu pd s [] = Some s" by simp
  then show ?case by blast
next
  case (step s0 s c s')
  then obtain cs where "run_sched w cu pd s0 cs = Some s" by blast
  with step.hyps(2) have "run_sched w cu pd s0 (cs @ [c]) = Some s'" by (simp add: run_sched_snoc)
  then show ?case by blast
qed

lemma start_product_ok:
  assumes "http_get w (product_url (href_str a)) show_params = Inr r" "status r = 200"
    "product_page_count (body r) = Inr n" "product_name (body r) = Inr nm"
  shows "start_product w i a hs s =
    s\<lparr>ltasks := (ltasks s)[i := LGather (product_url (href_str a)) n nm hs],
      ptasks := ptasks s @ page_tasks i (product_url (href_str a)) n\<rparr>"
  using assms by (simp add: start_product_def Let_def)

lemma start_product_not_ok:
  assumes "http_get w (product_url (href_str a)) show_params = Inr r" "status r \<noteq> 200"
  shows "start_product w i a hs s =
    s\<lparr>log := log s @ [(WARNING, ''Error parse '' @ product_url (href_str a))], ltasks := (ltasks s)[i := LLoop hs]\<rparr>"
  using assms by (simp add: start_product_def Let_def)

lemma page_tasks_pages: "map p_page (page_tasks i u n) = py_range1 n"
  by (simp add: page_tasks_def comp_def)

lemma cat_done_comments:
  "cat_reach w cu pd (cat_init n [] fs lg) s \<Longrightarrow> cat_done s \<Longrightarrow> comments s = []"
proof -
  assume r: "cat_reach w cu pd (cat_init n [] fs lg) s" and d: "cat_done s"
  have "gather_inv (cat_init n [] fs lg)"
    by (simp add: gather_inv_def cat_init_def owners_gather_def)
  with r have "gather_inv s" by (rule cat_reach_gather_inv)
  moreover from d have "failure s = None" and "\<not> list_ex is_gather (ltasks s)"
    by (auto simp: cat_done_def list_all_iff list_ex_iff)
  ultimately show ?thesis by (auto simp: gather_inv_def)
qed


subsection \<open>Properties of a category run\<close>

text \<open>
  C1. In a category with one listing page (so one product is crawled at a time), when the
  listing task resumes after the \<open>gather\<close> of a product's review-page tasks, no task has
  failed, the shared buffer holds exactly the union (as a multiset, duplicates kept) of
  the reviews of the product's pages \<open>1..n\<close>, whatever order the page tasks completed in,
  and the product's file receives that buffer exactly when it is non-empty.
\<close>

theorem solo_product_file:
  assumes r: "cat_reach w cu pd (cat_init 1 [] fs lg) s"
    and t: "ltasks s ! 0 = LGather u n nm hs"
    and st: "cat_step w cu pd s (RunListing 0) = Some s'"
  shows "failure s = None \<and> mset (comments s) = (\<Sum>k\<leftarrow>py_range1 n. page_mset w u k) \<and>
         files s' = (if comments s = [] then files s else (files s)(product_file pd nm \<mapsto> comments s))"
proof -
  have "solo_inv w (cat_init 1 [] fs lg)" by (rule solo_inv_init)
  with r have inv: "solo_inv w s" by (rule cat_reach_solo_inv)
  from inv have l: "length (ltasks s) = 1" by (simp add: solo_inv_def)
  with st t have np: "\<not> owns_pending 0 s" and s': "s' = finish_product pd 0 nm hs s"
    by (auto split: if_splits)
  from inv np have "ptasks s = []"
    by (cases "ptasks s") (auto simp: solo_inv_def owns_pending_def)
  with inv t have "failure s = None \<and> mset (comments s) = (\<Sum>k\<leftarrow>py_range1 n. page_mset w u k)"
    by (simp add: solo_inv_def)
  with s' show ?thesis by (simp add: finish_product_buffer)
qed

text \<open>
  C3. Conservation of reviews through the shared buffer, in every interleaving of any
  number of listing tasks: the buffer's initial content followed by every review ever
  appended by a review-page task is, in order, every review ever written to a file
  followed by what the buffer still holds. No review is lost or duplicated on its way
  to disk; which file it lands in is another matter (C2).
\<close>

theorem cat_buffer_conservation:
  assumes "cat_reach w cu pd (cat_init n cs fs lg) s"
  shows "cs @ appended_of (events s) = written_of (events s) @ comments s"
proof -
  have "conserved cs (cat_init n cs fs lg)" by (simp add: conserved_def cat_init_def)
  with assms have "conserved cs s" by (rule cat_reach_conserved)
  then show ?thesis by (simp add: conserved_def)
qed

text \<open>
  C4. A file is only ever written with a non-empty list of reviews: in every reachable
  state each path still holds what it held when the category started, or holds a
  non-empty list that some product's write put there.
\<close>

theorem cat_files_written_nonempty:
  assumes "cat_reach w cu pd (cat_init n cs fs lg) s"
  shows "files s p = fs p \<or> (\<exists>i c. files s p = Some c \<and> c \<noteq> [] \<and> Wrote i p c \<in> set (events s))"
proof -
  have "files_inv fs (cat_init n cs fs lg)" by (simp add: files_inv_def cat_init_def)
  with assms have "files_inv fs s" by (rule cat_reach_files_inv)
  then show ?thesis by (simp add: files_inv_def)
qed

text \<open>
  C6. A product page answered with status 200, a readable page count \<open>n\<close> and a name
  makes its listing task wait on exactly one new review-page task per page number
  \<open>1..n\<close> (none when \<open>n \<le> 0\<close>), each for the product's URL and owned by that
  listing task.
\<close>

theorem start_product_spawns_pages:
  assumes "http_get w (product_url (href_str a)) show_params = Inr r" "status r = 200"
    "product_page_count (body r) = Inr n" "product_name (body r) = Inr nm"
  shows "\<exists>new. ptasks (start_product w i a hs s) = ptasks s @ new \<and> map p_page new = py_range1 n \<and>
    list_all (\<lambda>pt. p_owner pt = i \<and> p_url pt = product_url (href_str a)) new \<and>
    ltasks (start_product w i a hs s) = (ltasks s)[i := LGather (product_url (href_str a)) n nm hs]"
proof -
  have "list_all (\<lambda>pt. p_owner pt = i \<and> p_url pt = product_url (href_str a))
          (page_tasks i (product_url (href_str a)) n)"
    by (simp add: page_tasks_def list_all_iff)
  with assms show ?thesis
    by (simp add: start_product_ok page_tasks_pages)
qed

text \<open>
  C7. A product page answered with a status other than 200 is skipped: a warning
  \<open>Error parse <url>\<close> is logged, the listing task goes on with its next product, no
  review-page task is created and no file, buffer or failure changes.
\<close>

theorem start_product_skip_non200:
  assumes "http_get w (product_url (href_str a)) show_params = Inr r" "status r \<noteq> 200"
  shows "log (start_product w i a hs s) = log s @ [(WARNING, ''Error parse '' @ product_url (href_str a))] \<and>
    ltasks (start_product w i a hs s) = (ltasks s)[i := LLoop hs] \<and>
    ptasks (start_product w i a hs s) = ptasks s \<and> comments (start_product w i a hs s) = comments s \<and>
    files (start_product w i a hs s) = files s \<and> failure (start_product w i a hs s) = failure s"
  using assms by (simp add: start_product_not_ok)


lemma cat_step_failure_mono:
  assumes "cat_step w cu pd s c = Some s'" and "failure s \<noteq> None"
  shows "failure s' \<noteq> None"
  using assms(1)
proof (cases rule: cat_step_cases)
  case (fetch i p)
  with assms(2) show ?thesis
    by (simp add: fetch_listing_def fail_task_def split: sum.splits option.splits)
next
  case (start i a hs)
  with assms(2) show ?thesis
    by (simp add: start_product_def fail_task_def Let_def split: sum.splits option.splits)
next
  case (finish i nm hs)
  with assms(2) show ?thesis by (simp add: finish_product_def)
next
  case (page j)
  with assms(2) show ?thesis
    by (simp add: run_page_def fail_task_def Let_def split: sum.splits option.splits)
qed

lemma cat_reach_failure_mono:
  "cat_reach w cu pd s0 s \<Longrightarrow> failure s0 \<noteq> None \<Longrightarrow> failure s \<noteq> None"
  by (induction rule: cat_reach.induct) (auto dest: cat_step_failure_mono)

text \<open>
  C18. A review page whose fetch raises (a transport error of \<open>session.get\<close> in
  \<open>_parse_comments\<close>, which nothing catches) records the exception, and from then on
  no interleaving of the remaining tasks ends the category normally: the exception
  escapes \<open>gather\<close> and \<open>asyncio.run\<close>.
\<close>

theorem page_error_aborts_category:
  assumes "j < length (ptasks s)"
    and "page_reviews w (p_url (ptasks s ! j)) (p_page (ptasks s ! j)) = Inl e"
    and "cat_reach w cu pd (run_page w j s) t"
  shows "\<not> cat_done t"
proof -
  from assms(2) have "failure (run_page w j s) \<noteq> None" by (simp add: run_page_fail)
  with assms(3) have "failure t \<noteq> None" by (rule cat_reach_failure_mono)
  then show ?thesis by (simp add: cat_done_def)
qed

text \<open>
  C19. A review page is used whatever its HTTP status: \<open>_parse_comments\<close> never reads
  \<open>response.status\<close>, so the reviews extracted from any answered page (an error page
  included) are appended to the buffer, and no warning is logged.
\<close>

theorem review_page_status_ignored:
  assumes "w (mk_request (page_url (p_url (ptasks s ! j)) (p_page (ptasks s ! j))) show_params) = Some r"
  shows "comments (run_page w j s) =
           comments s @ extract_reviews (page_url (p_url (ptasks s ! j)) (p_page (ptasks s ! j))) (body r) \<and>
         log (run_page w j s) = log s \<and> failure (run_page w j s) = failure s"
  using assms by (simp add: run_page_def page_reviews_def http_get_def Let_def)


lemma product_name_no_slash: "product_name doc = Inr nm \<Longrightarrow> CHR ''/'' \<notin> set nm"
  by (cases "bs_find_req ''h1'' (Some ''catalogItemDetailHd'') doc") (auto simp: product_name_def py_replace_char_def)

lemma names_inv_ltasks_update:
  assumes "names_inv pd s" and "case t of LGather u n nm hs \<Rightarrow> CHR ''/'' \<notin> set nm | _ \<Rightarrow> True"
    and "events s' = events s" and "ltasks s' = (ltasks s)[i := t]"
  shows "names_inv pd s'"
  using assms set_update_subset_insert [of "ltasks s" i t] unfolding names_inv_def by auto

lemma names_inv_set_loop:
  "names_inv pd s \<Longrightarrow> events s' = events s \<Longrightarrow> ltasks s' = (ltasks s)[i := LLoop hs] \<Longrightarrow> names_inv pd s'"
  by (rule names_inv_ltasks_update) simp_all

lemma names_inv_set_gather:
  "names_inv pd s \<Longrightarrow> CHR ''/'' \<notin> set nm \<Longrightarrow> events s' = events s \<Longrightarrow>
     ltasks s' = (ltasks s)[i := LGather u n nm hs] \<Longrightarrow> names_inv pd s'"
  by (rule names_inv_ltasks_update) simp_all

lemma names_inv_fail: "names_inv pd s \<Longrightarrow> names_inv pd (fail_task i e s)"
  by (rule names_inv_ltasks_update [of pd s LDead]) (simp_all add: fail_task_def)

lemma cat_step_names_inv:
  assumes step: "cat_step w cu pd s c = Some s'" and inv: "names_inv pd s"
  shows "names_inv pd s'"
  using step
proof (cases rule: cat_step_cases)
  case (fetch i p)
  have "names_inv pd (fail_task i e s)" for e
    using inv by (rule names_inv_fail)
  with fetch inv show ?thesis
    by (auto simp: fetch_listing_def split: sum.splits intro: names_inv_set_loop)
next
  case (start i a hs)
  let ?u = "product_url (href_str a)"
  have f: "names_inv pd (fail_task i e s)" for e using inv by (rule names_inv_fail)
  show ?thesis
  proof (cases "http_get w ?u show_params")
    case (Inl e)
    with start f show ?thesis by (simp add: start_product_def)
  next
    case (Inr r)
    show ?thesis
    proof (cases "status r = 200")
      case False
      with Inr start inv show ?thesis
        by (simp add: start_product_def Let_def) (rule names_inv_set_loop [of pd s], simp_all)
    next
      case True
      show ?thesis
      proof (cases "product_page_count (body r)")
        case (Inl e)
        with True Inr start f show ?thesis by (simp add: start_product_def)
      next
        case (Inr n)
        show ?thesis
        proof (cases "product_name (body r)")
          case (Inl e)
          with True Inr \<open>http_get w ?u show_params = Inr r\<close> start f show ?thesis
            by (simp add: start_product_def)
        next
          case nm: (Inr nm)
          then have "CHR ''/'' \<notin> set nm" by (rule product_name_no_slash)
          with nm True Inr \<open>http_get w ?u show_params = Inr r\<close> start inv show ?thesis
            by (simp add: start_product_def Let_def) (rule names_inv_set_gather [of pd s], simp_all)
        qed
      qed
    qed
  qed
next
  case (finish i nm hs u n)
  from finish(2,3) have "LGather u n nm hs \<in> set (ltasks s)" by (metis nth_mem)
  with inv have nm: "CHR ''/'' \<notin> set nm" unfolding names_inv_def by fastforce
  from inv nm have "names_inv pd (s\<lparr>ltasks := (ltasks s)[i := LLoop hs],
      events := events s @ (if comments s = [] then [] else [Wrote i (product_file pd nm) (comments s)])\<rparr>)"
    using set_update_subset_insert [of "ltasks s" i "LLoop hs"] unfolding names_inv_def by auto
  with finish(1) show ?thesis
    by (simp add: names_inv_def finish_product_def)
next
  case (page j)
  have "names_inv pd (fail_task i e s')" if "names_inv pd s'" for i e s'
    using that by (rule names_inv_fail)
  with page inv show ?thesis
    by (auto simp: run_page_def Let_def names_inv_def split: sum.splits)
qed

lemma cat_reach_names_inv:
  "cat_reach w cu pd s0 s \<Longrightarrow> names_inv pd s0 \<Longrightarrow> names_inv pd s"
  by (induction rule: cat_reach.induct) (auto intro: cat_step_names_inv)

lemma cat_written_file:
  assumes "cat_reach w cu pd (cat_init n cs fs lg) t" and "files t p \<noteq> fs p"
  shows "\<exists>nm. p = product_file pd nm \<and> CHR ''/'' \<notin> set nm"
proof -
  have "files_inv fs (cat_init n cs fs lg)" by (simp add: files_inv_def cat_init_def)
  with assms(1) have "files_inv fs t" by (rule cat_reach_files_inv)
  with assms(2) obtain i c where "Wrote i p c \<in> set (events t)" by (auto simp: files_inv_def)
  moreover have "names_inv pd (cat_init n cs fs lg)"
    by (auto simp: names_inv_def cat_init_def)
  with assms(1) have "names_inv pd t" by (rule cat_reach_names_inv)
  ultimately show ?thesis unfolding names_inv_def by fastforce
qed

text \<open>
  C20. A category run writes only files \<open><dir>/<name>.json\<close> directly inside its
  category directory: \<open>_queue_parse_comments\<close> replaces every \<open>/\<close> of the product
  title by \<open>_\<close> (line 77), so no product name reaches a subdirectory or another
  category's directory. Every path whose content differs from the initial file system
  is such a file.
\<close>

theorem cat_writes_confined:
  assumes "cat_reach w cu pd (cat_init n cs fs lg) t" and "files t p \<noteq> fs p"
  shows "\<exists>nm. p = product_file pd nm \<and> CHR ''/'' \<notin> set nm"
  using assms by (rule cat_written_file)

end
