(* ===== verification/Category_Liveness.thy ===== *)
theory Category_Liveness
  imports Category_Run
begin

text \<open>
  Termination and progress of one category run (\<open>Category_Run\<close>). The work a state
  still has to do is computed from the site: a product not yet started costs two steps
  plus one review-page task per page its page count announces, a listing page not yet
  fetched one step plus its products, a pending \<open>gather\<close> one step, a review-page
  task one step. Every step of the event loop decreases it, and while no exception has
  been raised some step is always enabled until every listing task has finished.
\<close>

definition prod_work :: "web \<Rightarrow> node \<Rightarrow> nat" where
  "prod_work w a =
     (case http_get w (product_url (href_str a)) show_params of
        Inl e \<Rightarrow> 0
      | Inr r \<Rightarrow>
          if status r = 200 then
            (case product_page_count (body r) of
               Inl e \<Rightarrow> 0
             | Inr n \<Rightarrow> (case product_name (body r) of Inl e \<Rightarrow> 0 | Inr nm \<Rightarrow> nat n))
          else 0)"

definition loop_work :: "web \<Rightarrow> node list \<Rightarrow> nat" where
  "loop_work w hs = (\<Sum>a\<leftarrow>hs. 2 + prod_work w a)"

fun ltask_work :: "web \<Rightarrow> url \<Rightarrow> ltask \<Rightarrow> nat" where
  "ltask_work w cu (LFetch p) =
     1 + (case http_get w cu (page_params p) of Inl e \<Rightarrow> 0 | Inr r \<Rightarrow> loop_work w (product_links (body r)))"
| "ltask_work w cu (LLoop hs) = loop_work w hs"
| "ltask_work w cu (LGather u n nm hs) = 1 + loop_work w hs"
| "ltask_work w cu LDead = 0"

definition cat_measure :: "web \<Rightarrow> url \<Rightarrow> cstate \<Rightarrow> nat" where
  "cat_measure w cu s = (\<Sum>t\<leftarrow>ltasks s. ltask_work w cu t) + length (ptasks s)"

definition alive_inv :: "cstate \<Rightarrow> bool" where
  "alive_inv s \<longleftrightarrow> failure s = None \<longrightarrow> list_all (\<lambda>t. t \<noteq> LDead) (ltasks s)"

subsection \<open>Lemmas\<close>

lemma sum_list_update_nat:
  "i < length ts \<Longrightarrow> (\<Sum>t\<leftarrow>ts[i := x]. f t) + f (ts ! i) = (\<Sum>t\<leftarrow>ts. f t) + (f x :: nat)"
  by (induction ts arbitrary: i) (auto split: nat.splits)

lemma sum_list_update_less:
  assumes "i < length ts" "f x < f (ts ! i)"
  shows "(\<Sum>t\<leftarrow>ts[i := x]. f t) < (\<Sum>t\<leftarrow>ts. (f t :: nat))"
  using sum_list_update_nat [OF assms(1), of f x] assms(2) by arith

lemma sum_list_update_le:
  assumes "f x \<le> f (ts ! i)"
  shows "(\<Sum>t\<leftarrow>ts[i := x]. f t) \<le> (\<Sum>t\<leftarrow>ts. (f t :: nat))"
proof (cases "i < length ts")
  case True
  with sum_list_update_nat [OF True, of f x] assms show ?thesis by arith
next
  case False
  then show ?thesis by (simp add: list_update_beyond)
qed

lemma fail_task_measure_le: "cat_measure w cu (fail_task i e s) \<le> cat_measure w cu s"
  by (simp add: cat_measure_def sum_list_update_le)

lemma fail_task_measure_less:
  "i < length (ltasks s) \<Longrightarrow> 0 < ltask_work w cu (ltasks s ! i) \<Longrightarrow>
     cat_measure w cu (fail_task i e s) < cat_measure w cu s"
  by (simp add: cat_measure_def sum_list_update_less)

lemma fetch_listing_measure:
  assumes "i < length (ltasks s)" "ltasks s ! i = LFetch p"
  shows "cat_measure w cu (fetch_listing w cu i p s) < cat_measure w cu s"
proof (cases "http_get w cu (page_params p)")
  case (Inl e)
  with assms show ?thesis by (simp add: fetch_listing_def fail_task_measure_less)
next
  case (Inr r)
  with assms show ?thesis by (simp add: fetch_listing_def cat_measure_def sum_list_update_less)
qed

lemma start_product_measure:
  assumes i: "i < length (ltasks s)" and t: "ltasks s ! i = LLoop (a # hs)"
  shows "cat_measure w cu (start_product w i a hs s) < cat_measure w cu s"
proof -
  let ?u = "product_url (href_str a)"
  have pos: "0 < ltask_work w cu (ltasks s ! i)" using t by (simp add: loop_work_def)
  have f: "cat_measure w cu (fail_task i e s) < cat_measure w cu s" for e
    using i pos by (rule fail_task_measure_less)
  show ?thesis
  proof (cases "http_get w ?u show_params")
    case (Inl e)
    with f show ?thesis by (simp add: start_product_def)
  next
    case (Inr r)
    show ?thesis
    proof (cases "status r = 200 \<and> (\<exists>n nm. product_page_count (body r) = Inr n \<and> product_name (body r) = Inr nm)")
      case True
      then obtain n nm where st: "status r = 200" and n: "product_page_count (body r) = Inr n"
        and nm: "product_name (body r) = Inr nm" by blast
      have pw: "prod_work w a = nat n" using Inr st n nm by (simp add: prod_work_def)
      have "(\<Sum>t\<leftarrow>(ltasks s)[i := LGather ?u n nm hs]. ltask_work w cu t) + (2 + nat n + loop_work w hs)
              = (\<Sum>t\<leftarrow>ltasks s. ltask_work w cu t) + (1 + loop_work w hs)"
        using sum_list_update_nat [OF i, of "ltask_work w cu" "LGather ?u n nm hs"] t pw
        by (simp add: loop_work_def)
      then show ?thesis
        using Inr st n nm by (simp add: start_product_def cat_measure_def page_tasks_def Let_def)
    next
      case False
      show ?thesis
      proof (cases "status r = 200")
        case True
        with False Inr f show ?thesis by (auto simp: start_product_def Let_def split: sum.splits)
      next
        case st: False
        have "ltask_work w cu (LLoop hs) < ltask_work w cu (ltasks s ! i)"
          using t by (simp add: loop_work_def)
        with Inr st i show ?thesis
          by (simp add: start_product_def cat_measure_def sum_list_update_less Let_def)
      qed
    qed
  qed
qed

lemma finish_product_measure:
  assumes "i < length (ltasks s)" "ltasks s ! i = LGather u n nm hs"
  shows "cat_measure w cu (finish_product pd i nm hs s) < cat_measure w cu s"
  using assms by (simp add: finish_product_def cat_measure_def sum_list_update_less)

lemma run_page_measure:
  assumes "j < length (ptasks s)"
  shows "cat_measure w cu (run_page w j s) < cat_measure w cu s"
proof -
  let ?s' = "s\<lparr>ptasks := take j (ptasks s) @ drop (Suc j) (ptasks s)\<rparr>"
  have lt: "cat_measure w cu ?s' < cat_measure w cu s"
    using assms by (simp add: cat_measure_def)
  show ?thesis
  proof (cases "page_reviews w (p_url (ptasks s ! j)) (p_page (ptasks s ! j))")
    case (Inl e)
    have "cat_measure w cu (fail_task (p_owner (ptasks s ! j)) e ?s') \<le> cat_measure w cu ?s'"
      by (rule fail_task_measure_le)
    with Inl lt show ?thesis by (simp add: run_page_def Let_def)
  next
    case (Inr rs)
    with lt show ?thesis by (simp add: run_page_def Let_def cat_measure_def)
  qed
qed

lemma cat_step_measure:
  assumes "cat_step w cu pd s c = Some s'"
  shows "cat_measure w cu s' < cat_measure w cu s"
proof (cases c)
  case (RunListing i)
  with assms show ?thesis
    by (auto split: if_splits ltask.splits list.splits
        intro: fetch_listing_measure start_product_measure finish_product_measure)
next
  case (RunPage j)
  with assms show ?thesis by (auto split: if_splits intro: run_page_measure)
qed

text \<open>
  C16. Every scheduling choice that runs strictly decreases \<open>cat_measure\<close>, the work
  left as the site determines it (two units per product still to start plus its page
  count, one per listing fetch and per pending \<open>gather\<close>, one per review-page task),
  so no schedule of a category run is longer than the measure of its start: the
  concurrent crawl of a category always ends.
\<close>

theorem cat_schedule_bounded:
  "run_sched w cu pd s sch = Some t \<Longrightarrow> length sch + cat_measure w cu t \<le> cat_measure w cu s"
proof (induction sch arbitrary: s)
  case Nil
  then show ?case by simp
next
  case (Cons c sch)
  then obtain s' where st: "cat_step w cu pd s c = Some s'" and r: "run_sched w cu pd s' sch = Some t"
    by (auto split: option.splits)
  from Cons.IH [OF r] cat_step_measure [OF st] show ?case by simp
qed

lemma list_all_update_keep:
  "list_all P ts \<Longrightarrow> P x \<Longrightarrow> list_all P (ts[i := x])"
  by (simp add: list_all_iff) (blast dest: set_update_subset_insert [THEN subsetD])

lemma cat_step_alive_inv:
  assumes "cat_step w cu pd s c = Some s'" and "alive_inv s"
  shows "alive_inv s'"
  using assms(1)
proof (cases rule: cat_step_cases)
  case (fetch i p)
  with assms(2) show ?thesis
    by (auto simp: fetch_listing_def alive_inv_def fail_task_failure list_all_update_keep split: sum.splits)
next
  case (start i a hs)
  with assms(2) show ?thesis
    by (auto simp: start_product_def alive_inv_def fail_task_failure list_all_update_keep Let_def
        split: sum.splits)
next
  case (finish i nm hs)
  with assms(2) show ?thesis
    by (auto simp: finish_product_def alive_inv_def list_all_update_keep)
next
  case (page j)
  with assms(2) show ?thesis
    by (auto simp: run_page_def alive_inv_def fail_task_failure Let_def split: sum.splits)
qed

lemma cat_reach_alive_inv:
  "cat_reach w cu pd s0 s \<Longrightarrow> alive_inv s0 \<Longrightarrow> alive_inv s"
  by (induction rule: cat_reach.induct) (auto intro: cat_step_alive_inv)

lemma cat_step_progress:
  assumes "alive_inv s" "failure s = None" "\<not> cat_done s"
  shows "\<exists>c s'. cat_step w cu pd s c = Some s'"
proof (cases "ptasks s")
  case (Cons pt pts)
  then have "cat_step w cu pd s (RunPage 0) = Some (run_page w 0 s)" by simp
  then show ?thesis by blast
next
  case Nil
  with assms(2,3) obtain i where i: "i < length (ltasks s)" and ni: "ltasks s ! i \<noteq> LLoop []"
    by (auto simp: cat_done_def list_all_iff in_set_conv_nth)
  from assms(1,2) i have nd: "ltasks s ! i \<noteq> LDead"
    by (auto simp: alive_inv_def list_all_iff)
  have np: "\<not> owns_pending i s" using Nil by (simp add: owns_pending_def)
  from i ni nd np have "cat_step w cu pd s (RunListing i) \<noteq> None"
    by (cases "ltasks s ! i") (auto split: list.splits)
  then show ?thesis by blast
qed

lemma cat_reach_trans:
  "cat_reach w cu pd s1 s2 \<Longrightarrow> cat_reach w cu pd s0 s1 \<Longrightarrow> cat_reach w cu pd s0 s2"
  by (induction rule: cat_reach.induct) (auto intro: cat_reach.step)

lemma cat_run_completes:
  assumes "cat_reach w cu pd (cat_init n cs fs lg) s"
  shows "\<exists>sch t. run_sched w cu pd s sch = Some t \<and> (cat_done t \<or> failure t \<noteq> None)"
  using assms
proof (induction "cat_measure w cu s" arbitrary: s rule: less_induct)
  case less
  show ?case
  proof (cases "cat_done s \<or> failure s \<noteq> None")
    case True
    then have "run_sched w cu pd s [] = Some s \<and> (cat_done s \<or> failure s \<noteq> None)" by simp
    then show ?thesis by blast
  next
    case False
    have "alive_inv (cat_init n cs fs lg)" by (simp add: alive_inv_def cat_init_def list_all_iff)
    with less.prems have "alive_inv s" by (rule cat_reach_alive_inv)
    with False obtain c s' where st: "cat_step w cu pd s c = Some s'"
      using cat_step_progress by blast
    have r': "cat_reach w cu pd (cat_init n cs fs lg) s'"
      using less.prems st by (rule cat_reach.step)
    from cat_step_measure [OF st] r' less.hyps obtain sch t
      where "run_sched w cu pd s' sch = Some t \<and> (cat_done t \<or> failure t \<noteq> None)" by blast
    with st have "run_sched w cu pd s (c # sch) = Some t \<and> (cat_done t \<or> failure t \<noteq> None)" by simp
    then show ?thesis by blast
  qed
qed

text \<open>
  C17. From every reachable state of a category run there is a schedule that ends
  either with every listing task finished normally or with an exception recorded: no
  reachable state is stuck (a task can always run), so together with C16 every maximal
  interleaving completes or fails.
\<close>

theorem cat_run_terminates:
  assumes "cat_reach w cu pd (cat_init n cs fs lg) s"
  shows "\<exists>sch t. run_sched w cu pd s sch = Some t \<and> (cat_done t \<or> failure t \<noteq> None)"
  using assms by (rule cat_run_completes)

end
