(* ===== verification/Os_Path.thy ===== *)
theory Os_Path
  imports Py_Builtins
begin

text \<open>
  The part of Python's \<open>os\<close> module that line 109 relies on: \<open>os.makedirs(path_dir)\<close>
  with CPython's recursion over \<open>posixpath.split\<close>, and the kernel's \<open>mkdir\<close>. The
  file system is the set of the directories that exist, each named by its path
  relative to the working directory after resolution, a list of components
  (\<open>fs_path\<close>); the working directory and its ancestors (\<open>..\<close>, \<open>../..\<close>, ...) always
  exist. A path string is resolved component by component, as the kernel does: every
  component but the last must be an existing directory, \<open>''\<close> and \<open>.\<close> stay, \<open>..\<close> goes
  up. Symbolic links, permissions and regular files are not part of this state.
  The lemmas show that \<open>makedirs\<close> keeps the set well formed and only adds to it, that an
  existing path makes it raise \<open>FileExistsError\<close> unchanged, what it creates on a plain
  path and on a path through \<open>..\<close>, and that on any non-empty name it raises at most
  \<open>FileExistsError\<close> and leaves the name existing.
\<close>

type_synonym fs_path = "string list"

subsection \<open>Strings and paths\<close>

text \<open>\<open>p.split('/')\<close>.\<close>

fun split_slash :: "string \<Rightarrow> string list" where
  "split_slash [] = [[]]"
| "split_slash (c # cs) =
     (if c = CHR ''/'' then [] # split_slash cs
      else (case split_slash cs of [] \<Rightarrow> [[c]] | d # ds \<Rightarrow> (c # d) # ds))"

text \<open>\<open>posixpath.split(p)\<close>: the part after the last \<open>/\<close>, and the part before it with
  its trailing slashes removed unless it consists of slashes only.\<close>

definition path_split :: "string \<Rightarrow> string \<times> string" where
  "path_split p =
     (let tail = rev (takeWhile (\<lambda>c. c \<noteq> CHR ''/'') (rev p));
          head = take (length p - length tail) p
      in (if head \<noteq> [] \<and> \<not> list_all (\<lambda>c. c = CHR ''/'') head
          then rev (dropWhile (\<lambda>c. c = CHR ''/'') (rev head)) else head, tail))"

text \<open>The first two lines of \<open>os.makedirs\<close>: split, and split again when the tail is
  empty (a name ending in \<open>/\<close>).\<close>

definition split_name :: "string \<Rightarrow> string \<times> string" where
  "split_name name = (let (h, t) = path_split name in if t = [] then path_split h else (h, t))"

subsection \<open>Resolution\<close>

definition is_dir :: "fs_path set \<Rightarrow> fs_path \<Rightarrow> bool" where
  "is_dir D q \<longleftrightarrow> q \<in> D \<or> list_all (\<lambda>c. c = ''..'') q"

definition step_comp :: "fs_path \<Rightarrow> string \<Rightarrow> fs_path" where
  "step_comp q c =
     (if c = [] \<or> c = ''.'' then q
      else if c = ''..'' then (if list_all (\<lambda>c. c = ''..'') q then q @ [''..''] else butlast q)
      else q @ [c])"

text \<open>Walking the components of a path from the directory \<open>q\<close>: each component is
  looked up in a directory that must exist (\<open>ENOENT\<close> otherwise, \<open>None\<close> here).\<close>

fun walk :: "fs_path set \<Rightarrow> fs_path \<Rightarrow> string list \<Rightarrow> fs_path option" where
  "walk D q [] = Some q"
| "walk D q (c # cs) = (if is_dir D q then walk D (step_comp q c) cs else None)"

text \<open>\<open>os.path.exists(p)\<close>: \<open>os.stat\<close> succeeds; the empty path does not exist.\<close>

definition path_exists :: "fs_path set \<Rightarrow> string \<Rightarrow> bool" where
  "path_exists D p \<longleftrightarrow> p \<noteq> [] \<and> (case walk D [] (split_slash p) of Some q \<Rightarrow> is_dir D q | None \<Rightarrow> False)"

subsection \<open>\<open>os.mkdir\<close> and \<open>os.makedirs\<close>\<close>

text \<open>
  \<open>os.mkdir(p)\<close>: the empty path is \<open>ENOENT\<close>; trailing slashes are ignored; the parent
  must resolve to an existing directory (\<open>FileNotFoundError\<close>); a last component \<open>.\<close>
  or \<open>..\<close>, or an existing directory, is \<open>EEXIST\<close> (\<open>FileExistsError\<close>).
\<close>

definition os_mkdir :: "fs_path set \<Rightarrow> string \<Rightarrow> pyerr + fs_path set" where
  "os_mkdir D p =
     (let cs = rev (dropWhile (\<lambda>c. c = []) (rev (split_slash p))) in
      if p = [] then Inl FileNotFoundError
      else if cs = [] then Inl FileExistsError
      else (case walk D [] (butlast cs) of
              None \<Rightarrow> Inl FileNotFoundError
            | Some q \<Rightarrow>
                if \<not> is_dir D q then Inl FileNotFoundError
                else if last cs = ''.'' \<or> last cs = ''..'' \<or> q @ [last cs] \<in> D then Inl FileExistsError
                else Inr (insert (q @ [last cs]) D)))"

text \<open>A call of \<open>mkdir\<close> as a statement: the directories afterwards and the exception
  it raised, if any.\<close>

definition mkdir_st :: "fs_path set \<Rightarrow> string \<Rightarrow> fs_path set \<times> pyerr option" where
  "mkdir_st D p = (case os_mkdir D p of Inl e \<Rightarrow> (D, Some e) | Inr D' \<Rightarrow> (D', None))"

text \<open>The form of the directory set: every directory has a last component that names
  an entry, and its parent exists.\<close>

definition normal_name :: "string \<Rightarrow> bool" where
  "normal_name c \<longleftrightarrow> c \<noteq> [] \<and> c \<noteq> ''.'' \<and> c \<noteq> ''..'' \<and> CHR ''/'' \<notin> set c"

definition wf_dirs :: "fs_path set \<Rightarrow> bool" where
  "wf_dirs D \<longleftrightarrow> (\<forall>q\<in>D. q \<noteq> [] \<and> normal_name (last q) \<and> is_dir D (butlast q))"

text \<open>Every proper prefix of a path is a directory: what a walk that reached it has checked.\<close>

definition dir_prefixes :: "fs_path set \<Rightarrow> fs_path \<Rightarrow> bool" where
  "dir_prefixes D q \<longleftrightarrow> (\<forall>i < length q. is_dir D (take i q))"

text \<open>A path written from its components, and the directories on the way to it.\<close>

fun join_slash :: "string list \<Rightarrow> string" where
  "join_slash [] = []"
| "join_slash [c] = c"
| "join_slash (c # cs) = c @ CHR ''/'' # join_slash cs"

definition prefixes_of :: "fs_path \<Rightarrow> fs_path set" where
  "prefixes_of cs = set (map (\<lambda>i. take i cs) [1..<Suc (length cs)])"

lemma length_path_split: "length (fst (path_split p)) + length (snd (path_split p)) \<le> length p"
proof -
  define t where "t = takeWhile (\<lambda>c. c \<noteq> CHR ''/'') (rev p)"
  have t: "length t \<le> length p" unfolding t_def
    by (metis length_rev length_takeWhile_le)
  have d: "length (dropWhile P xs) \<le> length xs" for P and xs :: string
    by (simp add: length_dropWhile_le)
  have "length (fst (path_split p)) \<le> length p - length t"
    using d [of _ "rev (take (length p - length t) p)"]
    by (simp add: path_split_def Let_def t_def [symmetric])
  with t show ?thesis by (simp add: path_split_def Let_def t_def [symmetric])
qed

lemma length_split_name:
  assumes "split_name p = (h, t)" "t \<noteq> []"
  shows "length h < length p"
proof (cases "snd (path_split p) = []")
  case True
  with assms have "path_split (fst (path_split p)) = (h, t)"
    by (simp add: split_name_def split: prod.splits)
  then have "length h + length t \<le> length (fst (path_split p))"
    using length_path_split [of "fst (path_split p)"] by simp
  with length_path_split [of p] assms(2) show ?thesis by (cases t) simp_all
next
  case False
  with assms have "path_split p = (h, t)"
    by (simp add: split_name_def split: prod.splits)
  with length_path_split [of p] assms(2) show ?thesis by (cases t) simp_all
qed

text \<open>
  \<open>os.makedirs(name)\<close> with \<open>exist_ok=False\<close>, as CPython writes it: when the head is
  not empty, the tail not empty and the head does not exist, create the head first,
  ignoring a \<open>FileExistsError\<close> it raises; return when the tail is \<open>.\<close>; then
  \<open>mkdir(name)\<close>. Directories created before an exception stay.
\<close>

function os_makedirs :: "fs_path set \<Rightarrow> string \<Rightarrow> fs_path set \<times> pyerr option" where
  "os_makedirs D name =
     (let (head, tail) = split_name name in
      if head \<noteq> [] \<and> tail \<noteq> [] \<and> \<not> path_exists D head then
        (let (D1, r) = os_makedirs D head in
         if r = None \<or> r = Some FileExistsError then
           (if tail = ''.'' then (D1, None) else mkdir_st D1 name)
         else (D1, r))
      else mkdir_st D name)"
  by pat_completeness auto

termination
  by (relation "measure (\<lambda>(D, name). length name)")
     (auto intro: length_split_name [OF sym])

declare os_makedirs.simps [simp del]

subsection \<open>Lemmas on splitting and walking\<close>

lemma os_makedirs_step:
  assumes "split_name name = (head, tail)"
  shows "os_makedirs D name =
     (if head \<noteq> [] \<and> tail \<noteq> [] \<and> \<not> path_exists D head then
        (case os_makedirs D head of (D1, r) \<Rightarrow>
           if r = None \<or> r = Some FileExistsError then
             (if tail = ''.'' then (D1, None) else mkdir_st D1 name)
           else (D1, r))
      else mkdir_st D name)"
  by (simp only: os_makedirs.simps [of D name] assms Let_def prod.case)

lemma split_slash_ne [simp]: "split_slash s \<noteq> []"
  by (induction s) (auto split: list.splits)

lemma split_slash_append: "split_slash (a @ CHR ''/'' # b) = split_slash a @ split_slash b"
proof (induction a)
  case (Cons c a)
  then show ?case by (cases "split_slash a") auto
qed simp

lemma split_slash_single: "CHR ''/'' \<notin> set x \<Longrightarrow> split_slash x = [x]"
  by (induction x) auto

lemma split_slash_no_slash: "c \<in> set (split_slash s) \<Longrightarrow> CHR ''/'' \<notin> set c"
proof (induction s arbitrary: c)
  case (Cons a s)
  then show ?case by (auto split: if_splits list.splits)
qed simp

lemma walk_append:
  "walk D q (xs @ ys) = (case walk D q xs of None \<Rightarrow> None | Some q' \<Rightarrow> walk D q' ys)"
  by (induction xs arbitrary: q) auto

lemma is_dir_Nil [simp]: "is_dir D []"
  by (simp add: is_dir_def)

lemma is_dir_mono: "is_dir D q \<Longrightarrow> D \<subseteq> D' \<Longrightarrow> is_dir D' q"
  by (auto simp: is_dir_def)

lemma strip_last:
  assumes "rev (dropWhile P (rev xs)) \<noteq> []"
  shows "\<not> P (last (rev (dropWhile P (rev xs))))" "last (rev (dropWhile P (rev xs))) \<in> set xs"
proof -
  obtain y ys where "dropWhile P (rev xs) = y # ys" using assms by (cases "dropWhile P (rev xs)") auto
  moreover from this have "\<not> P y" by (metis dropWhile_eq_Cons_conv)
  moreover have "y \<in> set xs" using calculation(1)
    by (metis list.set_intros(1) set_dropWhileD set_rev)
  ultimately show "\<not> P (last (rev (dropWhile P (rev xs))))" "last (rev (dropWhile P (rev xs))) \<in> set xs"
    by simp_all
qed

subsection \<open>\<open>mkdir\<close> and \<open>makedirs\<close> keep the directory set well formed\<close>

lemma os_mkdir_Inr:
  assumes "os_mkdir D p = Inr D'"
  obtains q c where "D' = insert (q @ [c]) D" "is_dir D q" "normal_name c" "q @ [c] \<notin> D"
proof -
  define cs where "cs = rev (dropWhile (\<lambda>c. c = []) (rev (split_slash p)))"
  from assms have ne: "cs \<noteq> []" by (auto simp: os_mkdir_def cs_def [symmetric] Let_def split: if_splits)
  from assms ne obtain q where q: "walk D [] (butlast cs) = Some q" "is_dir D q"
    "last cs \<noteq> ''.''" "last cs \<noteq> ''..''" "q @ [last cs] \<notin> D" "D' = insert (q @ [last cs]) D"
    by (auto simp: os_mkdir_def cs_def [symmetric] Let_def split: if_splits option.splits)
  from strip_last [OF ne [unfolded cs_def]] have "last cs \<noteq> []" "CHR ''/'' \<notin> set (last cs)"
    by (auto simp: cs_def dest: split_slash_no_slash)
  with q have "normal_name (last cs)" by (simp add: normal_name_def)
  with q that show ?thesis by blast
qed

lemma os_mkdir_wf: "os_mkdir D p = Inr D' \<Longrightarrow> wf_dirs D \<Longrightarrow> wf_dirs D'"
  by (erule os_mkdir_Inr) (auto simp: wf_dirs_def intro: is_dir_mono)

lemma mkdir_st_wf: "mkdir_st D p = (D', r) \<Longrightarrow> wf_dirs D \<Longrightarrow> wf_dirs D'"
  by (auto simp: mkdir_st_def os_mkdir_wf split: sum.splits)

lemma os_makedirs_wf: "wf_dirs D \<Longrightarrow> wf_dirs (fst (os_makedirs D name))"
proof (induction D name rule: os_makedirs.induct)
  case (1 D name)
  obtain h t where ht: "split_name name = (h, t)" by fastforce
  show ?case
  proof (cases "h \<noteq> [] \<and> t \<noteq> [] \<and> \<not> path_exists D h")
    case True
    obtain D1 r where r: "os_makedirs D h = (D1, r)" by fastforce
    with 1 ht True have w: "wf_dirs D1" by (metis fst_conv)
    have "os_makedirs D name =
       (if r = None \<or> r = Some FileExistsError then (if t = ''.'' then (D1, None) else mkdir_st D1 name)
        else (D1, r))"
      using True by (simp add: os_makedirs_step [OF ht] r)
    with w show ?thesis by (auto intro: mkdir_st_wf [OF prod.collapse [symmetric]])
  next
    case False
    then have "os_makedirs D name = mkdir_st D name" by (simp only: os_makedirs_step [OF ht] if_False)
    with 1(2) show ?thesis by (auto intro: mkdir_st_wf [OF prod.collapse [symmetric]])
  qed
qed

subsection \<open>An existing path\<close>

lemma strip_split: "xs = rev (dropWhile P (rev xs)) @ rev (takeWhile P (rev xs))"
  by (metis rev_append rev_rev_ident takeWhile_dropWhile_id)

lemma walk_empties:
  "list_all (\<lambda>c. c = []) zs \<Longrightarrow> walk D q zs = (if zs = [] \<or> is_dir D q then Some q else None)"
  by (induction zs) (auto simp: step_comp_def)

lemma os_mkdir_exists:
  assumes "path_exists D p"
  shows "os_mkdir D p = Inl FileExistsError"
proof -
  define cs where "cs = rev (dropWhile (\<lambda>c. c = []) (rev (split_slash p)))"
  define zs where "zs = rev (takeWhile (\<lambda>c. c = []) (rev (split_slash p)))"
  have S: "split_slash p = cs @ zs" unfolding cs_def zs_def by (rule strip_split)
  have z: "list_all (\<lambda>c. c = []) zs" by (auto simp: zs_def list_all_iff dest: set_takeWhileD)
  from assms obtain r where r: "walk D [] (cs @ zs) = Some r" "is_dir D r" "p \<noteq> []"
    by (auto simp: path_exists_def S split: option.splits)
  with z have wr: "walk D [] cs = Some r"
    by (auto simp: walk_append walk_empties split: option.splits if_splits)
  show ?thesis
  proof (cases "cs = []")
    case True
    with r show ?thesis by (simp add: os_mkdir_def cs_def)
  next
    case False
    then have cs: "cs = butlast cs @ [last cs]" by simp
    from wr obtain q where q: "walk D [] (butlast cs) = Some q" "is_dir D q"
      "r = step_comp q (last cs)"
      by (subst (asm) cs) (auto simp: walk_append split: option.splits if_splits)
    from strip_last(1) [OF False [unfolded cs_def]] have "last cs \<noteq> []" by (simp add: cs_def)
    with q r(2) have "last cs = ''.'' \<or> last cs = ''..'' \<or> q @ [last cs] \<in> D"
      by (auto simp: step_comp_def is_dir_def split: if_splits)
    with q r(3) False show ?thesis by (simp add: os_mkdir_def cs_def [symmetric] Let_def)
  qed
qed

lemma split_slash_slashes:
  "list_all (\<lambda>c. c = CHR ''/'') h \<Longrightarrow> list_all (\<lambda>c. c = []) (split_slash h)"
  by (induction h) auto

lemma slashes_exist:
  assumes "list_all (\<lambda>c. c = CHR ''/'') h" "h \<noteq> []"
  shows "path_exists D h"
proof -
  have "walk D [] (split_slash h) = Some []"
    using walk_empties [OF split_slash_slashes [OF assms(1)], of D "[]"] by simp
  with assms(2) show ?thesis by (simp add: path_exists_def)
qed

lemma path_split_decomp:
  assumes "path_split p = (h, t)"
  shows "\<exists>k. p = h @ replicate k CHR ''/'' @ t \<and> (h \<noteq> [] \<longrightarrow> 0 < k \<or> list_all (\<lambda>c. c = CHR ''/'') h)"
proof -
  define tl where "tl = rev (takeWhile (\<lambda>c. c \<noteq> CHR ''/'') (rev p))"
  define hd0 where "hd0 = take (length p - length tl) p"
  have p: "p = hd0 @ tl"
    unfolding hd0_def tl_def
    by (metis append_take_drop_id length_rev rev_swap rev_take takeWhile_eq_take)
  have d: "dropWhile (\<lambda>c. c \<noteq> CHR ''/'') (rev p) = rev hd0"
  proof -
    have r1: "rev p = rev tl @ rev hd0" using p by simp
    have r2: "takeWhile (\<lambda>c. c \<noteq> CHR ''/'') (rev p) = rev tl" by (simp add: tl_def)
    have "rev tl @ dropWhile (\<lambda>c. c \<noteq> CHR ''/'') (rev p) = rev p"
      by (subst r2 [symmetric]) (rule takeWhile_dropWhile_id)
    with r1 show ?thesis by simp
  qed
  have hd0: "hd0 = [] \<or> last hd0 = CHR ''/''"
  proof (cases "rev hd0")
    case (Cons y ys)
    with d have "y = CHR ''/''" using dropWhile_eq_Cons_conv [of _ "rev p" y ys] by auto
    moreover have "last hd0 = y" using Cons by (metis hd_rev list.sel(1) list.simps(3) rev_is_Nil_conv)
    ultimately show ?thesis by simp
  qed simp
  have ht: "(h, t) = (if hd0 \<noteq> [] \<and> \<not> list_all (\<lambda>c. c = CHR ''/'') hd0
                     then rev (dropWhile (\<lambda>c. c = CHR ''/'') (rev hd0)) else hd0, tl)"
    using assms unfolding path_split_def Let_def tl_def [symmetric] hd0_def [symmetric] by (rule sym)
  show ?thesis
  proof (cases "hd0 \<noteq> [] \<and> \<not> list_all (\<lambda>c. c = CHR ''/'') hd0")
    case True
    define k where "k = length (takeWhile (\<lambda>c. c = CHR ''/'') (rev hd0))"
    have tw: "takeWhile (\<lambda>c. c = CHR ''/'') (rev hd0) = replicate k CHR ''/''"
      unfolding k_def by (rule replicate_length_same [symmetric]) (auto dest: set_takeWhileD)
    have h: "h = rev (dropWhile (\<lambda>c. c = CHR ''/'') (rev hd0))" using ht True by simp
    have "hd0 = h @ replicate k CHR ''/''"
      using strip_split [of hd0 "\<lambda>c. c = CHR ''/''"] by (simp add: tw h)
    moreover have "0 < k"
    proof -
      from True hd0 have "last hd0 = CHR ''/''" by simp
      moreover from True obtain ys where "rev hd0 = last hd0 # ys"
        by (metis hd_rev list.collapse rev_is_Nil_conv)
      ultimately show ?thesis by (simp add: k_def)
    qed
    ultimately show ?thesis using ht p by (intro exI [of _ k]) simp
  next
    case False
    with ht p show ?thesis by (intro exI [of _ 0]) auto
  qed
qed

lemma split_name_decomp:
  assumes "split_name p = (h, t)" "h \<noteq> []" "t \<noteq> []"
  shows "(\<exists>rest. p = h @ CHR ''/'' # rest) \<or> list_all (\<lambda>c. c = CHR ''/'') h"
proof -
  have one: "(\<exists>rest. q = h @ CHR ''/'' # rest @ t) \<or> list_all (\<lambda>c. c = CHR ''/'') h"
    if "path_split q = (h, t)" for q
  proof -
    from path_split_decomp [OF that] assms(2) obtain k where
      k: "q = h @ replicate k CHR ''/'' @ t" "0 < k \<or> list_all (\<lambda>c. c = CHR ''/'') h" by blast
    show ?thesis
    proof (cases k)
      case 0
      with k(2) show ?thesis by simp
    next
      case (Suc j)
      with k(1) show ?thesis by auto
    qed
  qed
  show ?thesis
  proof (cases "snd (path_split p) = []")
    case True
    then obtain h0 where h0: "path_split p = (h0, [])" by (metis prod.collapse)
    with assms(1) have "path_split h0 = (h, t)" by (simp add: split_name_def)
    from one [OF this] have "(\<exists>rest. h0 = h @ CHR ''/'' # rest) \<or> list_all (\<lambda>c. c = CHR ''/'') h"
      by blast
    moreover from path_split_decomp [OF h0] obtain k where "p = h0 @ replicate k CHR ''/''" by auto
    ultimately show ?thesis by auto
  next
    case False
    with assms(1) have "path_split p = (h, t)" by (simp add: split_name_def split: prod.splits)
    from one [OF this] show ?thesis by blast
  qed
qed

lemma path_exists_prefix:
  assumes "path_exists D (h @ CHR ''/'' # rest)" "h \<noteq> []"
  shows "path_exists D h"
proof -
  obtain c cs where cs: "split_slash rest = c # cs" by (cases "split_slash rest") auto
  from assms(1) obtain r where "walk D [] (split_slash h @ c # cs) = Some r"
    by (auto simp: path_exists_def split_slash_append cs split: option.splits)
  then obtain q where "walk D [] (split_slash h) = Some q" "is_dir D q"
    by (auto simp: walk_append split: option.splits if_splits)
  with assms(2) show ?thesis by (simp add: path_exists_def)
qed

lemma head_exists:
  assumes "split_name p = (h, t)" "h \<noteq> []" "t \<noteq> []" "path_exists D p"
  shows "path_exists D h"
  using split_name_decomp [OF assms(1-3)] assms(2,4) path_exists_prefix slashes_exist by blast

text \<open>\<open>os.makedirs\<close> on a path that exists raises \<open>FileExistsError\<close> and creates nothing.\<close>

lemma os_makedirs_existing:
  assumes "path_exists D p"
  shows "os_makedirs D p = (D, Some FileExistsError)"
proof -
  obtain h t where ht: "split_name p = (h, t)" by fastforce
  with assms have "\<not> (h \<noteq> [] \<and> t \<noteq> [] \<and> \<not> path_exists D h)" by (auto intro: head_exists)
  then have "os_makedirs D p = mkdir_st D p" by (simp only: os_makedirs_step [OF ht] if_False)
  with assms show ?thesis by (simp add: mkdir_st_def os_mkdir_exists)
qed

subsection \<open>A plain path\<close>

lemma normal_step [simp]: "normal_name c \<Longrightarrow> step_comp q c = q @ [c]"
  by (simp add: step_comp_def normal_name_def)

lemma wf_dirs_take:
  assumes "wf_dirs D" "is_dir D q"
  shows "is_dir D (take i q)"
  using assms(2)
proof (induction q arbitrary: i rule: rev_induct)
  case (snoc x q)
  have "is_dir D q"
    using snoc.prems assms(1) by (auto simp: is_dir_def wf_dirs_def)
  with snoc.IH show ?case
    using snoc.prems by (cases "i \<le> length q") simp_all
qed simp

lemma walk_normal:
  "list_all normal_name cs \<Longrightarrow> walk D q cs = Some r \<Longrightarrow> r = q @ cs"
proof (induction cs arbitrary: q)
  case (Cons c cs)
  then have "walk D (q @ [c]) cs = Some r" by (simp split: if_splits)
  with Cons.IH Cons.prems(1) show ?case by fastforce
qed simp

lemma walk_normal_dir:
  "wf_dirs D \<Longrightarrow> list_all normal_name cs \<Longrightarrow> is_dir D (q @ cs) \<Longrightarrow> walk D q cs = Some (q @ cs)"
proof (induction cs arbitrary: q)
  case (Cons c cs)
  then have "is_dir D q" using wf_dirs_take [OF Cons.prems(1,3), of "length q"] by simp
  with Cons show ?case by simp
qed simp

lemma is_dir_normal: "cs \<noteq> [] \<Longrightarrow> list_all normal_name cs \<Longrightarrow> is_dir D cs \<longleftrightarrow> cs \<in> D"
  by (cases cs) (auto simp: is_dir_def normal_name_def)

lemma split_slash_join:
  "cs \<noteq> [] \<Longrightarrow> list_all normal_name cs \<Longrightarrow> split_slash (join_slash cs) = cs"
proof (induction cs rule: join_slash.induct)
  case (2 c)
  then show ?case by (simp add: normal_name_def split_slash_single)
next
  case (3 c d cs)
  then show ?case by (simp add: split_slash_append normal_name_def split_slash_single)
qed simp

lemma join_slash_snoc: "bs \<noteq> [] \<Longrightarrow> join_slash (bs @ [c]) = join_slash bs @ CHR ''/'' # c"
  by (induction bs rule: join_slash.induct) simp_all

lemma join_slash_ne: "cs \<noteq> [] \<Longrightarrow> list_all normal_name cs \<Longrightarrow> join_slash cs \<noteq> []"
  by (cases cs rule: join_slash.cases) (auto simp: normal_name_def)

lemma join_slash_last:
  "cs \<noteq> [] \<Longrightarrow> list_all normal_name cs \<Longrightarrow> last (join_slash cs) \<noteq> CHR ''/''"
proof (induction cs rule: rev_induct)
  case (snoc c bs)
  then have c: "c \<noteq> []" "CHR ''/'' \<notin> set c" by (simp_all add: normal_name_def)
  then have "last c \<noteq> CHR ''/''" by (metis last_in_set)
  with c show ?case using snoc by (cases "bs = []") (auto simp: join_slash_snoc)
qed simp

lemma path_exists_plain:
  assumes "wf_dirs D" "cs \<noteq> []" "list_all normal_name cs"
  shows "path_exists D (join_slash cs) \<longleftrightarrow> cs \<in> D"
proof
  assume "path_exists D (join_slash cs)"
  then obtain r where "walk D [] cs = Some r" "is_dir D r"
    using assms by (auto simp: path_exists_def split_slash_join split: option.splits)
  moreover from this(1) assms(3) have "r = cs" by (auto dest: walk_normal)
  ultimately show "cs \<in> D" using assms(2,3) by (simp add: is_dir_normal)
next
  assume "cs \<in> D"
  with assms have "walk D [] cs = Some cs" "is_dir D cs"
    using walk_normal_dir [of D cs "[]"] by (simp_all add: is_dir_def)
  with assms show "path_exists D (join_slash cs)"
    by (simp add: path_exists_def split_slash_join join_slash_ne)
qed

lemma path_split_snoc:
  assumes "CHR ''/'' \<notin> set t" "a \<noteq> []" "last a \<noteq> CHR ''/''"
  shows "path_split (a @ CHR ''/'' # t) = (a, t)"
proof -
  have tw: "takeWhile (\<lambda>c. c \<noteq> CHR ''/'') (rev (a @ CHR ''/'' # t)) = rev t"
  proof -
    have "takeWhile (\<lambda>c. c \<noteq> CHR ''/'') (rev t @ CHR ''/'' # rev a) =
        rev t @ takeWhile (\<lambda>c. c \<noteq> CHR ''/'') (CHR ''/'' # rev a)"
      by (rule takeWhile_append2) (metis assms(1) set_rev)
    then show ?thesis by simp
  qed
  have ra: "rev a = last a # rev (butlast a)"
    using assms(2) by (metis append_butlast_last_id rev.simps(2) rev_rev_ident rev_append rev_singleton_conv)
  have "\<not> list_all (\<lambda>c. c = CHR ''/'') (a @ [CHR ''/''])"
    using assms(2,3) by (auto simp: list_all_iff dest: last_in_set)
  moreover have "dropWhile (\<lambda>c. c = CHR ''/'') (last a # rev (butlast a)) = last a # rev (butlast a)"
    using assms(3) by simp
  then have "dropWhile (\<lambda>c. c = CHR ''/'') (rev a) = rev a" by (simp only: ra)
  ultimately show ?thesis using tw by (simp add: path_split_def Let_def)
qed

lemma path_split_single:
  assumes "CHR ''/'' \<notin> set c"
  shows "path_split c = ([], c)"
proof -
  have tw: "takeWhile (\<lambda>x. x \<noteq> CHR ''/'') (rev c) = rev c"
    using assms by (auto simp: takeWhile_eq_all_conv)
  show ?thesis unfolding path_split_def Let_def tw by simp
qed

lemma split_name_snoc:
  assumes "bs \<noteq> []" "list_all normal_name (bs @ [c])"
  shows "split_name (join_slash (bs @ [c])) = (join_slash bs, c)"
proof -
  from assms(2) have "c \<noteq> []" "CHR ''/'' \<notin> set c" by (simp_all add: normal_name_def)
  with assms join_slash_ne [of bs] join_slash_last [of bs] show ?thesis
    by (simp add: join_slash_snoc split_name_def path_split_snoc)
qed

lemma split_name_single: "normal_name c \<Longrightarrow> split_name c = ([], c)"
  by (simp add: split_name_def path_split_single normal_name_def)

lemma os_mkdir_plain:
  assumes "wf_dirs D" "cs \<noteq> []" "list_all normal_name cs" "is_dir D (butlast cs)"
  shows "os_mkdir D (join_slash cs) = (if cs \<in> D then Inl FileExistsError else Inr (insert cs D))"
proof -
  have l: "normal_name (last cs)" using assms(2,3) by (simp add: list_all_iff)
  then have "dropWhile (\<lambda>c. c = []) (rev cs) = rev cs"
    using assms(2) by (cases "rev cs") (auto simp: normal_name_def simp flip: last_rev)
  then have cs': "rev (dropWhile (\<lambda>c. c = []) (rev (split_slash (join_slash cs)))) = cs"
    using assms(2,3) by (simp add: split_slash_join)
  have w: "walk D [] (butlast cs) = Some (butlast cs)"
    using walk_normal_dir [OF assms(1), of "butlast cs" "[]"] assms(3,4)
    by (simp add: list_all_iff in_set_butlastD)
  have bl: "butlast cs @ [last cs] = cs" using assms(2) by simp
  from l have "last cs \<noteq> ''.''" "last cs \<noteq> ''..''" by (simp_all add: normal_name_def)
  with assms(2,3,4) show ?thesis
    unfolding os_mkdir_def Let_def cs' by (simp add: w bl join_slash_ne)
qed

lemma mem_prefixes_of: "q \<in> prefixes_of cs \<longleftrightarrow> (\<exists>i. 0 < i \<and> i \<le> length cs \<and> q = take i cs)"
proof
  assume "q \<in> prefixes_of cs"
  then obtain i where "i \<in> set [1..<Suc (length cs)]" "q = take i cs"
    unfolding prefixes_of_def set_map by blast
  then show "\<exists>i. 0 < i \<and> i \<le> length cs \<and> q = take i cs" by (intro exI [of _ i]) auto
next
  assume "\<exists>i. 0 < i \<and> i \<le> length cs \<and> q = take i cs"
  then obtain i where i: "0 < i" "i \<le> length cs" "q = take i cs" by blast
  then have "i \<in> set [1..<Suc (length cs)]"
    by (simp only: set_upt atLeastLessThan_iff) (intro conjI; linarith)
  then show "q \<in> prefixes_of cs" unfolding prefixes_of_def set_map using i(3) by (rule rev_image_eqI)
qed

lemma prefixes_of_snoc: "prefixes_of (bs @ [c]) = insert (bs @ [c]) (prefixes_of bs)"
proof -
  have "map (\<lambda>i. take i (bs @ [c])) [1..<Suc (length bs)] = map (\<lambda>i. take i bs) [1..<Suc (length bs)]"
    by (rule map_cong) auto
  then show ?thesis by (simp add: prefixes_of_def)
qed

lemma prefixes_of_dirs:
  assumes "wf_dirs D" "list_all normal_name cs" "cs \<in> D"
  shows "prefixes_of cs \<subseteq> D"
proof
  fix q assume "q \<in> prefixes_of cs"
  then obtain i where i: "0 < i" "i \<le> length cs" "q = take i cs" by (auto simp: mem_prefixes_of)
  then have "is_dir D q" using wf_dirs_take [OF assms(1), of cs i] assms(3) by (simp add: is_dir_def)
  moreover have "q \<noteq> []" "list_all normal_name q" using i assms(2)
    by (auto simp: list_all_iff dest: in_set_takeD)
  ultimately show "q \<in> D" by (simp add: is_dir_normal)
qed

lemma self_prefixes_of: "cs \<noteq> [] \<Longrightarrow> cs \<in> prefixes_of cs"
  by (auto simp: mem_prefixes_of intro: exI [of _ "length cs"])

lemma snoc_notin_prefixes_of: "bs @ [c] \<notin> prefixes_of bs"
  by (auto simp: mem_prefixes_of dest: arg_cong [of _ _ length])

lemma wf_dirs_notin:
  assumes "wf_dirs D" "bs \<noteq> []" "list_all normal_name bs" "bs \<notin> D"
  shows "bs @ [c] \<notin> D"
  using assms by (auto simp: wf_dirs_def is_dir_normal dest!: bspec [of _ _ "bs @ [c]"])

theorem os_makedirs_plain:
  assumes "wf_dirs D" "cs \<noteq> []" "list_all normal_name cs"
  shows "os_makedirs D (join_slash cs) =
           (if cs \<in> D then (D, Some FileExistsError) else (D \<union> prefixes_of cs, None))"
  using assms(2,3)
proof (induction cs rule: rev_induct)
  case (snoc c bs)
  then have nb: "list_all normal_name bs" and nc: "normal_name c" by simp_all
  show ?case
  proof (cases "bs = []")
    case True
    with nc have "os_makedirs D (join_slash (bs @ [c])) = mkdir_st D (join_slash [c])"
      by (simp add: os_makedirs_step [OF split_name_single [OF nc]])
    moreover have "prefixes_of [c] = {[c]}" by (simp add: prefixes_of_def)
    ultimately show ?thesis using True nc assms(1) os_mkdir_plain [of D "[c]"]
      by (simp add: mkdir_st_def)
  next
    case False
    have sn: "split_name (join_slash (bs @ [c])) = (join_slash bs, c)"
      using split_name_snoc [OF False] snoc.prems(2) .
    have ex: "path_exists D (join_slash bs) \<longleftrightarrow> bs \<in> D"
      using path_exists_plain [OF assms(1) False nb] .
    have pc: "prefixes_of (bs @ [c]) = insert (bs @ [c]) (prefixes_of bs)"
      by (rule prefixes_of_snoc)
    show ?thesis
    proof (cases "bs \<in> D")
      case True
      then have "os_makedirs D (join_slash (bs @ [c])) = mkdir_st D (join_slash (bs @ [c]))"
        by (simp add: os_makedirs_step [OF sn] ex)
      moreover have "is_dir D bs" using True by (simp add: is_dir_def)
      moreover have "prefixes_of bs \<subseteq> D" using prefixes_of_dirs [OF assms(1) nb True] .
      ultimately show ?thesis using os_mkdir_plain [OF assms(1) _ snoc.prems(2)] pc
        by (auto simp: mkdir_st_def)
    next
      case bD: False
      define D1 where "D1 = D \<union> prefixes_of bs"
      have ih: "os_makedirs D (join_slash bs) = (D1, None)"
        using snoc.IH [OF False nb] bD by (simp add: D1_def)
      have w1: "wf_dirs D1" using os_makedirs_wf [OF assms(1), of "join_slash bs"] ih by simp
      have "c \<noteq> []" "c \<noteq> ''.''" using nc by (simp_all add: normal_name_def)
      then have "os_makedirs D (join_slash (bs @ [c])) = mkdir_st D1 (join_slash (bs @ [c]))"
        using False bD by (simp add: os_makedirs_step [OF sn] ex ih join_slash_ne [OF False nb])
      moreover have "is_dir D1 bs" using self_prefixes_of [OF False] by (simp add: D1_def is_dir_def)
      moreover have "bs @ [c] \<notin> D1"
        using wf_dirs_notin [OF assms(1) False nb bD] snoc_notin_prefixes_of by (simp add: D1_def)
      moreover have "bs @ [c] \<notin> D" using wf_dirs_notin [OF assms(1) False nb bD] .
      ultimately show ?thesis using os_mkdir_plain [OF w1 _ snoc.prems(2)] pc
        by (simp add: mkdir_st_def D1_def)
    qed
  qed
qed simp

subsection \<open>A path that climbs out of its first directory\<close>

lemma split_slash_up:
  "normal_name a \<Longrightarrow> normal_name x \<Longrightarrow> split_slash (a @ ''/../'' @ x) = [a, ''..'', x]"
  using split_slash_append [of a "''../'' @ x"] split_slash_append [of "''..''" x]
  by (simp add: normal_name_def split_slash_single)

lemma os_mkdir_up:
  assumes "normal_name a" "normal_name x" "[a] \<in> D" "[x] \<notin> D"
  shows "os_mkdir D (a @ ''/../'' @ x) = Inr (insert [x] D)"
proof -
  have "x \<noteq> []" "x \<noteq> ''.''" "x \<noteq> ''..''" "a \<noteq> ''.''" "a \<noteq> ''..''" "a \<noteq> []"
    using assms(1,2) by (simp_all add: normal_name_def)
  with assms show ?thesis
    unfolding os_mkdir_def split_slash_up [OF assms(1,2)] by (simp add: is_dir_def step_comp_def)
qed

lemma os_makedirs_up:
  assumes "normal_name a" "normal_name x" "x \<noteq> a" "[x] \<notin> D"
  shows "os_makedirs D (a @ ''/../'' @ x) = (insert [x] (insert [a] D), None)"
proof -
  from assms(1,2) have a: "a \<noteq> []" "last a \<noteq> CHR ''/''" "CHR ''/'' \<notin> set a"
    and x: "x \<noteq> []" "CHR ''/'' \<notin> set x" "x \<noteq> ''.''"
    by (auto simp: normal_name_def dest: last_in_set)
  define p where "p = a @ ''/../'' @ x"
  define q where "q = a @ ''/..''"
  have sn: "split_name p = (q, x)"
    using path_split_snoc [of x "a @ ''/..''"] x by (simp add: split_name_def p_def q_def)
  have ex: "path_exists D q \<longleftrightarrow> [a] \<in> D"
    using split_slash_append [of a "''..''"] assms(1) a
    by (simp add: q_def path_exists_def split_slash_single is_dir_def step_comp_def normal_name_def)
  have up: "[a] \<in> D' \<Longrightarrow> [x] \<notin> D' \<Longrightarrow> mkdir_st D' p = (insert [x] D', None)" for D'
    using os_mkdir_up [OF assms(1,2), of D'] by (simp add: mkdir_st_def p_def)
  show ?thesis
  proof (cases "[a] \<in> D")
    case True
    with ex have "os_makedirs D p = mkdir_st D p" by (simp add: os_makedirs_step [OF sn])
    with True assms(4) up show ?thesis unfolding p_def [symmetric] by (simp add: insert_absorb)
  next
    case False
    define D1 where "D1 = insert [a] D"
    have sa: "split_name q = (a, ''..'')"
      using path_split_snoc [of "''..''" a] a by (simp add: split_name_def q_def)
    have "\<not> path_exists D a" using False a assms(1)
      by (simp add: path_exists_def split_slash_single is_dir_def normal_step [OF assms(1)])
        (simp add: normal_name_def)
    moreover have "os_makedirs D a = (D1, None)"
      using False a assms(1)
      by (simp add: os_makedirs_step [OF split_name_single [OF assms(1)]] mkdir_st_def os_mkdir_def
          split_slash_single D1_def normal_name_def)
    moreover have "os_mkdir D1 q = Inl FileExistsError"
      using split_slash_append [of a "''..''"] a
      by (simp add: q_def os_mkdir_def split_slash_single D1_def is_dir_def normal_step [OF assms(1)] Let_def)
    ultimately have "os_makedirs D q = (D1, Some FileExistsError)"
      using a by (simp add: os_makedirs_step [OF sa] mkdir_st_def)
    moreover have "q \<noteq> []" by (simp add: q_def)
    ultimately have "os_makedirs D p = mkdir_st D1 p" using False ex x
      by (simp add: os_makedirs_step [OF sn])
    moreover have "[a] \<in> D1" "[x] \<notin> D1" using assms(3,4) by (simp_all add: D1_def)
    ultimately show ?thesis using up unfolding p_def [symmetric] by (simp add: D1_def)
  qed
qed

subsection \<open>Directories are only added\<close>

lemma mkdir_st_mono: "D \<subseteq> fst (mkdir_st D p)"
  by (auto simp: mkdir_st_def os_mkdir_def Let_def split: sum.splits option.splits if_splits)

lemma os_makedirs_mono: "D \<subseteq> fst (os_makedirs D name)"
proof (induction D name rule: os_makedirs.induct)
  case (1 D name)
  obtain h t where ht: "split_name name = (h, t)" by fastforce
  show ?case
  proof (cases "h \<noteq> [] \<and> t \<noteq> [] \<and> \<not> path_exists D h")
    case True
    obtain D1 r where r: "os_makedirs D h = (D1, r)" by fastforce
    with 1 ht True have "D \<subseteq> D1" by (metis fst_conv)
    moreover have "D1 \<subseteq> fst (mkdir_st D1 name)" by (rule mkdir_st_mono)
    ultimately show ?thesis using True by (auto simp: os_makedirs_step [OF ht] r)
  next
    case False
    then have "os_makedirs D name = mkdir_st D name" by (simp only: os_makedirs_step [OF ht] if_False)
    then show ?thesis by (simp add: mkdir_st_mono)
  qed
qed

lemma join_slash_Cons: "cs \<noteq> [] \<Longrightarrow> join_slash (a # cs) = a @ CHR ''/'' # join_slash cs"
  by (cases cs) simp_all

subsection \<open>What \<open>makedirs\<close> leaves behind\<close>

lemma walk_mono: "walk D q xs = Some r \<Longrightarrow> D \<subseteq> D' \<Longrightarrow> walk D' q xs = Some r"
  by (induction xs arbitrary: q) (auto split: if_splits intro: is_dir_mono)

lemma dir_prefixes_step:
  assumes "dir_prefixes D q" "is_dir D q"
  shows "dir_prefixes D (step_comp q c)"
proof -
  have all: "dir_prefixes D q'" if "list_all (\<lambda>c. c = ''..'') q'" for q'
    using that by (auto simp: dir_prefixes_def is_dir_def list_all_iff dest: in_set_takeD)
  have snoc: "dir_prefixes D (q @ [c'])" for c'
    using assms by (auto simp: dir_prefixes_def less_Suc_eq)
  have bl: "dir_prefixes D (butlast q)"
    using assms(1) by (auto simp: dir_prefixes_def take_butlast)
  show ?thesis
    using all [of "q @ [''..'']"] assms snoc bl by (auto simp: step_comp_def)
qed

lemma walk_dir_prefixes: "walk D q xs = Some r \<Longrightarrow> dir_prefixes D q \<Longrightarrow> dir_prefixes D r"
  by (induction xs arbitrary: q) (auto split: if_splits intro: dir_prefixes_step)

lemma dir_prefixes_butlast: "dir_prefixes D q \<Longrightarrow> q \<noteq> [] \<Longrightarrow> is_dir D (butlast q)"
  by (auto simp: dir_prefixes_def butlast_conv_take)

lemma os_mkdir_cases:
  assumes "os_mkdir D p = r"
  obtains (root) "p \<noteq> []" "list_all (\<lambda>c. c = []) (split_slash p)" "r = Inl FileExistsError"
  | (enoent) "r = Inl FileNotFoundError"
  | (parent) bs c zs q where "split_slash p = bs @ [c] @ zs" "list_all (\<lambda>c. c = []) zs" "c \<noteq> []"
      "p \<noteq> []" "walk D [] bs = Some q" "is_dir D q"
      "r = (if c = ''.'' \<or> c = ''..'' \<or> q @ [c] \<in> D then Inl FileExistsError else Inr (insert (q @ [c]) D))"
proof -
  define cs where "cs = rev (dropWhile (\<lambda>c. c = []) (rev (split_slash p)))"
  define zs where "zs = rev (takeWhile (\<lambda>c. c = []) (rev (split_slash p)))"
  have S: "split_slash p = cs @ zs" unfolding cs_def zs_def by (rule strip_split)
  have z: "list_all (\<lambda>c. c = []) zs" by (auto simp: zs_def list_all_iff dest: set_takeWhileD)
  show ?thesis
  proof (cases "p = []")
    case True
    with assms show ?thesis by (intro enoent) (simp add: os_mkdir_def)
  next
    case pne: False
    show ?thesis
    proof (cases "cs = []")
      case True
      then have "os_mkdir D p = Inl FileExistsError" using pne by (simp add: os_mkdir_def cs_def [symmetric])
      with S z pne assms True show ?thesis by (intro root) simp_all
    next
      case False
      then have cs: "cs = butlast cs @ [last cs]" by simp
      from strip_last(1) [OF False [unfolded cs_def]] have lc: "last cs \<noteq> []" by (simp add: cs_def)
      show ?thesis
      proof (cases "walk D [] (butlast cs)")
        case None
        with assms pne False show ?thesis
          by (intro enoent) (simp add: os_mkdir_def cs_def [symmetric] Let_def)
      next
        case (Some q)
        show ?thesis
        proof (cases "is_dir D q")
          case True
          have mk: "os_mkdir D p = (if last cs = ''.'' \<or> last cs = ''..'' \<or> q @ [last cs] \<in> D
              then Inl FileExistsError else Inr (insert (q @ [last cs]) D))"
            using Some True pne False by (simp add: os_mkdir_def cs_def [symmetric] Let_def)
          have "split_slash p = butlast cs @ [last cs] @ zs" using S cs by (metis append_assoc)
          with Some True z lc pne assms mk show ?thesis
            by (intro parent [of "butlast cs" "last cs" zs q]) simp_all
        next
          case False
          with Some assms pne \<open>cs \<noteq> []\<close> show ?thesis
            by (intro enoent) (simp add: os_mkdir_def cs_def [symmetric] Let_def)
        qed
      qed
    qed
  qed
qed

text \<open>After \<open>mkdir\<close> returns, or raises \<open>FileExistsError\<close>, the path exists.\<close>

lemma os_mkdir_post:
  assumes "os_mkdir D p = r" "r \<noteq> Inl FileNotFoundError"
  shows "r = Inl FileExistsError \<and> path_exists D p \<or> (\<exists>D'. r = Inr D' \<and> path_exists D' p)"
  using assms(1)
proof (cases rule: os_mkdir_cases)
  case root
  then show ?thesis by (simp add: path_exists_def walk_empties)
next
  case enoent
  with assms(2) show ?thesis by simp
next
  case (parent bs c zs q)
  have pre: "dir_prefixes D q" using walk_dir_prefixes [OF parent(5)] by (simp add: dir_prefixes_def)
  show ?thesis
  proof (cases "c = ''.'' \<or> c = ''..'' \<or> q @ [c] \<in> D")
    case True
    have "is_dir D (step_comp q c)"
      using True parent(6) dir_prefixes_butlast [OF pre]
      by (cases "q = []") (auto simp: step_comp_def is_dir_def)
    then have "walk D [] (split_slash p) = Some (step_comp q c)"
      using parent(1-6) by (simp add: walk_append walk_empties)
    with True parent show ?thesis
      using \<open>is_dir D (step_comp q c)\<close> by (simp add: path_exists_def)
  next
    case False
    let ?D' = "insert (q @ [c]) D"
    have "walk ?D' [] bs = Some q" using walk_mono [OF parent(5)] by blast
    moreover have "is_dir ?D' q" using is_dir_mono [OF parent(6)] by blast
    moreover have "step_comp q c = q @ [c]" using False parent(3) by (simp add: step_comp_def)
    moreover have "is_dir ?D' (q @ [c])" by (simp add: is_dir_def)
    ultimately have "walk ?D' [] (split_slash p) = Some (q @ [c])"
      using parent(1,2) by (simp add: walk_append walk_empties)
    with False parent show ?thesis
      using \<open>is_dir ?D' (q @ [c])\<close> by (simp add: path_exists_def)
  qed
qed

lemma split_slash_rep: "split_slash (replicate n CHR ''/'') = replicate (Suc n) []"
  by (induction n) simp_all

lemma split_slash_shape:
  assumes "CHR ''/'' \<notin> set t"
  shows "split_slash (replicate m CHR ''/'' @ t @ replicate j CHR ''/'') = replicate m [] @ [t] @ replicate j []"
proof (induction m)
  case 0
  show ?case
  proof (cases j)
    case 0
    with assms show ?thesis by (simp add: split_slash_single)
  next
    case (Suc j')
    then have "split_slash (t @ CHR ''/'' # replicate j' CHR ''/'') = [t] @ replicate j []"
      by (simp only: split_slash_append split_slash_single [OF assms] split_slash_rep)
    with Suc show ?thesis by simp
  qed
qed simp

lemma path_split_tail: "path_split p = (h, t) \<Longrightarrow> CHR ''/'' \<notin> set t"
  by (auto simp: path_split_def Let_def dest: set_takeWhileD)

lemma path_split_head_last:
  assumes "path_split p = (h, t)" "h \<noteq> []" "\<not> list_all (\<lambda>c. c = CHR ''/'') h"
  shows "last h \<noteq> CHR ''/''"
proof -
  define hd0 where "hd0 = take (length p - length (rev (takeWhile (\<lambda>c. c \<noteq> CHR ''/'') (rev p)))) p"
  have h: "h = (if hd0 \<noteq> [] \<and> \<not> list_all (\<lambda>c. c = CHR ''/'') hd0
               then rev (dropWhile (\<lambda>c. c = CHR ''/'') (rev hd0)) else hd0)"
    using assms(1) unfolding path_split_def Let_def hd0_def [symmetric] by auto
  with assms(2,3) have h': "h = rev (dropWhile (\<lambda>c. c = CHR ''/'') (rev hd0))"
    by (auto split: if_splits)
  with assms(2) obtain y ys where "dropWhile (\<lambda>c. c = CHR ''/'') (rev hd0) = y # ys"
    by (cases "dropWhile (\<lambda>c. c = CHR ''/'') (rev hd0)") auto
  moreover from this have "y \<noteq> CHR ''/''"
    using dropWhile_eq_Cons_conv [of _ "rev hd0" y ys] by auto
  ultimately show ?thesis using h' by simp
qed

lemma path_split_empty_tail: "path_split q = (h, []) \<Longrightarrow> q = [] \<or> last q = CHR ''/''"
proof (cases "rev q")
  case (Cons y ys)
  assume "path_split q = (h, [])"
  then have "takeWhile (\<lambda>c. c \<noteq> CHR ''/'') (rev q) = []" by (simp add: path_split_def Let_def)
  with Cons have "y = CHR ''/''" by (simp split: if_splits)
  with Cons show ?thesis by (simp add: rev_eq_Cons_iff)
qed simp

lemma split_name_empty_tail:
  assumes "split_name p = (h, [])"
  shows "list_all (\<lambda>c. c = CHR ''/'') p"
proof -
  obtain h0 t0 where p: "path_split p = (h0, t0)" by fastforce
  have sn: "split_name p = (if t0 = [] then path_split h0 else (h0, t0))"
    by (simp add: split_name_def p)
  have t0: "t0 = []"
  proof (rule ccontr)
    assume "t0 \<noteq> []"
    with sn assms show False by simp
  qed
  with sn assms have h0: "path_split h0 = (h, [])" by simp
  from path_split_decomp [OF p [unfolded t0]] obtain j where
    pj: "p = h0 @ replicate j CHR ''/'' @ []" by blast
  show ?thesis
  proof (cases "h0 = [] \<or> list_all (\<lambda>c. c = CHR ''/'') h0")
    case True
    moreover have "list_all (\<lambda>c. c = CHR ''/'') (replicate j CHR ''/'')" by (simp add: list_all_iff)
    ultimately show ?thesis unfolding pj by auto
  next
    case False
    with path_split_head_last [OF p [unfolded t0]] have "last h0 \<noteq> CHR ''/''" by blast
    with path_split_empty_tail [OF h0] False show ?thesis by simp
  qed
qed

lemma split_name_shape:
  assumes "split_name p = (h, t)" "t \<noteq> []"
  shows "CHR ''/'' \<notin> set t \<and> (\<exists>k j. p = h @ replicate k CHR ''/'' @ t @ replicate j CHR ''/'' \<and>
           (h \<noteq> [] \<longrightarrow> 0 < k \<or> list_all (\<lambda>c. c = CHR ''/'') h))"
proof (cases "snd (path_split p) = []")
  case True
  then obtain h0 where h0: "path_split p = (h0, [])" by (metis prod.collapse)
  with assms(1) have ht: "path_split h0 = (h, t)" by (simp add: split_name_def)
  from path_split_decomp [OF h0] obtain j where pj: "p = h0 @ replicate j CHR ''/''" by auto
  from path_split_decomp [OF ht] obtain k where
    k: "h0 = h @ replicate k CHR ''/'' @ t" "h \<noteq> [] \<longrightarrow> 0 < k \<or> list_all (\<lambda>c. c = CHR ''/'') h" by blast
  from pj k(1) have "p = h @ replicate k CHR ''/'' @ t @ replicate j CHR ''/''" by simp
  with k(2) path_split_tail [OF ht] show ?thesis by blast
next
  case False
  with assms(1) have ht: "path_split p = (h, t)" by (simp add: split_name_def split: prod.splits)
  from path_split_decomp [OF ht] obtain k where
    k: "p = h @ replicate k CHR ''/'' @ t" "h \<noteq> [] \<longrightarrow> 0 < k \<or> list_all (\<lambda>c. c = CHR ''/'') h" by blast
  from k(1) have "p = h @ replicate k CHR ''/'' @ t @ replicate 0 CHR ''/''" by simp
  with k(2) path_split_tail [OF ht] show ?thesis by blast
qed

lemma strip_snoc:
  assumes "t \<noteq> []" "list_all (\<lambda>c. c = []) zs"
  shows "rev (dropWhile (\<lambda>c. c = []) (rev (A @ [t] @ zs))) = A @ [t]"
proof -
  have "dropWhile (\<lambda>c. c = []) (rev zs @ t # rev A) = dropWhile (\<lambda>c. c = []) (t # rev A)"
    using assms(2) by (intro dropWhile_append2) (auto simp: list_all_iff)
  also have "\<dots> = t # rev A" using assms(1) by simp
  finally show ?thesis by simp
qed

lemma walk_replicate_empty: "is_dir D q \<Longrightarrow> walk D q (replicate n []) = Some q"
  by (induction n) (simp_all add: step_comp_def)

lemma mkdir_st_post:
  assumes "os_mkdir D p \<noteq> Inl FileNotFoundError"
  shows "snd (mkdir_st D p) \<in> {None, Some FileExistsError} \<and> path_exists (fst (mkdir_st D p)) p"
  using os_mkdir_post [OF refl assms] by (auto simp: mkdir_st_def)

lemma os_mkdir_parent:
  assumes "split_slash p = A @ [t] @ zs" "list_all (\<lambda>c. c = []) zs" "t \<noteq> []"
    "walk D [] A = Some q" "is_dir D q" "p \<noteq> []"
  shows "os_mkdir D p \<noteq> Inl FileNotFoundError"
proof -
  have "rev (dropWhile (\<lambda>c. c = []) (rev (split_slash p))) = A @ [t]"
    unfolding assms(1) by (rule strip_snoc [OF assms(3,2)])
  with assms(4-6) show ?thesis by (simp add: os_mkdir_def Let_def)
qed

lemma shape_walk:
  assumes "p = h @ replicate k CHR ''/'' @ t @ replicate j CHR ''/''" "CHR ''/'' \<notin> set t"
    "list_all (\<lambda>c. c = CHR ''/'') h \<or> (0 < k \<and> path_exists D h)"
  shows "\<exists>A q. split_slash p = A @ [t] @ replicate j [] \<and> walk D [] A = Some q \<and> is_dir D q"
  using assms(3)
proof
  assume h: "list_all (\<lambda>c. c = CHR ''/'') h"
  then have "h = replicate (length h) CHR ''/''"
    by (simp add: list_all_iff replicate_length_same)
  with assms(1) have "p = replicate (length h + k) CHR ''/'' @ t @ replicate j CHR ''/''"
    by (metis append_assoc replicate_add)
  then have "split_slash p = replicate (length h + k) [] @ [t] @ replicate j []"
    using split_slash_shape [OF assms(2)] by simp
  moreover have "walk D [] (replicate (length h + k) []) = Some []" by (simp add: walk_empties list_all_iff)
  ultimately show ?thesis by fastforce
next
  assume h: "0 < k \<and> path_exists D h"
  then obtain qh where qh: "walk D [] (split_slash h) = Some qh" "is_dir D qh"
    by (auto simp: path_exists_def split: option.splits)
  from h obtain k' where k: "k = Suc k'" by (cases k) auto
  with assms(1) have "p = h @ CHR ''/'' # (replicate k' CHR ''/'' @ t @ replicate j CHR ''/'')" by simp
  then have "split_slash p = (split_slash h @ replicate k' []) @ [t] @ replicate j []"
    using split_slash_shape [OF assms(2)] by (simp add: split_slash_append)
  moreover have "walk D [] (split_slash h @ replicate k' []) = Some qh"
    using qh by (simp add: walk_append walk_replicate_empty)
  ultimately show ?thesis using qh(2) by blast
qed

lemma shape_dot_exists:
  assumes "p = h @ replicate k CHR ''/'' @ ''.'' @ replicate j CHR ''/''" "0 < k" "path_exists D h"
  shows "path_exists D p"
proof -
  have "CHR ''/'' \<notin> set ''.''" by simp
  from shape_walk [OF assms(1) this] assms(2,3) obtain A q where
    A: "split_slash p = A @ [''.''] @ replicate j []" "walk D [] A = Some q" "is_dir D q" by blast
  then have "walk D [] (split_slash p) = Some q"
    by (simp add: walk_append walk_replicate_empty step_comp_def)
  with A(3) assms(1) show ?thesis by (simp add: path_exists_def)
qed

text \<open>
  \<open>os.makedirs\<close> on a non-empty name raises at most \<open>FileExistsError\<close>, and afterwards
  the name exists, whatever the directories before (no \<open>FileNotFoundError\<close>: the head
  is created first).
\<close>

lemma os_makedirs_post:
  "name \<noteq> [] \<Longrightarrow>
     snd (os_makedirs D name) \<in> {None, Some FileExistsError} \<and> path_exists (fst (os_makedirs D name)) name"
proof (induction D name rule: os_makedirs.induct)
  case (1 D name)
  obtain h t where ht: "split_name name = (h, t)" by fastforce
  show ?case
  proof (cases "h \<noteq> [] \<and> t \<noteq> [] \<and> \<not> path_exists D h")
    case True
    obtain D1 r where r: "os_makedirs D h = (D1, r)" by fastforce
    with 1(1) [OF ht [symmetric] refl True] True r
    have r1: "r \<in> {None, Some FileExistsError}" and e1: "path_exists D1 h" by (metis fst_conv snd_conv)+
    from split_name_shape [OF ht] True obtain k j where
      sh: "CHR ''/'' \<notin> set t" "name = h @ replicate k CHR ''/'' @ t @ replicate j CHR ''/''"
        "0 < k \<or> list_all (\<lambda>c. c = CHR ''/'') h" by blast
    have k: "0 < k" using sh(3) slashes_exist [of h D] True by blast
    have step: "os_makedirs D name = (if t = ''.'' then (D1, None) else mkdir_st D1 name)"
      using True r1 by (auto simp: os_makedirs_step [OF ht] r)
    show ?thesis
    proof (cases "t = ''.''")
      case True
      with sh(2) k e1 step show ?thesis by (simp add: shape_dot_exists)
    next
      case False
      from shape_walk [OF sh(2,1)] k e1 obtain A q where
        a: "split_slash name = A @ [t] @ replicate j []" "walk D1 [] A = Some q" "is_dir D1 q" by blast
      have "list_all (\<lambda>c. c = []) (replicate j ([] :: string))" by (simp add: list_all_iff)
      from os_mkdir_parent [OF a(1) this _ a(2,3) 1(2)] \<open>h \<noteq> [] \<and> t \<noteq> [] \<and> \<not> path_exists D h\<close>
      have "os_mkdir D1 name \<noteq> Inl FileNotFoundError" by blast
      from mkdir_st_post [OF this] False step show ?thesis by simp
    qed
  next
    case False
    then have step: "os_makedirs D name = mkdir_st D name"
      by (simp only: os_makedirs_step [OF ht] if_False)
    have "os_mkdir D name \<noteq> Inl FileNotFoundError"
    proof (cases "t = []")
      case True
      with split_name_empty_tail [of name h] ht have "list_all (\<lambda>c. c = []) (split_slash name)"
        by (simp add: split_slash_slashes)
      with 1(2) show ?thesis
        by (simp add: os_mkdir_def Let_def list_all_iff)
    next
      case tne: False
      from split_name_shape [OF ht tne] obtain k j where
        sh: "CHR ''/'' \<notin> set t" "name = h @ replicate k CHR ''/'' @ t @ replicate j CHR ''/''"
          "h \<noteq> [] \<longrightarrow> 0 < k \<or> list_all (\<lambda>c. c = CHR ''/'') h" by blast
      have "list_all (\<lambda>c. c = CHR ''/'') h \<or> (0 < k \<and> path_exists D h)"
        using False sh(3) tne by auto
      from shape_walk [OF sh(2,1) this] obtain A q where
        a: "split_slash name = A @ [t] @ replicate j []" "walk D [] A = Some q" "is_dir D q" by blast
      have "list_all (\<lambda>c. c = []) (replicate j ([] :: string))" by (simp add: list_all_iff)
      from os_mkdir_parent [OF a(1) this tne a(2,3) 1(2)] show ?thesis .
    qed
    from mkdir_st_post [OF this] step show ?thesis by simp
  qed
qed

end
