(* ===== verification/Orchestrator.thy ===== *)
theory Orchestrator
  imports Category_Liveness Os_Path
begin

text \<open>
  The top of the program: \<open>EldoradoParser.__init__\<close> discovering the categories,
  \<open>_queue_parse_category\<close>'s setup of one category (its first page, page count, name and
  output directory), one \<open>asyncio.run\<close> of a category as the runs of \<open>Category_Run\<close>,
  and \<open>run_parse\<close> running the categories one after the other. The parser's shared
  buffer \<open>self.comments\<close> lives across categories, so it is part of the state threaded
  from one category to the next, with the files, the directories and the log.
  \<open>list(self.url_categories)\<close> enumerates a Python \<open>set\<close> of strings, whose order
  depends on the per-process string hash: the model takes any duplicate-free
  enumeration of the set.
\<close>

record world =
  w_comments :: "review list"
  w_files :: "path \<Rightarrow> review list option"
  w_dirs :: "fs_path set"
  w_log :: "(level \<times> string) list"

text \<open>
  Lines 101--109 and 115--116. The outcome is the world afterwards and either the
  exception raised or the category's listing run to start: \<open>None\<close> is the non-200
  branch (a warning, nothing else), \<open>Some (path_dir, count_page)\<close> a category whose
  listing tasks are about to be created. \<open>os.makedirs(path_dir)\<close> may create
  directories and then raise; the directories it created stay.
\<close>

text \<open>Line 108: \<open>path_dir = f'reviews/{category_name}'\<close>.\<close>

definition category_dir :: "string \<Rightarrow> path" where
  "category_dir nm = ''reviews/'' @ nm"

definition category_setup :: "web \<Rightarrow> url \<Rightarrow> world \<Rightarrow> world \<times> (pyerr + (path \<times> int) option)" where
  "category_setup w c s =
     (let u = home_url @ c in
      case http_get w u [] of
        Inl e \<Rightarrow> (s, Inl e)
      | Inr r \<Rightarrow>
          if status r = 200 then
            (case category_page_count (body r) of
               Inl e \<Rightarrow> (s, Inl e)
             | Inr n \<Rightarrow>
                 (case category_name (body r) of
                    Inl e \<Rightarrow> (s, Inl e)
                  | Inr nm \<Rightarrow>
                      (let pd = category_dir nm in
                       case os_makedirs (w_dirs s) pd of
                         (D', None) \<Rightarrow> (s\<lparr>w_dirs := D'\<rparr>, Inr (Some (pd, n)))
                       | (D', Some e) \<Rightarrow> (s\<lparr>w_dirs := D'\<rparr>, Inl e))))
          else (s\<lparr>w_log := w_log s @ [(WARNING, ''Error parse '' @ u)]\<rparr>, Inr None))"

text \<open>The world after a category run that stopped in state \<open>t\<close>.\<close>

definition world_after :: "world \<Rightarrow> cstate \<Rightarrow> world" where
  "world_after s t = s\<lparr>w_comments := comments t, w_files := files t, w_log := log t\<rparr>"

text \<open>
  \<open>asyncio.run(self._queue_parse_category(c))\<close>: the outcome is the world afterwards and
  the exception that escaped, if any. A run that raised may have written files before
  it was torn down: any reachable state after the failure is a possible end.
\<close>

inductive category_outcome :: "web \<Rightarrow> url \<Rightarrow> world \<Rightarrow> world \<times> pyerr option \<Rightarrow> bool"
  for w :: web and c :: url where
  setup_error: "category_setup w c s = (s', Inl e) \<Longrightarrow> category_outcome w c s (s', Some e)"
| skipped: "category_setup w c s = (s', Inr None) \<Longrightarrow> category_outcome w c s (s', None)"
| completed: "category_setup w c s = (s', Inr (Some (pd, n))) \<Longrightarrow>
     cat_reach w (home_url @ c) pd (cat_init n (w_comments s') (w_files s') (w_log s')) t \<Longrightarrow>
     cat_done t \<Longrightarrow> category_outcome w c s (world_after s' t, None)"
| raised: "category_setup w c s = (s', Inr (Some (pd, n))) \<Longrightarrow>
     cat_reach w (home_url @ c) pd (cat_init n (w_comments s') (w_files s') (w_log s')) t \<Longrightarrow>
     failure t = Some e \<Longrightarrow> category_outcome w c s (world_after s' t, Some e)"

text \<open>Lines 119--122: the loop of \<open>run_parse\<close>; an exception leaves it.\<close>

definition log_info :: "string \<Rightarrow> world \<Rightarrow> world" where
  "log_info m s = s\<lparr>w_log := w_log s @ [(INFO, m)]\<rparr>"

text \<open>The messages logged at level INFO, in order.\<close>

definition info_msgs :: "(level \<times> string) list \<Rightarrow> string list" where
  "info_msgs l = map snd (filter (\<lambda>e. fst e = INFO) l)"

inductive run_categories :: "web \<Rightarrow> url list \<Rightarrow> world \<Rightarrow> world \<times> pyerr option \<Rightarrow> bool"
  for w :: web where
  nil: "run_categories w [] s (s, None)"
| ok: "category_outcome w c (log_info (''Run parse '' @ c) s) (s', None) \<Longrightarrow>
     run_categories w cs (log_info (''End parse '' @ c) s') r \<Longrightarrow> run_categories w (c # cs) s r"
| err: "category_outcome w c (log_info (''Run parse '' @ c) s) (s', Some e) \<Longrightarrow>
     run_categories w (c # cs) s (s', Some e)"

text \<open>Line 119: \<open>list(self.url_categories)[3:]\<close> over an enumeration of the set.\<close>

definition run_parse_order :: "url list \<Rightarrow> url list" where
  "run_parse_order cats = drop 3 cats"

text \<open>
  Lines 125--126: \<open>EldoradoParser()\<close> (its \<open>__init__\<close> fetches the categories and starts
  with an empty \<open>self.comments\<close>) then \<open>run_parse()\<close>; \<open>fs\<close>, \<open>ds\<close> and the log are
  what is on disk and in the log file before the run.
\<close>

inductive program_run :: "web \<Rightarrow> world \<Rightarrow> world \<times> pyerr option \<Rightarrow> bool"
  for w :: web where
  init_error: "get_url_categories w = Inl e \<Longrightarrow> program_run w s0 (s0, Some e)"
| run: "get_url_categories w = Inr S \<Longrightarrow> distinct cats \<Longrightarrow> set cats = S \<Longrightarrow>
     run_categories w (run_parse_order cats) (s0\<lparr>w_comments := []\<rparr>) r \<Longrightarrow> program_run w s0 r"

subsection \<open>Lemmas\<close>

lemma category_setup_comments:
  "category_setup w c s = (s', x) \<Longrightarrow> w_comments s' = w_comments s"
  by (auto simp: category_setup_def Let_def split: sum.splits if_splits prod.splits option.splits)

lemma category_setup_files:
  "category_setup w c s = (s', x) \<Longrightarrow> w_files s' = w_files s"
  by (auto simp: category_setup_def Let_def split: sum.splits if_splits prod.splits option.splits)

lemma category_outcome_comments:
  assumes "category_outcome w c s (s', None)" and "w_comments s = []"
  shows "w_comments s' = []"
  using assms
proof (cases rule: category_outcome.cases)
  case (skipped)
  with assms(2) show ?thesis by (simp add: category_setup_comments)
next
  case (completed s1 pd n t)
  from completed(2) have "w_comments s1 = []" using assms(2) by (simp add: category_setup_comments)
  with completed(3,4) have "comments t = []" by (auto intro: cat_done_comments)
  with completed(1) show ?thesis by (simp add: world_after_def)
qed

lemma log_info_comments [simp]: "w_comments (log_info m s) = w_comments s"
  by (simp add: log_info_def)

lemma run_categories_comments:
  "run_categories w cs s r \<Longrightarrow> snd r = None \<Longrightarrow> w_comments s = [] \<Longrightarrow> w_comments (fst r) = []"
proof (induction rule: run_categories.induct)
  case (nil s)
  then show ?case by simp
next
  case (ok c s s' cs r)
  then have "w_comments s' = []" by (auto intro: category_outcome_comments)
  with ok show ?case by simp
next
  case (err c s s' e cs)
  then show ?case by simp
qed

text \<open>
  C5. Every run of the program that ends without an exception ends with the parser's
  shared buffer empty; since each category starts from the state the previous one left,
  every category of such a run starts with an empty buffer, so no review crosses from
  one category's files into another's.
\<close>

theorem program_run_buffer_empty:
  assumes "program_run w s0 (s, None)"
  shows "w_comments s = []"
  using assms
proof (cases rule: program_run.cases)
  case (run S cats)
  from run_categories_comments [OF run(4)] show ?thesis by simp
qed

lemma category_setup_dir_exists:
  assumes "http_get w (home_url @ c) [] = Inr r" "status r = 200"
    "category_page_count (body r) = Inr n" "category_name (body r) = Inr nm"
    "path_exists (w_dirs s) (category_dir nm)"
  shows "category_setup w c s = (s, Inl FileExistsError)"
  using assms by (simp add: category_setup_def Let_def os_makedirs_existing)

inductive_cases run_categories_ConsE: "run_categories w (c # cs) s r"

text \<open>
  C13. When a category's output directory already exists, \<open>os.makedirs\<close> raises
  \<open>FileExistsError\<close>, nothing catches it, and \<open>run_parse\<close> stops: no later
  category is crawled and \<open>End parse\<close> is not logged. (The spec says the category is
  skipped and the remaining categories are still crawled.)
\<close>

theorem existing_dir_aborts_run:
  assumes "http_get w (home_url @ c) [] = Inr r" "status r = 200"
    "category_page_count (body r) = Inr n" "category_name (body r) = Inr nm"
    "path_exists (w_dirs s) (category_dir nm)"
    and run: "run_categories w (c # cs) s res"
  shows "res = (log_info (''Run parse '' @ c) s, Some FileExistsError)"
proof -
  define s1 where "s1 = log_info (''Run parse '' @ c) s"
  have "category_setup w c s1 = (s1, Inl FileExistsError)"
    using assms(1-5) unfolding s1_def by (intro category_setup_dir_exists) (simp_all add: log_info_def)
  then have oc: "category_outcome w c s1 x \<longleftrightarrow> x = (s1, Some FileExistsError)" for x
    by (auto elim: category_outcome.cases intro: category_outcome.setup_error)
  from run consider (a) s' where "category_outcome w c s1 (s', None)"
    | (b) s' e where "category_outcome w c s1 (s', Some e)" "res = (s', Some e)"
    by (auto elim: run_categories_ConsE simp: s1_def)
  then show ?thesis
  proof cases
    case (a s')
    with oc show ?thesis by simp
  next
    case (b s' e)
    with oc show ?thesis by (simp add: s1_def)
  qed
qed

text \<open>
  C15. Category discovery, when it does not raise, yields exactly the first occurrence of
  \<open>/c/<slug>/\<close> in the \<open>href\<close> of each \<open>ss\<close> anchor that has one, and each of
  them is an occurrence of that pattern.
\<close>

theorem discovered_categories:
  assumes "get_url_categories w = Inr S"
  shows "S = set (List.map_filter (\<lambda>l. Option.bind (bs_get l ''href'') re_search_cat)
                    (bs_find_all ''a'' (Some ''ss'') (body (projr (http_get w category_urls [])))))
    \<and> (\<forall>m\<in>S. cat_pattern m)"
proof -
  from assms obtain r where r: "http_get w category_urls [] = Inr r"
    and a: "add_category_urls {} (bs_find_all ''a'' (Some ''ss'') (body r)) = Inr S"
    by (auto simp: get_url_categories_def sbind_eq_Inr)
  from a have S: "S = set (List.map_filter (\<lambda>l. Option.bind (bs_get l ''href'') re_search_cat)
                    (bs_find_all ''a'' (Some ''ss'') (body r)))"
    by (simp add: add_category_urls_eq split: if_splits)
  then have "\<forall>m\<in>S. cat_pattern m"
    by (auto simp: mem_map_filter_iff re_search_cat_pattern split: Option.bind_splits)
  with S r show ?thesis by simp
qed

lemma cat_step_log:
  assumes "cat_step w cu pd s c = Some s'"
  shows "\<exists>ws. log s' = log s @ ws \<and> list_all (\<lambda>e. fst e = WARNING) ws"
  using assms
proof (cases rule: cat_step_cases)
  case (fetch i p)
  then show ?thesis by (auto simp: fetch_listing_def fail_task_def split: sum.splits)
next
  case (start i a hs)
  then show ?thesis by (auto simp: start_product_def fail_task_def Let_def split: sum.splits)
next
  case (finish i nm hs u n)
  then show ?thesis by (auto simp: finish_product_def)
next
  case (page j)
  then show ?thesis by (auto simp: run_page_def fail_task_def Let_def split: sum.splits)
qed

lemma cat_reach_log:
  "cat_reach w cu pd s0 s \<Longrightarrow> \<exists>ws. log s = log s0 @ ws \<and> list_all (\<lambda>e. fst e = WARNING) ws"
proof (induction rule: cat_reach.induct)
  case (refl s)
  show ?case by simp
next
  case (step s1 s2 c s3)
  then obtain ws where "log s2 = log s1 @ ws" "list_all (\<lambda>e. fst e = WARNING) ws" by blast
  moreover from step.hyps(2) obtain vs where "log s3 = log s2 @ vs" "list_all (\<lambda>e. fst e = WARNING) vs"
    using cat_step_log by blast
  ultimately show ?case by (intro exI [of _ "ws @ vs"]) simp
qed

lemma info_msgs_warnings [simp]:
  "list_all (\<lambda>e. fst e = WARNING) ws \<Longrightarrow> info_msgs (l @ ws) = info_msgs l"
proof (induction ws)
  case (Cons e ws)
  then show ?case by (cases e) (simp add: info_msgs_def)
qed (simp add: info_msgs_def)

lemma category_setup_log:
  "category_setup w c s = (s', x) \<Longrightarrow> info_msgs (w_log s') = info_msgs (w_log s)"
  by (auto simp: category_setup_def Let_def info_msgs_def split: sum.splits if_splits prod.splits option.splits)

lemma category_outcome_log:
  assumes "category_outcome w c s (s', None)"
  shows "info_msgs (w_log s') = info_msgs (w_log s)"
  using assms
proof (cases rule: category_outcome.cases)
  case skipped
  then show ?thesis by (rule category_setup_log)
next
  case (completed s1 pd n t)
  from completed(3) obtain ws where "log t = w_log s1 @ ws" "list_all (\<lambda>e. fst e = WARNING) ws"
    using cat_reach_log by (fastforce simp: cat_init_def)
  with completed(1,2) show ?thesis by (simp add: world_after_def category_setup_log)
qed

lemma run_categories_log:
  "run_categories w cs s r \<Longrightarrow> snd r = None \<Longrightarrow>
     info_msgs (w_log (fst r)) = info_msgs (w_log s) @ concat (map (\<lambda>c. [''Run parse '' @ c, ''End parse '' @ c]) cs)"
proof (induction rule: run_categories.induct)
  case (nil s)
  then show ?case by simp
next
  case (ok c s s' cs r)
  from ok.hyps(1) have "info_msgs (w_log s') = info_msgs (w_log (log_info (''Run parse '' @ c) s))"
    by (rule category_outcome_log)
  with ok show ?case by (simp add: log_info_def info_msgs_def)
next
  case (err c s s' e cs)
  then show ?case by simp
qed

text \<open>
  C21. The categories are crawled one after the other: in a run of the program that
  ends without an exception, the INFO messages are exactly \<open>Run parse c\<close> followed by
  \<open>End parse c\<close> for each category \<open>c\<close> of \<open>list(self.url_categories)[3:]\<close>, in that
  order, for some enumeration of the discovered set; a category run logs warnings only.
\<close>

theorem program_run_log_order:
  assumes "program_run w s0 (s, None)"
  shows "\<exists>cats. get_url_categories w = Inr (set cats) \<and> distinct cats \<and>
           info_msgs (w_log s) = info_msgs (w_log s0) @
             concat (map (\<lambda>c. [''Run parse '' @ c, ''End parse '' @ c]) (run_parse_order cats))"
  using assms
proof (cases rule: program_run.cases)
  case (run S cats)
  from run_categories_log [OF run(4)] run(1-3) show ?thesis by auto
qed


text \<open>
  C14. \<open>run_parse\<close> skips exactly three of the discovered categories (line 119,
  \<open>list(self.url_categories)[3:]\<close>): a run of the program that ends without an exception
  crawls, one after the other, \<open>card S - 3\<close> distinct categories of the discovered set
  \<open>S\<close>, so that three of them (all of them, when there are at most three) are never crawled.
\<close>

theorem run_parse_skips_three:
  assumes "program_run w s0 (s, None)" "get_url_categories w = Inr S"
  shows "\<exists>cs. info_msgs (w_log s) = info_msgs (w_log s0) @
             concat (map (\<lambda>c. [''Run parse '' @ c, ''End parse '' @ c]) cs) \<and>
           distinct cs \<and> set cs \<subseteq> S \<and> length cs = card S - 3 \<and> card (S - set cs) = min 3 (card S)"
  using assms(1)
proof (cases rule: program_run.cases)
  case (run S' cats)
  with assms(2) have S: "S = set cats" by simp
  have msgs: "info_msgs (w_log s) = info_msgs (w_log s0) @
             concat (map (\<lambda>c. [''Run parse '' @ c, ''End parse '' @ c]) (run_parse_order cats))"
    using run_categories_log [OF run(4)] by simp
  have d: "distinct (run_parse_order cats)" using run(2) by (simp add: run_parse_order_def)
  have sub: "set (run_parse_order cats) \<subseteq> S" using S by (simp add: run_parse_order_def set_drop_subset)
  have len: "length (run_parse_order cats) = card S - 3"
    using S run(2) by (simp add: run_parse_order_def distinct_card)
  have "card (S - set (run_parse_order cats)) = card S - card (set (run_parse_order cats))"
    using sub S by (simp add: card_Diff_subset)
  also have "\<dots> = min 3 (card S)" using len d by (simp add: distinct_card)
  finally show ?thesis using msgs d sub len by blast
qed

lemma get_url_categories_page:
  "w (mk_request category_urls []) = Some r \<Longrightarrow>
     get_url_categories w = add_category_urls {} (bs_find_all ''a'' (Some ''ss'') (body r))"
  by (simp add: get_url_categories_def http_get_def)

text \<open>
  C30. The catalogue request of \<open>get_url_categories\<close> (line 33) is not checked for its
  status: an error page (a 503, say) without category links is parsed like the
  catalogue, yields no category, and the program ends normally having crawled nothing,
  written nothing and, with the logging configuration of C23, reported nothing.
\<close>

theorem catalogue_error_page_silent:
  assumes "w (mk_request category_urls []) = Some r" and "bs_find_all ''a'' (Some ''ss'') (body r) = []"
  shows "program_run w s0 res \<longleftrightarrow> res = (s0\<lparr>w_comments := []\<rparr>, None)"
proof -
  have g: "get_url_categories w = Inr {}"
    using assms by (simp add: get_url_categories_page)
  show ?thesis
  proof
    assume "program_run w s0 res"
    then show "res = (s0\<lparr>w_comments := []\<rparr>, None)"
    proof (cases rule: program_run.cases)
      case (init_error e)
      with g show ?thesis by simp
    next
      case (run S cats)
      with g have "cats = []" by simp
      with run(4) have "run_categories w [] (s0\<lparr>w_comments := []\<rparr>) res"
        by (simp add: run_parse_order_def)
      then show ?thesis by (cases rule: run_categories.cases) simp_all
    qed
  next
    assume res: "res = (s0\<lparr>w_comments := []\<rparr>, None)"
    have "run_categories w (run_parse_order []) (s0\<lparr>w_comments := []\<rparr>) (s0\<lparr>w_comments := []\<rparr>, None)"
      by (simp add: run_parse_order_def run_categories.nil)
    with g res show "program_run w s0 res" by (auto intro: program_run.run [where cats = "[]"])
  qed
qed

subsection \<open>Output directories\<close>

lemma category_setup_page:
  assumes "http_get w (home_url @ c) [] = Inr r" "status r = 200"
    "category_page_count (body r) = Inr n" "category_name (body r) = Inr nm"
  shows "category_setup w c s =
    (case os_makedirs (w_dirs s) (category_dir nm) of
       (D', None) \<Rightarrow> (s\<lparr>w_dirs := D'\<rparr>, Inr (Some (category_dir nm, n)))
     | (D', Some e) \<Rightarrow> (s\<lparr>w_dirs := D'\<rparr>, Inl e))"
  using assms by (simp add: category_setup_def Let_def)

lemma category_dir_join: "cs \<noteq> [] \<Longrightarrow> category_dir (join_slash cs) = join_slash (''reviews'' # cs)"
  by (simp add: join_slash_Cons category_dir_def)

lemma normal_reviews [simp]: "normal_name ''reviews''"
  by (simp add: normal_name_def)

lemma category_setup_plain_dirs:
  assumes "http_get w (home_url @ c) [] = Inr r" "status r = 200"
    "category_page_count (body r) = Inr n" "category_name (body r) = Inr (join_slash cs)"
    "cs \<noteq> []" "list_all normal_name cs" "wf_dirs (w_dirs s)"
  shows "category_setup w c s =
     (if ''reviews'' # cs \<in> w_dirs s then (s, Inl FileExistsError)
      else (s\<lparr>w_dirs := w_dirs s \<union> prefixes_of (''reviews'' # cs)\<rparr>,
            Inr (Some (category_dir (join_slash cs), n))))"
  using os_makedirs_plain [OF assms(7), of "''reviews'' # cs"] assms
  by (simp add: category_setup_page category_dir_join)

lemma category_setup_dirs_cases:
  "category_setup w c s = (s', x) \<Longrightarrow>
     w_dirs s' = w_dirs s \<or> (\<exists>nm. w_dirs s' = fst (os_makedirs (w_dirs s) (category_dir nm)))"
  by (auto simp: category_setup_def Let_def split: sum.splits if_splits prod.splits option.splits)
    (metis fst_conv)+

lemma category_setup_dirs:
  assumes "category_setup w c s = (s', x)" "wf_dirs (w_dirs s)"
  shows "wf_dirs (w_dirs s') \<and> w_dirs s \<subseteq> w_dirs s'"
  using category_setup_dirs_cases [OF assms(1)] os_makedirs_wf [OF assms(2)] os_makedirs_mono [of "w_dirs s"]
    assms(2) by auto

lemma log_info_dirs [simp]: "w_dirs (log_info m s) = w_dirs s"
  by (simp add: log_info_def)

lemma category_outcome_normal:
  assumes "category_outcome w c s (s', None)"
  obtains s1 y where "category_setup w c s = (s1, Inr y)" "w_dirs s' = w_dirs s1"
  using assms by (cases rule: category_outcome.cases) (auto simp: world_after_def)

text \<open>
  C31. Line 109 on a category name made of plain components (no empty, \<open>.\<close> or \<open>..\<close>
  component): \<open>os.makedirs('reviews/' + name)\<close> either raises \<open>FileExistsError\<close>, when
  that directory exists, and changes nothing, or creates exactly the directories on the
  way to it that are missing, \<open>reviews\<close> included, and the category's listing tasks
  start in it.
\<close>

theorem category_setup_creates_dirs:
  assumes "http_get w (home_url @ c) [] = Inr r" "status r = 200"
    "category_page_count (body r) = Inr n" "category_name (body r) = Inr (join_slash cs)"
    "cs \<noteq> []" "list_all normal_name cs" "wf_dirs (w_dirs s)"
  shows "category_setup w c s =
     (if ''reviews'' # cs \<in> w_dirs s then (s, Inl FileExistsError)
      else (s\<lparr>w_dirs := w_dirs s \<union> prefixes_of (''reviews'' # cs)\<rparr>,
            Inr (Some (category_dir (join_slash cs), n))))"
  using assms by (rule category_setup_plain_dirs)

lemma json_name_normal: "CHR ''/'' \<notin> set f \<Longrightarrow> normal_name (f @ ''.json'')"
  by (auto simp: normal_name_def dest: arg_cong [of _ _ length])

lemma category_dir_up: "category_dir (''../'' @ x) = ''reviews'' @ ''/../'' @ x"
  by (simp add: category_dir_def)

lemma product_file_split:
  assumes "normal_name x" "CHR ''/'' \<notin> set f"
  shows "split_slash (product_file (category_dir (''../'' @ x)) f) = [''reviews'', ''..'', x, f @ ''.json'']"
proof -
  have "product_file (category_dir (''../'' @ x)) f = (''reviews'' @ ''/../'' @ x) @ CHR ''/'' # (f @ ''.json'')"
    by (simp add: product_file_def category_dir_def)
  moreover have "split_slash (f @ ''.json'') = [f @ ''.json'']"
    using assms(2) by (simp add: split_slash_single)
  ultimately show ?thesis
    by (simp only: split_slash_append split_slash_up [OF normal_reviews assms(1)]) simp
qed

text \<open>
  C32. The category name read at line 107 is not sanitised, unlike the product name
  of line 77: a category titled \<open>../x\<close> makes line 109 create the directory \<open>x\<close> next
  to \<open>reviews\<close> (and \<open>reviews\<close> itself), and every file that category's run writes lands
  in \<open>x\<close>, outside the \<open>reviews\<close> tree of the spec's output layout.
\<close>

theorem category_name_escapes_reviews:
  assumes "http_get w (home_url @ c) [] = Inr r" "status r = 200"
    "category_page_count (body r) = Inr n" "category_name (body r) = Inr (''../'' @ x)"
    "normal_name x" "x \<noteq> ''reviews''" "[x] \<notin> w_dirs s"
    and reach: "cat_reach w (home_url @ c) (category_dir (''../'' @ x))
                  (cat_init n (w_comments s) (w_files s) (w_log s)) t"
    and changed: "files t p \<noteq> w_files s p"
  shows "category_setup w c s =
           (s\<lparr>w_dirs := insert [x] (insert [''reviews''] (w_dirs s))\<rparr>, Inr (Some (category_dir (''../'' @ x), n)))
         \<and> (\<exists>f. walk (insert [x] (insert [''reviews''] (w_dirs s))) [] (split_slash p) = Some [x, f])"
proof
  have mk: "os_makedirs (w_dirs s) (category_dir (''../'' @ x)) =
              (insert [x] (insert [''reviews''] (w_dirs s)), None)"
    unfolding category_dir_up using assms(5-7) by (rule os_makedirs_up [OF normal_reviews])
  then show "category_setup w c s =
           (s\<lparr>w_dirs := insert [x] (insert [''reviews''] (w_dirs s))\<rparr>, Inr (Some (category_dir (''../'' @ x), n)))"
    using assms(1-4) by (simp add: category_setup_page)
next
  obtain f where f: "p = product_file (category_dir (''../'' @ x)) f" "CHR ''/'' \<notin> set f"
    using cat_written_file [OF reach changed] by blast
  have "normal_name (f @ ''.json'')" using f(2) by (rule json_name_normal)
  moreover have "x \<noteq> ''..''" "x \<noteq> []" "x \<noteq> ''.''" using assms(5) by (simp_all add: normal_name_def)
  ultimately have "walk (insert [x] (insert [''reviews''] (w_dirs s))) [] [''reviews'', ''..'', x, f @ ''.json'']
      = Some [x, f @ ''.json'']"
    using assms(5) by (simp add: is_dir_def step_comp_def)
  then show "\<exists>f. walk (insert [x] (insert [''reviews''] (w_dirs s))) [] (split_slash p) = Some [x, f]"
    using product_file_split [OF assms(5) f(2)] f(1) by auto
qed

text \<open>
  C33. Category names are used as paths, so a category titled \<open>nm/sub\<close> creates the
  directory of a category titled \<open>nm\<close>: when the first is crawled before the second,
  whatever the first category's run does, \<open>run_parse\<close> cannot end normally (the second
  category's \<open>os.makedirs\<close> raises \<open>FileExistsError\<close>, if nothing raised before).
\<close>

theorem nested_category_aborts_run:
  assumes "http_get w (home_url @ c1) [] = Inr r1" "status r1 = 200"
    "category_page_count (body r1) = Inr n1" "category_name (body r1) = Inr (nm @ ''/'' @ sub)"
    "http_get w (home_url @ c2) [] = Inr r2" "status r2 = 200"
    "category_page_count (body r2) = Inr n2" "category_name (body r2) = Inr nm"
    "normal_name nm" "normal_name sub" "wf_dirs (w_dirs s)"
    and run: "run_categories w [c1, c2] s res"
  shows "snd res \<noteq> None"
proof -
  define s1 where "s1 = log_info (''Run parse '' @ c1) s"
  from run consider (ok) s' where "category_outcome w c1 s1 (s', None)"
      "run_categories w [c2] (log_info (''End parse '' @ c1) s') res"
    | (err) s' e where "res = (s', Some e)"
    by (auto elim: run_categories_ConsE simp: s1_def)
  then show ?thesis
  proof cases
    case err
    then show ?thesis by simp
  next
    case (ok s')
    from ok(1) obtain s1' y where su: "category_setup w c1 s1 = (s1', Inr y)" and d: "w_dirs s' = w_dirs s1'"
      by (rule category_outcome_normal)
    have nm1: "category_name (body r1) = Inr (join_slash [nm, sub])" using assms(4) by simp
    have wf1: "wf_dirs (w_dirs s1)" using assms(11) by (simp add: s1_def)
    have "[''reviews'', nm, sub] \<notin> w_dirs s1 \<and> w_dirs s1' = w_dirs s1 \<union> prefixes_of [''reviews'', nm, sub]"
      using category_setup_plain_dirs [OF assms(1-3) nm1 _ _ wf1] su assms(9,10)
      by (auto split: if_splits)
    then have "[''reviews'', nm] \<in> w_dirs s1'" by (auto simp: mem_prefixes_of intro: exI [of _ 2])
    moreover have "wf_dirs (w_dirs s1')" using category_setup_dirs [OF su wf1] by simp
    ultimately have "path_exists (w_dirs s1') (category_dir nm)"
      using path_exists_plain [of "w_dirs s1'" "[''reviews'', nm]"] assms(9) category_dir_join [of "[nm]"]
      by simp
    then have "category_setup w c2 (log_info (''Run parse '' @ c2) (log_info (''End parse '' @ c1) s')) =
        (log_info (''Run parse '' @ c2) (log_info (''End parse '' @ c1) s'), Inl FileExistsError)"
      using d by (intro category_setup_dir_exists [OF assms(5-8)]) simp
    with ok(2) show ?thesis
      by (auto elim!: run_categories_ConsE category_outcome_normal)
  qed
qed

lemma category_setup_Some:
  assumes "category_setup w c s = (s', Inr (Some (pd, n)))"
  shows "\<exists>nm. pd = category_dir nm \<and> os_makedirs (w_dirs s) pd = (w_dirs s', None)"
  using assms
  by (auto simp: category_setup_def Let_def split: sum.splits if_splits prod.splits option.splits)

lemma product_file_split_slash:
  "CHR ''/'' \<notin> set f \<Longrightarrow> split_slash (product_file pd f) = split_slash pd @ [f @ ''.json'']"
  by (simp add: product_file_def split_slash_append split_slash_single)

text \<open>
  C34. When the setup of a category succeeds, its output directory exists afterwards,
  whatever directories existed before (\<open>os.makedirs\<close> creates the missing ones on the way),
  so the \<open>open(f"{path_dir}/{product_name}.json", 'w')\<close> of line 84 finds every directory
  of its path for every sanitised product name.
\<close>

theorem category_dir_ready:
  assumes "category_setup w c s = (s', Inr (Some (pd, n)))" and "CHR ''/'' \<notin> set f"
  shows "path_exists (w_dirs s') pd \<and> (\<exists>q. walk (w_dirs s') [] (split_slash (product_file pd f)) = Some q)"
proof -
  obtain nm where pd: "pd = category_dir nm" and mk: "os_makedirs (w_dirs s) pd = (w_dirs s', None)"
    using category_setup_Some [OF assms(1)] by blast
  have "pd \<noteq> []" by (simp add: pd category_dir_def)
  from os_makedirs_post [OF this, of "w_dirs s"] mk have ex: "path_exists (w_dirs s') pd" by simp
  then obtain q where "walk (w_dirs s') [] (split_slash pd) = Some q" "is_dir (w_dirs s') q"
    by (auto simp: path_exists_def split: option.splits)
  then have "walk (w_dirs s') [] (split_slash (product_file pd f)) = Some (step_comp q (f @ ''.json''))"
    using assms(2) by (simp add: product_file_split_slash walk_append)
  with ex show ?thesis by blast
qed

subsection \<open>Every run of the program can end\<close>

lemma category_outcome_exists: "\<exists>r. category_outcome w c s r"
proof -
  obtain s' x where su: "category_setup w c s = (s', x)" by fastforce
  show ?thesis
  proof (cases x)
    case (Inl e)
    with su show ?thesis by (blast intro: category_outcome.setup_error)
  next
    case (Inr y)
    show ?thesis
    proof (cases y)
      case None
      with su Inr show ?thesis by (blast intro: category_outcome.skipped)
    next
      case (Some a)
      then obtain pd n where a: "y = Some (pd, n)" by (cases a) auto
      let ?s0 = "cat_init n (w_comments s') (w_files s') (w_log s')"
      obtain sch t where rs: "run_sched w (home_url @ c) pd ?s0 sch = Some t"
        and fin: "cat_done t \<or> failure t \<noteq> None"
        using cat_run_completes [OF cat_reach.refl] by blast
      have reach: "cat_reach w (home_url @ c) pd ?s0 t" using rs by (rule run_sched_reach)
      from su Inr a have su': "category_setup w c s = (s', Inr (Some (pd, n)))" by simp
      from fin show ?thesis
      proof
        assume "cat_done t"
        with su' reach show ?thesis by (blast intro: category_outcome.completed)
      next
        assume "failure t \<noteq> None"
        then obtain e where "failure t = Some e" by blast
        with su' reach show ?thesis by (blast intro: category_outcome.raised)
      qed
    qed
  qed
qed

lemma run_categories_exists: "\<exists>r. run_categories w cs s r"
proof (induction cs arbitrary: s)
  case Nil
  show ?case by (blast intro: run_categories.nil)
next
  case (Cons c cs)
  obtain r where oc: "category_outcome w c (log_info (''Run parse '' @ c) s) r"
    using category_outcome_exists by blast
  show ?case
  proof (cases "snd r")
    case None
    with oc have "category_outcome w c (log_info (''Run parse '' @ c) s) (fst r, None)"
      by (metis prod.collapse)
    moreover obtain r' where "run_categories w cs (log_info (''End parse '' @ c) (fst r)) r'"
      using Cons.IH by blast
    ultimately show ?thesis by (blast intro: run_categories.ok)
  next
    case (Some e)
    with oc have "category_outcome w c (log_info (''Run parse '' @ c) s) (fst r, Some e)"
      by (metis prod.collapse)
    then show ?thesis by (blast intro: run_categories.err)
  qed
qed

lemma get_url_categories_finite: "get_url_categories w = Inr S \<Longrightarrow> finite S"
  by (auto simp: get_url_categories_def sbind_eq_Inr add_category_urls_eq split: if_splits)

text \<open>
  C35. The whole program always has a complete run: for every site and every initial
  disk and log, discovery, the enumeration of the category set, every category's setup
  and concurrent crawl, and the loop of \<open>run_parse\<close> can be carried to an end, normal
  or by an exception (with C16, no interleaving runs forever).
\<close>

theorem program_run_ends: "\<exists>r. program_run w s0 r"
proof (cases "get_url_categories w")
  case (Inl e)
  then show ?thesis by (blast intro: program_run.init_error)
next
  case (Inr S)
  then have "finite S" by (rule get_url_categories_finite)
  then obtain cats where cats: "distinct cats" "set cats = S" using finite_distinct_list by blast
  obtain r where "run_categories w (run_parse_order cats) (s0\<lparr>w_comments := []\<rparr>) r"
    using run_categories_exists by blast
  with Inr cats show ?thesis by (blast intro: program_run.run)
qed

end
