(* ===== verification/Category_Wf.thy ===== *)
theory Category_Wf
  imports Category_Run
begin

text \<open>
  The shape of a category run's state that every interleaving keeps (\<open>wf_cstate\<close>):
  the listing tasks are the \<open>range(count_page)\<close> tasks of \<open>_queue_parse_category\<close>,
  each pending review-page task was created by \<open>_queue_parse_comments\<close> for the product
  its listing task is gathering (or that task has died since), with a page number of
  \<open>range(count_pages)\<close> plus one, and no page is pending twice. From it, the bound on the
  review-page tasks pending for one product.
\<close>

definition ptask_wf :: "ltask list \<Rightarrow> ptask \<Rightarrow> bool" where
  "ptask_wf ls pt \<longleftrightarrow> p_owner pt < length ls \<and>
     (case ls ! p_owner pt of
        LGather u n nm hs \<Rightarrow> p_url pt = u \<and> 1 \<le> p_page pt \<and> int (p_page pt) \<le> n
      | LDead \<Rightarrow> True
      | _ \<Rightarrow> False)"

definition wf_cstate :: "nat \<Rightarrow> cstate \<Rightarrow> bool" where
  "wf_cstate m s \<longleftrightarrow> length (ltasks s) = m \<and> list_all (ptask_wf (ltasks s)) (ptasks s) \<and>
     distinct (map (\<lambda>pt. (p_owner pt, p_page pt)) (ptasks s))"

lemma ptask_wf_dead: "ptask_wf ls pt \<Longrightarrow> ptask_wf (ls[i := LDead]) pt"
  by (cases "p_owner pt = i") (auto simp: ptask_wf_def)

lemma ptask_wf_other: "ptask_wf ls pt \<Longrightarrow> p_owner pt \<noteq> i \<Longrightarrow> ptask_wf (ls[i := t]) pt"
  by (simp add: ptask_wf_def)

lemma wf_owner_not_gathering:
  assumes "list_all (ptask_wf ls) ps" "i < length ls"
    "\<not> is_gather (ls ! i)" "ls ! i \<noteq> LDead"
  shows "list_all (\<lambda>pt. p_owner pt \<noteq> i) ps"
  unfolding list_all_iff
proof
  fix pt assume "pt \<in> set ps"
  with assms(1) have "ptask_wf ls pt" by (simp add: list_all_iff)
  with assms(3,4) show "p_owner pt \<noteq> i"
    by (cases "ls ! i") (auto simp: ptask_wf_def)
qed

lemma wf_fail: "wf_cstate m s \<Longrightarrow> wf_cstate m (fail_task i e s)"
  by (auto simp: wf_cstate_def list_all_iff intro: ptask_wf_dead)

lemma wf_update_free:
  assumes "wf_cstate m s" "list_all (\<lambda>pt. p_owner pt \<noteq> i) (ptasks s)"
    "ltasks s' = (ltasks s)[i := t]" "ptasks s' = ptasks s"
  shows "wf_cstate m s'"
  using assms by (auto simp: wf_cstate_def list_all_iff intro: ptask_wf_other)

lemma page_tasks_wf:
  assumes "i < length ls" "ls ! i = LGather u n nm hs"
  shows "list_all (ptask_wf ls) (page_tasks i u n)"
  using assms by (auto simp: page_tasks_def ptask_wf_def list_all_iff py_range1_def)

lemma distinct_page_tasks: "distinct (map (\<lambda>pt. (p_owner pt, p_page pt)) (page_tasks i u n))"
  by (simp add: page_tasks_def comp_def distinct_map inj_on_def py_range1_def)

lemma wf_remove_page:
  assumes "wf_cstate m s"
  shows "wf_cstate m (s\<lparr>ptasks := take j (ptasks s) @ drop (Suc j) (ptasks s)\<rparr>)"
proof -
  let ?f = "\<lambda>pt. (p_owner pt, p_page pt)"
  from assms have "distinct (map ?f (ptasks s))" by (simp add: wf_cstate_def)
  then have "distinct (take j (map ?f (ptasks s)) @ drop (Suc j) (map ?f (ptasks s)))"
    by (rule distinct_remove_nth)
  then have "distinct (map ?f (take j (ptasks s) @ drop (Suc j) (ptasks s)))"
    by (simp add: take_map drop_map)
  with assms set_remove_nth_subset [of j "ptasks s"] show ?thesis
    by (auto simp: wf_cstate_def list_all_iff)
qed

lemma cat_step_wf:
  assumes step: "cat_step w cu pd s c = Some s'" and wf: "wf_cstate m s"
  shows "wf_cstate m s'"
  using step
proof (cases rule: cat_step_cases)
  case (fetch i p)
  from wf fetch(2,3) have free: "list_all (\<lambda>pt. p_owner pt \<noteq> i) (ptasks s)"
    by (intro wf_owner_not_gathering [of "ltasks s"]) (simp_all add: wf_cstate_def)
  from wf have "wf_cstate m (fail_task i e s)" for e by (rule wf_fail)
  with fetch(1) wf free show ?thesis
    by (auto simp: fetch_listing_def split: sum.splits intro: wf_update_free)
next
  case (start i a hs)
  from wf start(2,3) have free: "list_all (\<lambda>pt. p_owner pt \<noteq> i) (ptasks s)"
    by (intro wf_owner_not_gathering [of "ltasks s"]) (simp_all add: wf_cstate_def)
  from wf have f: "wf_cstate m (fail_task i e s)" for e by (rule wf_fail)
  have g: "wf_cstate m (s\<lparr>ltasks := (ltasks s)[i := LGather u n nm hs], ptasks := ptasks s @ page_tasks i u n\<rparr>)"
    for u n nm
  proof -
    let ?ls = "(ltasks s)[i := LGather u n nm hs]"
    have old: "list_all (ptask_wf ?ls) (ptasks s)"
      using wf free by (auto simp: wf_cstate_def list_all_iff intro: ptask_wf_other)
    have new: "list_all (ptask_wf ?ls) (page_tasks i u n)"
      using start(2) by (intro page_tasks_wf) simp_all
    have "set (map (\<lambda>pt. (p_owner pt, p_page pt)) (ptasks s)) \<inter>
          set (map (\<lambda>pt. (p_owner pt, p_page pt)) (page_tasks i u n)) = {}"
      using free by (auto simp: page_tasks_def list_all_iff)
    with wf old new distinct_page_tasks [of i u n] show ?thesis
      by (simp add: wf_cstate_def)
  qed
  show ?thesis
  proof (cases "http_get w (product_url (href_str a)) show_params")
    case (Inl e)
    with start(1) f show ?thesis by (simp add: start_product_def)
  next
    case (Inr r)
    have l: "wf_cstate m (s\<lparr>log := log s @ [x], ltasks := (ltasks s)[i := LLoop hs]\<rparr>)" for x
      using wf free by (rule wf_update_free) simp_all
    with Inr start(1) f g show ?thesis
      by (auto simp: start_product_def Let_def split: sum.splits)
  qed
next
  case (finish i nm hs u n)
  from finish(4) have free: "list_all (\<lambda>pt. p_owner pt \<noteq> i) (ptasks s)"
    by (simp add: owns_pending_def list_all_iff list_ex_iff)
  from finish(1) wf free show ?thesis
    by (auto simp: finish_product_def intro: wf_update_free)
next
  case (page j)
  let ?s' = "s\<lparr>ptasks := take j (ptasks s) @ drop (Suc j) (ptasks s)\<rparr>"
  from wf have r: "wf_cstate m ?s'" by (rule wf_remove_page)
  then have "wf_cstate m (fail_task i e ?s')" for i e by (rule wf_fail)
  with r page(2) show ?thesis
    by (auto simp: run_page_def Let_def wf_cstate_def split: sum.splits)
qed

lemma cat_reach_wf: "cat_reach w cu pd s0 s \<Longrightarrow> wf_cstate m s0 \<Longrightarrow> wf_cstate m s"
  by (induction rule: cat_reach.induct) (auto intro: cat_step_wf)

lemma wf_cat_init: "wf_cstate (nat n) (cat_init n cs fs lg)"
  by (simp add: wf_cstate_def cat_init_def py_range1_def)

lemma owned_pages_distinct:
  assumes "distinct (map (\<lambda>pt. (p_owner pt, p_page pt)) ps)"
  shows "distinct (map p_page (filter (\<lambda>pt. p_owner pt = i) ps))"
proof -
  have "distinct (map (\<lambda>pt. (p_owner pt, p_page pt)) (filter (\<lambda>pt. p_owner pt = i) ps))"
    using assms by (simp add: distinct_map_filter)
  then show ?thesis
    by (auto simp: distinct_map inj_on_def)
qed

lemma owned_pages_range:
  assumes "list_all (ptask_wf ls) ps" "ls ! i = LGather u k nm hs"
  shows "set (map p_page (filter (\<lambda>pt. p_owner pt = i) ps)) \<subseteq> {1..nat k}"
proof
  fix x assume "x \<in> set (map p_page (filter (\<lambda>pt. p_owner pt = i) ps))"
  then obtain pt where pt: "pt \<in> set ps" "p_owner pt = i" "x = p_page pt" by auto
  with assms(1) have "ptask_wf ls pt" by (simp add: list_all_iff)
  with pt assms(2) have "1 \<le> p_page pt" "int (p_page pt) \<le> k" by (simp_all add: ptask_wf_def)
  with pt show "x \<in> {1..nat k}" by (simp add: le_nat_iff)
qed

text \<open>
  C24. Every reachable state of a category run is well formed: there are as many
  listing tasks as listing pages; every pending review-page task belongs to a listing
  task that is gathering that very product (its URL) with the page number in
  \<open>1..count\<close>, or to one that has died; and no two pending tasks fetch the same page of
  the same product.
\<close>

theorem cat_reach_well_formed:
  assumes "cat_reach w cu pd (cat_init n cs fs lg) s"
  shows "wf_cstate (nat n) s"
  using assms wf_cat_init by (rule cat_reach_wf)

text \<open>
  C25. The review-page tasks pending for a product never outnumber its page count:
  while listing task \<open>i\<close> gathers a product with \<open>count_pages = k\<close>, at most \<open>max 0 k\<close>
  of its page tasks are in the pool, in any interleaving.
\<close>

theorem pending_pages_bounded:
  assumes "cat_reach w cu pd (cat_init n cs fs lg) s" and "ltasks s ! i = LGather u k nm hs"
  shows "length (filter (\<lambda>pt. p_owner pt = i) (ptasks s)) \<le> nat k"
proof -
  from assms(1) wf_cat_init have wf: "wf_cstate (nat n) s" by (rule cat_reach_wf)
  let ?pg = "map p_page (filter (\<lambda>pt. p_owner pt = i) (ptasks s))"
  from wf have "distinct ?pg" by (simp add: wf_cstate_def owned_pages_distinct)
  then have "length ?pg = card (set ?pg)" by (simp only: distinct_card)
  also have "card (set ?pg) \<le> card {1..nat k}"
  proof (rule card_mono)
    from wf have "list_all (ptask_wf (ltasks s)) (ptasks s)" by (simp add: wf_cstate_def)
    from owned_pages_range [OF this assms(2)] show "set ?pg \<subseteq> {1..nat k}" .
  qed simp
  finally show ?thesis by simp
qed

end
