(* ===== verification/Category_Serial.thy ===== *)
theory Category_Serial
  imports Category_Liveness
begin

text \<open>
  The spec's product crawler as an abstract model and the schedules under which the
  code implements it. The spec (section 4.4) merges the reviews of all pages of a product
  into a buffer of its own and persists that buffer as \<open><dir>/<name>.json\<close> when it is
  non-empty (\<open>spec_write\<close>); seen through \<open>abs_files\<close> (each file as the multiset of
  its reviews), that is the abstract step of resuming a gathering listing task, and every
  other choice of the event loop is a stutter (\<open>spec_effect\<close>). The code shares one
  buffer between products (C2), so the refinement holds for the schedules that keep one
  product in flight: \<open>serial_ok\<close> refuses to start a product while another one is
  gathering, \<open>serial_reach\<close> and \<open>run_serial\<close> are reachability and runs under that
  restriction. The invariant \<open>serial_inv\<close> says that, as long as nothing has raised, the
  run is \<open>idle\<close> (no product gathering, no page pending, empty buffer) or \<open>busy\<close> with
  exactly one product, whose pending pages and buffer add up to its pages' reviews.
  Over a whole run, \<open>serial_trace\<close> lists the products persisted in the order their
  listing tasks resumed, and \<open>spec_files\<close> is the spec's files after persisting them.
\<close>

definition starts_product :: "cstate \<Rightarrow> choice \<Rightarrow> bool" where
  "starts_product s c =
     (case c of
        RunListing i \<Rightarrow> i < length (ltasks s) \<and> (case ltasks s ! i of LLoop (a # hs) \<Rightarrow> True | _ \<Rightarrow> False)
      | RunPage j \<Rightarrow> False)"

definition serial_ok :: "cstate \<Rightarrow> choice \<Rightarrow> bool" where
  "serial_ok s c = (if starts_product s c then \<not> list_ex is_gather (ltasks s) else True)"

fun run_serial :: "web \<Rightarrow> url \<Rightarrow> path \<Rightarrow> cstate \<Rightarrow> choice list \<Rightarrow> cstate option" where
  "run_serial w cu pd s [] = Some s"
| "run_serial w cu pd s (c # cs) =
     (if serial_ok s c then
        (case cat_step w cu pd s c of None \<Rightarrow> None | Some s' \<Rightarrow> run_serial w cu pd s' cs)
      else None)"

inductive serial_reach :: "web \<Rightarrow> url \<Rightarrow> path \<Rightarrow> cstate \<Rightarrow> cstate \<Rightarrow> bool"
  for w :: web and cu :: url and pd :: path where
  refl: "serial_reach w cu pd s s"
| step: "serial_reach w cu pd s0 s \<Longrightarrow> serial_ok s c \<Longrightarrow> cat_step w cu pd s c = Some s' \<Longrightarrow>
     serial_reach w cu pd s0 s'"

definition abs_files :: "cstate \<Rightarrow> path \<Rightarrow> review multiset option" where
  "abs_files s p = map_option mset (files s p)"

definition spec_write :: "path \<Rightarrow> web \<Rightarrow> url \<Rightarrow> int \<Rightarrow> string \<Rightarrow> (path \<Rightarrow> review multiset option) \<Rightarrow>
    path \<Rightarrow> review multiset option" where
  "spec_write pd w u k nm F =
     (let m = (\<Sum>k'\<leftarrow>py_range1 k. page_mset w u k') in if m = {#} then F else F(product_file pd nm \<mapsto> m))"

definition spec_effect :: "web \<Rightarrow> path \<Rightarrow> cstate \<Rightarrow> choice \<Rightarrow> path \<Rightarrow> review multiset option" where
  "spec_effect w pd s c =
     (case c of
        RunListing i \<Rightarrow>
          (if i < length (ltasks s) then
             (case ltasks s ! i of LGather u k nm hs \<Rightarrow> spec_write pd w u k nm (abs_files s) | _ \<Rightarrow> abs_files s)
           else abs_files s)
      | RunPage j \<Rightarrow> abs_files s)"

definition only_gather :: "nat \<Rightarrow> ltask list \<Rightarrow> bool" where
  "only_gather g ls \<longleftrightarrow> (\<forall>i<length ls. i \<noteq> g \<longrightarrow> \<not> is_gather (ls ! i))"

definition busy :: "web \<Rightarrow> cstate \<Rightarrow> nat \<Rightarrow> bool" where
  "busy w s g \<longleftrightarrow> g < length (ltasks s) \<and> only_gather g (ltasks s) \<and>
     (case ltasks s ! g of
        LGather u k nm hs \<Rightarrow> list_all (\<lambda>pt. p_owner pt = g \<and> p_url pt = u) (ptasks s) \<and>
          mset (comments s) + (\<Sum>pt\<leftarrow>ptasks s. page_mset w u (p_page pt)) = (\<Sum>k'\<leftarrow>py_range1 k. page_mset w u k')
      | _ \<Rightarrow> False)"

definition idle :: "cstate \<Rightarrow> bool" where
  "idle s \<longleftrightarrow> list_all (\<lambda>t. \<not> is_gather t) (ltasks s) \<and> ptasks s = [] \<and> comments s = []"

definition serial_inv :: "web \<Rightarrow> cstate \<Rightarrow> bool" where
  "serial_inv w s \<longleftrightarrow> failure s = None \<longrightarrow> idle s \<or> (\<exists>g. busy w s g)"

text \<open>The product a choice persists, if it resumes a gathering listing task.\<close>

definition finish_of :: "cstate \<Rightarrow> choice \<Rightarrow> (url \<times> int \<times> string) option" where
  "finish_of s c =
     (case c of
        RunListing i \<Rightarrow>
          (if i < length (ltasks s) then
             (case ltasks s ! i of LGather u k nm hs \<Rightarrow> Some (u, k, nm) | _ \<Rightarrow> None)
           else None)
      | RunPage j \<Rightarrow> None)"

text \<open>The products persisted along a schedule, in the order their listing tasks resumed.\<close>

fun serial_trace :: "web \<Rightarrow> url \<Rightarrow> path \<Rightarrow> cstate \<Rightarrow> choice list \<Rightarrow> (url \<times> int \<times> string) list" where
  "serial_trace w cu pd s [] = []"
| "serial_trace w cu pd s (c # cs) =
     (case cat_step w cu pd s c of
        None \<Rightarrow> []
      | Some s' \<Rightarrow> (case finish_of s c of None \<Rightarrow> [] | Some x \<Rightarrow> [x]) @ serial_trace w cu pd s' cs)"

text \<open>The spec's files after persisting a sequence of products.\<close>

definition spec_files :: "path \<Rightarrow> web \<Rightarrow> (path \<Rightarrow> review multiset option) \<Rightarrow> (url \<times> int \<times> string) list \<Rightarrow>
    path \<Rightarrow> review multiset option" where
  "spec_files pd w F ps = foldl (\<lambda>G (u, k, nm). spec_write pd w u k nm G) F ps"

lemma serial_inv_failed: "failure s \<noteq> None \<Longrightarrow> serial_inv w s"
  by (auto simp: serial_inv_def)

lemma cat_step_failure_None:
  "cat_step w cu pd s c = Some s' \<Longrightarrow> failure s' = None \<Longrightarrow> failure s = None"
  using cat_step_failure_mono by blast

lemma gather_update_nth:
  "is_gather (ls[i := t] ! j) \<Longrightarrow> \<not> is_gather t \<Longrightarrow> is_gather (ls ! j)"
  by (cases "i = j"; cases "j < length ls") (simp_all add: list_update_beyond)

lemma busy_unique:
  "busy w s g \<Longrightarrow> i < length (ltasks s) \<Longrightarrow> is_gather (ltasks s ! i) \<Longrightarrow> i = g"
  by (auto simp: busy_def only_gather_def)

lemma busy_gather: "busy w s g \<Longrightarrow> is_gather (ltasks s ! g)"
  by (auto simp: busy_def split: ltask.splits)

lemma idle_no_gather: "idle s \<Longrightarrow> i < length (ltasks s) \<Longrightarrow> \<not> is_gather (ltasks s ! i)"
  by (auto simp: idle_def list_all_iff)

lemma serial_inv_retask:
  assumes inv: "serial_inv w s" and old: "\<not> is_gather (ltasks s ! i)" and new: "\<not> is_gather t"
    and eq: "ptasks s' = ptasks s" "comments s' = comments s" "failure s' = failure s"
      "ltasks s' = (ltasks s)[i := t]"
  shows "serial_inv w s'"
proof (cases "failure s = None")
  case True
  with inv have "idle s \<or> (\<exists>g. busy w s g)" by (simp add: serial_inv_def)
  then show ?thesis
  proof
    assume "idle s"
    with new eq show ?thesis
      using set_update_subset_insert [of "ltasks s" i t]
      by (auto simp: serial_inv_def idle_def list_all_iff)
  next
    assume "\<exists>g. busy w s g"
    then obtain g where b: "busy w s g" ..
    then have ig: "i \<noteq> g" using old busy_gather by blast
    from b obtain u k nm hs where t: "ltasks s ! g = LGather u k nm hs"
      by (auto simp: busy_def split: ltask.splits)
    have og: "only_gather g (ltasks s')"
      using b new eq by (auto simp: busy_def only_gather_def dest: gather_update_nth)
    from ig t eq have "ltasks s' ! g = LGather u k nm hs" by simp
    with b t og eq have "busy w s' g" by (simp add: busy_def)
    then show ?thesis by (auto simp: serial_inv_def)
  qed
next
  case False
  with eq show ?thesis by (auto simp: serial_inv_def)
qed

lemma serial_inv_start:
  assumes "idle s" "i < length (ltasks s)"
  shows "busy w (s\<lparr>ltasks := (ltasks s)[i := LGather u k nm hs], ptasks := ptasks s @ page_tasks i u k\<rparr>) i"
  using assms page_tasks_owner_url [where i=i and u=u and n=k]
  by (auto simp: busy_def idle_def only_gather_def list_all_iff nth_list_update sum_page_tasks)

lemma serial_inv_finish:
  assumes "busy w s i" "ltasks s ! i = LGather u k nm hs" "\<not> owns_pending i s"
  shows "ptasks s = [] \<and> mset (comments s) = (\<Sum>k'\<leftarrow>py_range1 k. page_mset w u k')
         \<and> idle (finish_product pd i nm hs s)"
proof -
  from assms(1,2) have own: "list_all (\<lambda>pt. p_owner pt = i) (ptasks s)"
    by (auto simp: busy_def list_all_iff)
  with assms(3) have np: "ptasks s = []"
    by (cases "ptasks s") (auto simp: owns_pending_def)
  from assms(1) have i: "i < length (ltasks s)" and og: "only_gather i (ltasks s)"
    by (simp_all add: busy_def)
  have "list_all (\<lambda>t. \<not> is_gather t) ((ltasks s)[i := LLoop hs])"
  proof (unfold list_all_iff, intro ballI notI)
    fix t assume "t \<in> set ((ltasks s)[i := LLoop hs])" "is_gather t"
    then obtain j where "j < length (ltasks s)" "is_gather ((ltasks s)[i := LLoop hs] ! j)"
      by (auto simp: in_set_conv_nth)
    moreover from this have "j \<noteq> i" by auto
    ultimately show False using og by (auto simp: only_gather_def dest: gather_update_nth)
  qed
  with np assms(1,2) show ?thesis
    by (simp add: busy_def idle_def finish_product_def)
qed

lemma serial_inv_page:
  assumes b: "busy w s g" and j: "j < length (ptasks s)"
    and r: "page_reviews w (p_url (ptasks s ! j)) (p_page (ptasks s ! j)) = Inr rs"
  shows "busy w (run_page w j s) g"
proof -
  from b obtain u k nm hs where t: "ltasks s ! g = LGather u k nm hs"
    by (auto simp: busy_def split: ltask.splits)
  let ?pt = "ptasks s ! j"
  let ?rest = "take j (ptasks s) @ drop (Suc j) (ptasks s)"
  from b t have o: "list_all (\<lambda>pt. p_owner pt = g \<and> p_url pt = u) (ptasks s)"
    and eq: "mset (comments s) + (\<Sum>pt\<leftarrow>ptasks s. page_mset w u (p_page pt)) = (\<Sum>k'\<leftarrow>py_range1 k. page_mset w u k')"
    by (simp_all add: busy_def)
  from o j have u: "p_url ?pt = u" by (simp add: list_all_iff)
  from o have o': "list_all (\<lambda>pt. p_owner pt = g \<and> p_url pt = u) ?rest"
    using set_remove_nth_subset [of j "ptasks s"] by (auto simp: list_all_iff)
  from r u have m: "page_mset w u (p_page ?pt) = mset rs" by (simp add: page_mset_def)
  have "(\<Sum>pt\<leftarrow>ptasks s. page_mset w u (p_page pt)) = mset rs + (\<Sum>pt\<leftarrow>?rest. page_mset w u (p_page pt))"
    using sum_list_take_drop_nth [OF j, of "\<lambda>pt. page_mset w u (p_page pt)"] m by simp
  with eq have "mset (comments s @ rs) + (\<Sum>pt\<leftarrow>?rest. page_mset w u (p_page pt)) = (\<Sum>k'\<leftarrow>py_range1 k. page_mset w u k')"
    by (simp add: add.assoc add.commute add.left_commute)
  with b t o' r show ?thesis
    by (simp add: busy_def run_page_def Let_def)
qed

lemma start_no_gather:
  assumes "serial_ok s c" "c = RunListing i" "i < length (ltasks s)" "ltasks s ! i = LLoop (a # hs)"
  shows "\<not> list_ex is_gather (ltasks s)"
  using assms by (simp add: serial_ok_def starts_product_def)

lemma no_gather_idle:
  assumes "idle s \<or> (\<exists>g. busy w s g)" "\<not> list_ex is_gather (ltasks s)"
  shows "idle s"
proof -
  have "\<not> busy w s g" for g
  proof
    assume b: "busy w s g"
    then have "g < length (ltasks s)" by (simp add: busy_def)
    with busy_gather [OF b] assms(2) show False by (auto simp: list_ex_iff)
  qed
  with assms(1) show ?thesis by blast
qed

lemma cat_step_serial_inv:
  assumes step: "cat_step w cu pd s c = Some s'" and ok: "serial_ok s c" and inv: "serial_inv w s"
  shows "serial_inv w s'"
proof (cases "failure s' = None")
  case False
  then show ?thesis by (rule serial_inv_failed)
next
  case True
  with step have "failure s = None" by (rule cat_step_failure_None)
  with inv have st: "idle s \<or> (\<exists>g. busy w s g)" by (simp add: serial_inv_def)
  have fl: "serial_inv w (fail_task i e x)" for i e x by (rule serial_inv_failed [OF fail_task_failure])
  from step show ?thesis
  proof (cases rule: cat_step_cases)
    case (fetch i p)
    show ?thesis
    proof (cases "http_get w cu (page_params p)")
      case (Inl e)
      with fetch(1) fl show ?thesis by (simp add: fetch_listing_def)
    next
      case (Inr r)
      with fetch(1) have e: "s' = s\<lparr>ltasks := (ltasks s)[i := LLoop (product_links (body r))]\<rparr>"
        by (simp add: fetch_listing_def)
      show ?thesis
        by (rule serial_inv_retask [OF inv, of i "LLoop (product_links (body r))"]) (simp_all add: e fetch(3))
    qed
  next
    case (start i a hs)
    from ok start(4,2,3) have "\<not> list_ex is_gather (ltasks s)" by (rule start_no_gather)
    with st have idle: "idle s" by (rule no_gather_idle)
    let ?u = "product_url (href_str a)"
    show ?thesis
    proof (cases "http_get w ?u show_params")
      case (Inl e)
      with start(1) fl show ?thesis by (simp add: start_product_def)
    next
      case (Inr r)
      show ?thesis
      proof (cases "status r = 200")
        case False
        with Inr start(1) have e: "s' = s\<lparr>log := log s @ [(WARNING, ''Error parse '' @ ?u)], ltasks := (ltasks s)[i := LLoop hs]\<rparr>"
          by (simp add: start_product_def Let_def)
        show ?thesis
          by (rule serial_inv_retask [OF inv, of i "LLoop hs"]) (simp_all add: e start(3))
      next
        case True
        show ?thesis
        proof (cases "product_page_count (body r)")
          case (Inl e)
          with True Inr start(1) fl show ?thesis by (simp add: start_product_def)
        next
          case k: (Inr k)
          show ?thesis
          proof (cases "product_name (body r)")
            case (Inl e)
            with k True Inr start(1) fl show ?thesis by (simp add: start_product_def)
          next
            case nm: (Inr nm)
            from idle start(2) have "busy w (s\<lparr>ltasks := (ltasks s)[i := LGather ?u k nm hs],
                ptasks := ptasks s @ page_tasks i ?u k\<rparr>) i" by (rule serial_inv_start)
            moreover from nm k True Inr start(1)
            have "s' = s\<lparr>ltasks := (ltasks s)[i := LGather ?u k nm hs], ptasks := ptasks s @ page_tasks i ?u k\<rparr>"
              by (simp add: start_product_def Let_def)
            ultimately show ?thesis unfolding serial_inv_def by blast
          qed
        qed
      qed
    qed
  next
    case (finish i nm hs u k)
    from finish(3) have "is_gather (ltasks s ! i)" by simp
    with finish(2) have "\<not> idle s" using idle_no_gather by blast
    with st obtain g where b: "busy w s g" by blast
    from busy_unique [OF b finish(2)] finish(3) have "i = g" by simp
    then have "g = i" ..
    with b finish(3,4) have "idle (finish_product pd i nm hs s)" using serial_inv_finish by blast
    with finish(1) show ?thesis by (simp add: serial_inv_def)
  next
    case (page j)
    from page(1) have "\<not> idle s" by (auto simp: idle_def)
    with st obtain g where b: "busy w s g" by blast
    show ?thesis
    proof (cases "page_reviews w (p_url (ptasks s ! j)) (p_page (ptasks s ! j))")
      case (Inl e)
      with page(2) True show ?thesis by (simp add: run_page_fail)
    next
      case (Inr rs)
      from b page(1) this have "busy w (run_page w j s) g" by (rule serial_inv_page)
      with page(2) show ?thesis unfolding serial_inv_def by blast
    qed
  qed
qed

lemma serial_reach_inv: "serial_reach w cu pd s0 s \<Longrightarrow> serial_inv w s0 \<Longrightarrow> serial_inv w s"
  by (induction rule: serial_reach.induct) (auto intro: cat_step_serial_inv)

lemma serial_inv_init: "serial_inv w (cat_init n [] fs lg)"
  by (simp add: serial_inv_def idle_def cat_init_def list_all_iff)

lemma run_serial_reach:
  "serial_reach w cu pd s0 s \<Longrightarrow> run_serial w cu pd s cs = Some t \<Longrightarrow> serial_reach w cu pd s0 t"
proof (induction cs arbitrary: s)
  case Nil
  then show ?case by simp
next
  case (Cons c cs)
  then obtain s' where "serial_ok s c" "cat_step w cu pd s c = Some s'" "run_serial w cu pd s' cs = Some t"
    by (auto split: if_splits option.splits)
  with Cons.prems(1) Cons.IH show ?case by (blast intro: serial_reach.step)
qed

lemma abs_files_upd: "abs_files (s\<lparr>files := (files s)(p \<mapsto> c)\<rparr>) = (abs_files s)(p \<mapsto> mset c)"
  by (simp add: abs_files_def fun_eq_iff)

lemma serial_step_abs:
  assumes inv: "serial_inv w s" and step: "cat_step w cu pd s c = Some s'" and f: "failure s' = None"
  shows "abs_files s' = spec_effect w pd s c"
proof -
  from step f have "failure s = None" by (rule cat_step_failure_None)
  with inv have st: "idle s \<or> (\<exists>g. busy w s g)" by (simp add: serial_inv_def)
  from step show ?thesis
  proof (cases rule: cat_step_cases)
    case (fetch i p)
    then show ?thesis by (simp add: spec_effect_def abs_files_def fun_eq_iff)
  next
    case (start i a hs)
    then show ?thesis by (simp add: spec_effect_def abs_files_def fun_eq_iff)
  next
    case (finish i nm hs u k)
    from finish(3) have "is_gather (ltasks s ! i)" by simp
    with finish(2) have "\<not> idle s" using idle_no_gather by blast
    with st obtain g where b: "busy w s g" by blast
    from busy_unique [OF b finish(2)] finish(3) have "i = g" by simp
    then have "g = i" ..
    with b finish(3,4) have m: "mset (comments s) = (\<Sum>k'\<leftarrow>py_range1 k. page_mset w u k')"
      using serial_inv_finish by blast
    have e: "spec_effect w pd s c = spec_write pd w u k nm (abs_files s)"
      using finish(2,3,5) by (simp add: spec_effect_def)
    have "spec_write pd w u k nm (abs_files s) =
            (if mset (comments s) = {#} then abs_files s else (abs_files s)(product_file pd nm \<mapsto> mset (comments s)))"
      unfolding spec_write_def Let_def m ..
    also have "\<dots> = abs_files (finish_product pd i nm hs s)"
      by (simp add: abs_files_def finish_product_buffer fun_eq_iff)
    finally show ?thesis using e finish(1) by simp
  next
    case (page j)
    then show ?thesis
      by (cases "page_reviews w (p_url (ptasks s ! j)) (p_page (ptasks s ! j))")
        (simp_all add: spec_effect_def abs_files_def fun_eq_iff run_page_fail run_page_buffer)
  qed
qed

text \<open>
  C26. Refinement of the spec's product crawler. Under a schedule that starts a product
  only when no other product is gathering (one product in flight), every step of a
  category run that raises nothing changes the files, seen as multisets of reviews,
  exactly as the spec's abstract step of that choice: resuming a gathering listing task
  persists the product by the spec (the multiset union of the reviews of its pages
  \<open>1..count\<close>, written to \<open><dir>/<name>.json\<close> when non-empty), and every other step
  leaves the files alone.
\<close>

theorem serial_refines_spec:
  assumes r: "serial_reach w cu pd (cat_init n [] fs lg) s" and ok: "serial_ok s c"
    and step: "cat_step w cu pd s c = Some s'" and f: "failure s' = None"
  shows "abs_files s' = spec_effect w pd s c"
proof -
  from r serial_inv_init have "serial_inv w s" by (rule serial_reach_inv)
  from this step f show ?thesis by (rule serial_step_abs)
qed


lemma serial_reach_cat_reach: "serial_reach w cu pd s0 s \<Longrightarrow> cat_reach w cu pd s0 s"
  by (induction rule: serial_reach.induct) (auto intro: cat_reach.refl cat_reach.step)

lemma serial_step_progress:
  assumes "alive_inv s" "failure s = None" "\<not> cat_done s"
  shows "\<exists>c s'. serial_ok s c \<and> cat_step w cu pd s c = Some s'"
proof (cases "ptasks s")
  case (Cons pt pts)
  then have "serial_ok s (RunPage 0) \<and> cat_step w cu pd s (RunPage 0) = Some (run_page w 0 s)"
    by (simp add: serial_ok_def starts_product_def)
  then show ?thesis by blast
next
  case Nil
  then have np: "\<not> owns_pending i s" for i by (simp add: owns_pending_def)
  show ?thesis
  proof (cases "list_ex is_gather (ltasks s)")
    case True
    then obtain g where g: "g < length (ltasks s)" "is_gather (ltasks s ! g)"
      by (auto simp: list_ex_iff in_set_conv_nth)
    then obtain u k nm hs where t: "ltasks s ! g = LGather u k nm hs"
      by (cases "ltasks s ! g") simp_all
    with g np have "serial_ok s (RunListing g) \<and>
        cat_step w cu pd s (RunListing g) = Some (finish_product pd g nm hs s)"
      by (simp add: serial_ok_def starts_product_def)
    then show ?thesis by blast
  next
    case False
    then have ok: "serial_ok s c" for c by (simp add: serial_ok_def)
    from assms(1,2,3) obtain c s' where "cat_step w cu pd s c = Some s'"
      using cat_step_progress by blast
    with ok show ?thesis by blast
  qed
qed

text \<open>
  C27. The serial discipline of C26 can always be followed to the end: from every state
  reachable under it, some schedule that keeps one product in flight ends the category
  run, every listing task finished or an exception recorded. (A lock around each
  product's crawl would enforce it.)
\<close>

theorem serial_run_terminates:
  assumes "serial_reach w cu pd (cat_init n cs fs lg) s"
  shows "\<exists>sch t. run_serial w cu pd s sch = Some t \<and> (cat_done t \<or> failure t \<noteq> None)"
  using assms
proof (induction "cat_measure w cu s" arbitrary: s rule: less_induct)
  case less
  show ?case
  proof (cases "cat_done s \<or> failure s \<noteq> None")
    case True
    then have "run_serial w cu pd s [] = Some s \<and> (cat_done s \<or> failure s \<noteq> None)" by simp
    then show ?thesis by blast
  next
    case False
    have "alive_inv (cat_init n cs fs lg)" by (simp add: alive_inv_def cat_init_def list_all_iff)
    moreover from less.prems have "cat_reach w cu pd (cat_init n cs fs lg) s" by (rule serial_reach_cat_reach)
    ultimately have "alive_inv s" by (rule cat_reach_alive_inv [rotated])
    with False obtain c s' where ok: "serial_ok s c" and st: "cat_step w cu pd s c = Some s'"
      using serial_step_progress by blast
    have r': "serial_reach w cu pd (cat_init n cs fs lg) s'"
      using less.prems ok st by (rule serial_reach.step)
    from cat_step_measure [OF st] r' less.hyps obtain sch t
      where "run_serial w cu pd s' sch = Some t \<and> (cat_done t \<or> failure t \<noteq> None)" by blast
    with ok st have "run_serial w cu pd s (c # sch) = Some t \<and> (cat_done t \<or> failure t \<noteq> None)" by simp
    then show ?thesis by blast
  qed
qed


lemma spec_effect_finish_of:
  "spec_effect w pd s c =
     (case finish_of s c of None \<Rightarrow> abs_files s | Some (u, k, nm) \<Rightarrow> spec_write pd w u k nm (abs_files s))"
  by (simp add: spec_effect_def finish_of_def split: choice.split ltask.split)

lemma spec_files_Cons:
  "spec_files pd w F ((u, k, nm) # ps) = spec_files pd w (spec_write pd w u k nm F) ps"
  by (simp add: spec_files_def)

lemma run_serial_failure:
  assumes "run_serial w cu pd s cs = Some t" and "failure t = None"
  shows "failure s = None"
proof -
  from serial_reach.refl assms(1) have "serial_reach w cu pd s t" by (rule run_serial_reach)
  then have "cat_reach w cu pd s t" by (rule serial_reach_cat_reach)
  with assms(2) show ?thesis using cat_reach_failure_mono by blast
qed

lemma run_serial_abs:
  "serial_inv w s \<Longrightarrow> run_serial w cu pd s sch = Some t \<Longrightarrow> failure t = None \<Longrightarrow>
     abs_files t = spec_files pd w (abs_files s) (serial_trace w cu pd s sch)"
proof (induction sch arbitrary: s)
  case Nil
  then show ?case by (simp add: spec_files_def)
next
  case (Cons c cs)
  from Cons.prems(2) obtain s' where ok: "serial_ok s c" and st: "cat_step w cu pd s c = Some s'"
    and r: "run_serial w cu pd s' cs = Some t"
    by (auto split: if_splits option.splits)
  from r Cons.prems(3) have f': "failure s' = None" by (rule run_serial_failure)
  from st ok Cons.prems(1) have inv': "serial_inv w s'" by (rule cat_step_serial_inv)
  from Cons.IH [OF inv' r Cons.prems(3)]
  have ih: "abs_files t = spec_files pd w (abs_files s') (serial_trace w cu pd s' cs)" .
  from Cons.prems(1) st f' have "abs_files s' = spec_effect w pd s c" by (rule serial_step_abs)
  with ih st show ?case
    by (cases "finish_of s c") (auto simp: spec_effect_finish_of spec_files_Cons)
qed

text \<open>
  C28. The whole run refines the spec: at the end of a schedule that keeps one product in
  flight and raises nothing, the files, seen as multisets, are those of the spec after
  persisting, one after the other, the products in the order their listing tasks resumed
  from \<open>gather\<close> (each as the union of its pages' reviews, written when non-empty), starting
  from the files there were before the category run.
\<close>

theorem serial_run_refines_spec:
  assumes "run_serial w cu pd (cat_init n [] fs lg) sch = Some t" and "failure t = None"
  shows "abs_files t =
    spec_files pd w (\<lambda>p. map_option mset (fs p)) (serial_trace w cu pd (cat_init n [] fs lg) sch)"
proof -
  have "abs_files (cat_init n [] fs lg) = (\<lambda>p. map_option mset (fs p))"
    by (simp add: abs_files_def cat_init_def fun_eq_iff)
  with run_serial_abs [OF serial_inv_init assms] show ?thesis by simp
qed

end
