(* ===== verification/Listing_Timing.thy ===== *)
theory Listing_Timing
  imports Extract
begin

text \<open>
  The timing of one listing task's own requests (\<open>_parse_category\<close>, lines 90--98,
  with \<open>_queue_parse_comments\<close>, lines 66--88, and the review-page tasks of
  \<open>_parse_comments\<close>, lines 43--50). Times are milliseconds; \<open>asyncio.sleep(d)\<close> resumes
  its task exactly \<open>d\<close> later, a request to the site is answered after the latency
  \<open>lat\<close> of that request (static, like the site itself), and parsing and bookkeeping
  take no time. Under these assumptions a task's request times do not depend on the
  other tasks of the cooperative loop, so they are a function of the site, the
  latencies and the time the task starts: \<open>listing_timeline\<close> lists its requests with
  their issue times, \<open>product_timeline\<close> those of its product loop. A task stops issuing
  requests when it raises (a transport error, a \<open>ValueError\<close> of the page count, a
  missing title, or a failing review page re-raised by \<open>gather\<close>).
\<close>

datatype req_kind = ListingReq | ProductReq | PageReq

type_synonym latency = "request \<Rightarrow> nat"

type_synonym timed_req = "nat \<times> req_kind \<times> request"

text \<open>Lines 96--98 with 66--88: sleep 1 s, fetch the product page, on 200 read the count and
  the title, start the page tasks, each sleeping 0.1 s (line 49) before its request, and
  resume when the last one has answered.\<close>

fun product_timeline :: "web \<Rightarrow> latency \<Rightarrow> nat \<Rightarrow> node list \<Rightarrow> timed_req list" where
  "product_timeline w lat t [] = []"
| "product_timeline w lat t (a # hs) =
     (let tp = t + 1000; u = product_url (href_str a); rq = mk_request u show_params; tr = tp + lat rq in
      case w rq of
        None \<Rightarrow> [(tp, ProductReq, rq)]
      | Some r \<Rightarrow>
          if status r = 200 then
            (case product_page_count (body r) of
               Inl e \<Rightarrow> [(tp, ProductReq, rq)]
             | Inr n \<Rightarrow>
                 (case product_name (body r) of
                    Inl e \<Rightarrow> [(tp, ProductReq, rq)]
                  | Inr nm \<Rightarrow>
                      (let qs = map (\<lambda>k. mk_request (page_url u k) show_params) (py_range1 n);
                           tq = tr + 100;
                           te = fold max (map (\<lambda>q. tq + lat q) qs) tr
                       in (tp, ProductReq, rq) # map (\<lambda>q. (tq, PageReq, q)) qs @
                          (if list_all (\<lambda>q. w q \<noteq> None) qs then product_timeline w lat te hs else []))))
          else (tp, ProductReq, rq) # product_timeline w lat tr hs)"

text \<open>Lines 91--95: sleep 0.1 s, fetch the listing page, then crawl its products.\<close>

definition listing_timeline :: "web \<Rightarrow> latency \<Rightarrow> url \<Rightarrow> nat \<Rightarrow> nat \<Rightarrow> timed_req list" where
  "listing_timeline w lat cu p t0 =
     (let t1 = t0 + 100; rq = mk_request cu (page_params p) in
      (t1, ListingReq, rq) #
      (case w rq of None \<Rightarrow> [] | Some r \<Rightarrow> product_timeline w lat (t1 + lat rq) (product_links (body r))))"

definition product_times :: "timed_req list \<Rightarrow> nat list" where
  "product_times xs = map fst (filter (\<lambda>x. fst (snd x) = ProductReq) xs)"

lemma fold_max_ge: "a \<le> fold max xs (a :: nat)"
proof (induction xs arbitrary: a)
  case (Cons x xs)
  have "a \<le> max x a" by simp
  also have "\<dots> \<le> fold max xs (max x a)" by (rule Cons.IH)
  finally show ?case by simp
qed simp

lemma product_times_simps [simp]:
  "product_times [] = []"
  "product_times ((t, ProductReq, rq) # xs) = t # product_times xs"
  "product_times (xs @ ys) = product_times xs @ product_times ys"
  "product_times (map (\<lambda>q. (t, PageReq, q)) qs) = []"
  "product_times ((t, ListingReq, rq) # xs) = product_times xs"
  by (simp_all add: product_times_def filter_empty_conv)

lemma product_timeline_Cons:
  obtains (stop) "product_times (product_timeline w lat t (a # hs)) = [t + 1000]"
      "\<forall>x\<in>set (product_timeline w lat t (a # hs)). t + 1000 \<le> fst x"
  | (cont) t' pre where "t + 1000 \<le> t'"
      "product_timeline w lat t (a # hs) = pre @ product_timeline w lat t' hs"
      "\<forall>x\<in>set pre. t + 1000 \<le> fst x" "product_times pre = [t + 1000]"
proof -
  let ?u = "product_url (href_str a)"
  let ?rq = "mk_request ?u show_params"
  let ?tr = "t + 1000 + lat ?rq"
  show thesis
  proof (cases "w ?rq")
    case None
    then show ?thesis using stop by (simp add: Let_def)
  next
    case (Some r)
    show ?thesis
    proof (cases "status r = 200")
      case False
      with Some show ?thesis using cont [of ?tr "[(t + 1000, ProductReq, ?rq)]"] by (simp add: Let_def)
    next
      case True
      show ?thesis
      proof (cases "product_page_count (body r)")
        case (Inl e)
        with Some True show ?thesis using stop by (simp add: Let_def)
      next
        case (Inr n)
        show ?thesis
        proof (cases "product_name (body r)")
          case (Inl e)
          with Some True Inr show ?thesis using stop by (simp add: Let_def)
        next
          case nm: (Inr nm)
          let ?qs = "map (\<lambda>k. mk_request (page_url ?u k) show_params) (py_range1 n)"
          let ?te = "fold max (map (\<lambda>q. ?tr + 100 + lat q) ?qs) ?tr"
          let ?pre = "(t + 1000, ProductReq, ?rq) # map (\<lambda>q. (?tr + 100, PageReq, q)) ?qs"
          have "?tr \<le> ?te" by (rule fold_max_ge)
          then have te: "t + 1000 \<le> ?te" by simp
          have tl: "product_timeline w lat t (a # hs) =
              ?pre @ (if list_all (\<lambda>q. w q \<noteq> None) ?qs then product_timeline w lat ?te hs else [])"
            using Some True Inr nm by (simp add: Let_def del: map_map)
          have pre: "\<forall>x\<in>set ?pre. t + 1000 \<le> fst x" "product_times ?pre = [t + 1000]"
            by (auto simp del: map_map)
          show ?thesis
          proof (cases "list_all (\<lambda>q. w q \<noteq> None) ?qs")
            case True
            with tl pre te show ?thesis using cont by (simp del: map_map)
          next
            case False
            with tl pre show ?thesis using stop by (simp del: map_map)
          qed
        qed
      qed
    qed
  qed
qed

lemma product_timeline_after: "x \<in> set (product_timeline w lat t hs) \<Longrightarrow> t + 1000 \<le> fst x"
proof (induction hs arbitrary: t x)
  case Nil
  then show ?case by simp
next
  case (Cons a hs)
  show ?case
  proof (cases rule: product_timeline_Cons [of w lat t a hs])
    case stop
    with Cons.prems show ?thesis by blast
  next
    case (cont t' pre)
    from cont(2) Cons.prems have "x \<in> set pre \<or> x \<in> set (product_timeline w lat t' hs)" by simp
    then show ?thesis
    proof
      assume "x \<in> set pre"
      with cont(3) show ?thesis by blast
    next
      assume "x \<in> set (product_timeline w lat t' hs)"
      from Cons.IH [OF this] cont(1) show ?thesis by simp
    qed
  qed
qed

lemma product_times_after:
  "y \<in> set (product_times (product_timeline w lat t hs)) \<Longrightarrow> t + 1000 \<le> y"
  by (auto simp: product_times_def dest: product_timeline_after)

lemma spaced_Cons:
  assumes "tp \<le> t'" and "sorted_wrt (\<lambda>a b. a + 1000 \<le> b) (product_times (product_timeline w lat t' hs))"
  shows "sorted_wrt (\<lambda>a b. a + 1000 \<le> b) (tp # product_times (product_timeline w lat t' hs))"
proof -
  have "tp + 1000 \<le> y" if "y \<in> set (product_times (product_timeline w lat t' hs))" for y
    using product_times_after [OF that] assms(1) by simp
  with assms(2) show ?thesis by simp
qed

lemma product_requests_spaced:
  "sorted_wrt (\<lambda>a b. a + 1000 \<le> b) (product_times (product_timeline w lat t hs))"
proof (induction hs arbitrary: t)
  case Nil
  then show ?case by simp
next
  case (Cons a hs)
  show ?case
  proof (cases rule: product_timeline_Cons [of w lat t a hs])
    case stop
    then show ?thesis by simp
  next
    case (cont t' pre)
    from cont(1) Cons.IH [of t'] have "sorted_wrt (\<lambda>a b. a + 1000 \<le> b) ((t + 1000) # product_times (product_timeline w lat t' hs))"
      by (intro spaced_Cons) simp_all
    with cont(2,4) show ?thesis by simp
  qed
qed


text \<open>
  C29. The one-second sleep of \<open>_parse_category\<close> (line 97) spaces the product-page
  requests of a listing task: whatever the latencies of the site, consecutive product
  requests of one listing task are at least 1000 ms apart.
\<close>

theorem listing_product_requests_spaced:
  "sorted_wrt (\<lambda>a b. a + 1000 \<le> b) (product_times (listing_timeline w lat cu p t0))"
  by (simp add: listing_timeline_def Let_def product_requests_spaced split: option.split)

end
