(* ===== verification/Crawl_Examples.thy ===== *)
theory Crawl_Examples
  imports Orchestrator Category_Liveness Category_Wf Category_Serial Listing_Timing
begin

text \<open>
  A small concrete site on which the model is evaluated by the simplifier: four
  categories on the catalogue page, a category \<open>/c/tv/\<close> with two listing pages of one
  product each (A and B, one review each), a category \<open>/c/pc/\<close> with one listing page
  and a product C whose reviews span two pages, and a product page answered 404. The
  race of the shared buffer (C2) and the witnesses of the properties run on it.
\<close>

definition ex_box :: "string \<Rightarrow> node" where
  "ex_box who = Elem ''div'' [] [''usersReviewsListItemInnerContainer'']
     [Elem ''span'' [] [''userName''] [Text who], Elem ''div'' [] [''userReviewDate''] [Text '' 2021 ''],
      Elem ''div'' [] [''middleBlockItem''] [Text '' ok '']]"

definition ex_anchor :: "string \<Rightarrow> string \<Rightarrow> node" where
  "ex_anchor cls h = Elem ''a'' [(''href'', h)] [cls] []"

definition ex_pages :: "string list \<Rightarrow> node" where
  "ex_pages ns = Elem ''div'' [] [''pages''] (map (\<lambda>n. Elem ''a'' [] [] [Text n]) ns)"

definition ex_cat :: url where
  "ex_cat = home_url @ ''/c/tv/''"

definition ex_cat2 :: url where
  "ex_cat2 = home_url @ ''/c/pc/''"

definition ex_tv_doc :: "node list" where
  "ex_tv_doc =
     [Elem ''h1'' [] [''-K''] [Text ''TV''],
      Elem ''div'' [] [''zr''] [Elem ''li'' [] [] [Text ''1''], Elem ''li'' [] [] [Text ''2''],
                                Elem ''li'' [] [] [Text ''>'']]]"

definition ex_web :: web where
  "ex_web rq =
     (let u = req_url rq; ps = req_params rq in
      if u = category_urls then
        Some \<lparr>status = 200, body = map (ex_anchor ''ss'') [''/c/a/'', ''/c/b/'', ''/c/c/'', ''/c/tv/'']\<rparr>
      else if u = ex_cat \<and> ps = [] then Some \<lparr>status = 200, body = ex_tv_doc\<rparr>
      else if u = ex_cat \<and> ps = page_params 1 then Some \<lparr>status = 200, body = [ex_anchor ''sG'' ''pa'']\<rparr>
      else if u = ex_cat \<and> ps = page_params 2 then Some \<lparr>status = 200, body = [ex_anchor ''sG'' ''pb'']\<rparr>
      else if u = ex_cat2 \<and> ps = page_params 1 then Some \<lparr>status = 200, body = [ex_anchor ''sG'' ''pc'']\<rparr>
      else if u = product_url ''pa'' then
        Some \<lparr>status = 200, body = [Elem ''h1'' [] [''catalogItemDetailHd''] [Text ''A''], ex_box ''Ann'']\<rparr>
      else if u = product_url ''pb'' then
        Some \<lparr>status = 200, body = [Elem ''h1'' [] [''catalogItemDetailHd''] [Text ''B''], ex_box ''Bob'']\<rparr>
      else if u = product_url ''pc'' then
        Some \<lparr>status = 200, body = [Elem ''h1'' [] [''catalogItemDetailHd''] [Text ''C''],
          ex_pages [''1'', ''2''], ex_box ''Cat'']\<rparr>
      else if u = product_url ''pc'' @ ''/page/2'' then Some \<lparr>status = 200, body = [ex_box ''Dan'']\<rparr>
      else if u = product_url ''pz'' then Some \<lparr>status = 404, body = []\<rparr>
      else None)"

definition ex_review :: "string \<Rightarrow> string \<Rightarrow> review" where
  "ex_review h who = \<lparr>rv_url = product_url h, author = who, date = ''2021'', content = ''ok''\<rparr>"

text \<open>
  Both listing tasks start their product before either product's review page is
  fetched; A's page, then B's page append to the shared buffer; A resumes first.
\<close>

definition ex_race_sched :: "choice list" where
  "ex_race_sched =
     [RunListing 0, RunListing 1, RunListing 0, RunListing 1, RunPage 0, RunPage 0, RunListing 0, RunListing 1]"

text \<open>C's second page completes before its first.\<close>

definition ex_solo_sched :: "choice list" where
  "ex_solo_sched = [RunListing 0, RunListing 0, RunPage 1, RunPage 0]"

definition ex_world0 :: world where
  "ex_world0 = \<lparr>w_comments = [], w_files = Map.empty, w_dirs = {}, w_log = []\<rparr>"

definition ex_resp_a :: response where
  "ex_resp_a = \<lparr>status = 200, body = [Elem ''h1'' [] [''catalogItemDetailHd''] [Text ''A''], ex_box ''Ann'']\<rparr>"

definition ex_cats :: "url list" where
  "ex_cats = [''/c/a/'', ''/c/b/'', ''/c/c/'', ''/c/tv/'']"

definition ex_world1 :: world where
  "ex_world1 = log_info (''Run parse '' @ ''/c/tv/'') (ex_world0\<lparr>w_dirs := {[''reviews''], [''reviews'', ''TV'']}\<rparr>)"

text \<open>A product C with a third review page: unreachable on \<open>ex_web\<close>, an error page with a review on \<open>ex_web404\<close>.\<close>

definition ex_page3 :: cstate where
  "ex_page3 = (cat_init 1 [] Map.empty [])\<lparr>ltasks := [LGather (product_url ''pc'') 3 ''C'' []],
     ptasks := [\<lparr>p_owner = 0, p_url = product_url ''pc'', p_page = 3\<rparr>]\<rparr>"

definition ex_web404 :: web where
  "ex_web404 = ex_web(mk_request (page_url (product_url ''pc'') 3) show_params \<mapsto>
     \<lparr>status = 404, body = [ex_box ''Eve'']\<rparr>)"

text \<open>A category \<open>/c/dup/\<close> with two products titled \<open>X/Y\<close> and \<open>X_Y\<close>, crawled one after the other.\<close>

definition ex_cat3 :: url where
  "ex_cat3 = home_url @ ''/c/dup/''"

definition ex_web_dup :: web where
  "ex_web_dup rq =
     (let u = req_url rq; ps = req_params rq in
      if u = ex_cat3 \<and> ps = page_params 1 then
        Some \<lparr>status = 200, body = [ex_anchor ''sG'' ''p1'', ex_anchor ''sG'' ''p2'']\<rparr>
      else if u = product_url ''p1'' then
        Some \<lparr>status = 200, body = [Elem ''h1'' [] [''catalogItemDetailHd''] [Text ''X/Y''], ex_box ''Ann'']\<rparr>
      else if u = product_url ''p2'' then
        Some \<lparr>status = 200, body = [Elem ''h1'' [] [''catalogItemDetailHd''] [Text ''X_Y''], ex_box ''Bob'']\<rparr>
      else ex_web rq)"

definition ex_dup_sched :: "choice list" where
  "ex_dup_sched = [RunListing 0, RunListing 0, RunPage 0, RunListing 0, RunListing 0, RunPage 0, RunListing 0]"

text \<open>The products of \<open>/c/tv/\<close> crawled one after the other: A's page, A's write, then B.\<close>

definition ex_serial_sched :: "choice list" where
  "ex_serial_sched =
     [RunListing 0, RunListing 1, RunListing 0, RunPage 0, RunListing 0, RunListing 1, RunPage 0, RunListing 1]"

text \<open>A site whose catalogue answers 503 with a plain error page.\<close>

definition ex_web503 :: web where
  "ex_web503 rq =
     (if req_url rq = category_urls then Some \<lparr>status = 503, body = [Elem ''p'' [] [] [Text ''busy'']]\<rparr> else None)"

text \<open>
  Category names used as paths: a category \<open>/c/up/\<close> titled \<open>../Up\<close> listing product
  A, a category \<open>/c/ab/\<close> titled \<open>A/B\<close> with an empty listing page, and a category
  \<open>/c/a/\<close> titled \<open>A\<close>; everything else as on \<open>ex_web\<close>.
\<close>

definition ex_cat_doc :: "string \<Rightarrow> node list" where
  "ex_cat_doc nm =
     [Elem ''h1'' [] [''-K''] [Text nm],
      Elem ''div'' [] [''zr''] [Elem ''li'' [] [] [Text ''1''], Elem ''li'' [] [] [Text ''>'']]]"

definition ex_web_dirs :: web where
  "ex_web_dirs rq =
     (let u = req_url rq; ps = req_params rq in
      if u = home_url @ ''/c/up/'' \<and> ps = [] then Some \<lparr>status = 200, body = ex_cat_doc ''../Up''\<rparr>
      else if u = home_url @ ''/c/up/'' \<and> ps = page_params 1 then
        Some \<lparr>status = 200, body = [ex_anchor ''sG'' ''pa'']\<rparr>
      else if u = home_url @ ''/c/ab/'' \<and> ps = [] then Some \<lparr>status = 200, body = ex_cat_doc ''A/B''\<rparr>
      else if u = home_url @ ''/c/ab/'' \<and> ps = page_params 1 then Some \<lparr>status = 200, body = []\<rparr>
      else if u = home_url @ ''/c/a/'' \<and> ps = [] then Some \<lparr>status = 200, body = ex_cat_doc ''A''\<rparr>
      else ex_web rq)"

definition ex_up_sched :: "choice list" where
  "ex_up_sched = [RunListing 0, RunListing 0, RunPage 0, RunListing 0]"

subsection \<open>The race of the shared buffer\<close>

text \<open>
  C2. The shared buffer \<open>self.comments\<close> lets reviews land in the wrong product's
  file. With two listing pages, both products started before either review page is
  fetched, A's and B's pages append to the one buffer; A resumes first and writes both
  reviews to \<open>A.json\<close> and empties the buffer, so B finds it empty and writes no file:
  B's review is attributed to A and B's file is missing, although the run completes
  normally.
\<close>

theorem shared_buffer_misattribution:
  "\<exists>s. run_sched ex_web ex_cat ''reviews/TV'' (cat_init 2 [] Map.empty []) ex_race_sched = Some s \<and> cat_done s \<and>
     files s (product_file ''reviews/TV'' ''A'') = Some [ex_review ''pa'' ''Ann'', ex_review ''pb'' ''Bob''] \<and>
     files s (product_file ''reviews/TV'' ''B'') = None"
proof -
  have "map_option (\<lambda>s. (cat_done s, files s (product_file ''reviews/TV'' ''A''), files s (product_file ''reviews/TV'' ''B'')))
          (run_sched ex_web ex_cat ''reviews/TV'' (cat_init 2 [] Map.empty []) ex_race_sched) =
        Some (True, Some [ex_review ''pa'' ''Ann'', ex_review ''pb'' ''Bob''], None)"
    by code_simp
  then show ?thesis by auto
qed

text \<open>
  C22. Two products whose titles differ only by \<open>/\<close> against \<open>_\<close> get the same file:
  \<open>replace('/', '_')\<close> (line 77) is not injective and \<open>open(..., 'w')\<close> (line 84)
  truncates. With one listing task, the first product's review is written to
  \<open>X_Y.json\<close> and then replaced by the second product's, so the run completes normally
  with the first product's reviews lost.
\<close>

theorem duplicate_title_overwrites:
  "\<exists>s. run_sched ex_web_dup ex_cat3 ''d'' (cat_init 1 [] Map.empty []) ex_dup_sched = Some s \<and> cat_done s \<and>
     files s (product_file ''d'' ''X_Y'') = Some [ex_review ''p2'' ''Bob''] \<and>
     Wrote 0 (product_file ''d'' ''X_Y'') [ex_review ''p1'' ''Ann''] \<in> set (events s)"
proof -
  have "map_option (\<lambda>s. (cat_done s, files s (product_file ''d'' ''X_Y''), events s))
          (run_sched ex_web_dup ex_cat3 ''d'' (cat_init 1 [] Map.empty []) ex_dup_sched) =
        Some (True, Some [ex_review ''p2'' ''Bob''],
              [Appended 0 1 [ex_review ''p1'' ''Ann''], Wrote 0 (product_file ''d'' ''X_Y'') [ex_review ''p1'' ''Ann''],
               Appended 0 1 [ex_review ''p2'' ''Bob''], Wrote 0 (product_file ''d'' ''X_Y'') [ex_review ''p2'' ''Bob'']])"
    by code_simp
  then show ?thesis by auto
qed

subsection \<open>Witnesses\<close>

theorem solo_product_file_witness:
  "\<exists>s s'. run_sched ex_web ex_cat2 ''d'' (cat_init 1 [] Map.empty []) ex_solo_sched = Some s \<and>
     cat_step ex_web ex_cat2 ''d'' s (RunListing 0) = Some s' \<and> failure s = None \<and>
     mset (comments s) = (\<Sum>k\<leftarrow>py_range1 2. page_mset ex_web (product_url ''pc'') k) \<and>
     files s' = (files s)(product_file ''d'' ''C'' \<mapsto> comments s)"
proof -
  have "map_option (\<lambda>s. (ltasks s ! 0, comments s \<noteq> [], cat_step ex_web ex_cat2 ''d'' s (RunListing 0) \<noteq> None))
          (run_sched ex_web ex_cat2 ''d'' (cat_init 1 [] Map.empty []) ex_solo_sched) =
        Some (LGather (product_url ''pc'') 2 ''C'' [], True, True)"
    by code_simp
  then obtain s where r: "run_sched ex_web ex_cat2 ''d'' (cat_init 1 [] Map.empty []) ex_solo_sched = Some s"
    and t: "ltasks s ! 0 = LGather (product_url ''pc'') 2 ''C'' []" and ne: "comments s \<noteq> []"
    and en: "cat_step ex_web ex_cat2 ''d'' s (RunListing 0) \<noteq> None"
    by auto
  from en obtain s' where st: "cat_step ex_web ex_cat2 ''d'' s (RunListing 0) = Some s'" by auto
  from r have "cat_reach ex_web ex_cat2 ''d'' (cat_init 1 [] Map.empty []) s" by (rule run_sched_reach)
  from solo_product_file [OF this t st] ne r st show ?thesis by auto
qed

lemma ex_race_run:
  "\<exists>s. run_sched ex_web ex_cat ''reviews/TV'' (cat_init 2 [] Map.empty []) ex_race_sched = Some s"
proof -
  have "run_sched ex_web ex_cat ''reviews/TV'' (cat_init 2 [] Map.empty []) ex_race_sched \<noteq> None"
    by code_simp
  then show ?thesis by auto
qed

theorem cat_buffer_conservation_witness:
  "\<exists>s. run_sched ex_web ex_cat ''reviews/TV'' (cat_init 2 [] Map.empty []) ex_race_sched = Some s \<and>
     [] @ appended_of (events s) = written_of (events s) @ comments s"
proof -
  obtain s where r: "run_sched ex_web ex_cat ''reviews/TV'' (cat_init 2 [] Map.empty []) ex_race_sched = Some s"
    using ex_race_run by blast
  then have "cat_reach ex_web ex_cat ''reviews/TV'' (cat_init 2 [] Map.empty []) s" by (rule run_sched_reach)
  from cat_buffer_conservation [OF this] r show ?thesis by blast
qed

theorem cat_files_written_nonempty_witness:
  "\<exists>s. run_sched ex_web ex_cat ''reviews/TV'' (cat_init 2 [] Map.empty []) ex_race_sched = Some s \<and>
     (files s (product_file ''reviews/TV'' ''A'') = None \<or>
      (\<exists>i c. files s (product_file ''reviews/TV'' ''A'') = Some c \<and> c \<noteq> [] \<and>
             Wrote i (product_file ''reviews/TV'' ''A'') c \<in> set (events s)))"
proof -
  obtain s where r: "run_sched ex_web ex_cat ''reviews/TV'' (cat_init 2 [] Map.empty []) ex_race_sched = Some s"
    using ex_race_run by blast
  then have "cat_reach ex_web ex_cat ''reviews/TV'' (cat_init 2 [] Map.empty []) s" by (rule run_sched_reach)
  from cat_files_written_nonempty [OF this, of "product_file ''reviews/TV'' ''A''"] r show ?thesis by auto
qed

theorem start_product_spawns_pages_witness:
  "\<exists>new. ptasks (start_product ex_web 0 (ex_anchor ''sG'' ''pa'') [] (cat_init 2 [] Map.empty [])) =
      ptasks (cat_init 2 [] Map.empty []) @ new \<and> map p_page new = py_range1 1 \<and>
    list_all (\<lambda>pt. p_owner pt = 0 \<and> p_url pt = product_url (href_str (ex_anchor ''sG'' ''pa''))) new \<and>
    ltasks (start_product ex_web 0 (ex_anchor ''sG'' ''pa'') [] (cat_init 2 [] Map.empty [])) =
      (ltasks (cat_init 2 [] Map.empty []))[0 := LGather (product_url (href_str (ex_anchor ''sG'' ''pa''))) 1 ''A'' []]"
proof -
  have g: "http_get ex_web (product_url (href_str (ex_anchor ''sG'' ''pa''))) show_params = Inr ex_resp_a"
    by code_simp
  have "status ex_resp_a = 200" "product_page_count (body ex_resp_a) = Inr 1"
    "product_name (body ex_resp_a) = Inr ''A''"
    by code_simp+
  from start_product_spawns_pages [OF g this] show ?thesis .
qed

theorem start_product_skip_non200_witness:
  "log (start_product ex_web 0 (ex_anchor ''sG'' ''pz'') [] (cat_init 1 [] Map.empty [])) =
     log (cat_init 1 [] Map.empty []) @ [(WARNING, ''Error parse '' @ product_url (href_str (ex_anchor ''sG'' ''pz'')))] \<and>
   ptasks (start_product ex_web 0 (ex_anchor ''sG'' ''pz'') [] (cat_init 1 [] Map.empty [])) = []"
proof -
  have g: "http_get ex_web (product_url (href_str (ex_anchor ''sG'' ''pz''))) show_params =
             Inr \<lparr>status = 404, body = []\<rparr>"
    by code_simp
  from start_product_skip_non200 [OF g] show ?thesis by (simp add: cat_init_def)
qed

theorem discovered_categories_witness:
  "set ex_cats = set (List.map_filter (\<lambda>l. Option.bind (bs_get l ''href'') re_search_cat)
                    (bs_find_all ''a'' (Some ''ss'') (body (projr (http_get ex_web category_urls [])))))
    \<and> list_all cat_pattern ex_cats"
proof -
  have "get_url_categories ex_web = Inr (set ex_cats)"
    by code_simp
  from discovered_categories [OF this] show ?thesis by (simp add: list_all_iff)
qed

theorem existing_dir_aborts_run_witness:
  "run_categories ex_web [''/c/tv/''] (ex_world0\<lparr>w_dirs := {[''reviews''], [''reviews'', ''TV'']}\<rparr>)
      (ex_world1, Some FileExistsError) \<and>
   (ex_world1, Some FileExistsError) =
     (log_info (''Run parse '' @ ''/c/tv/'') (ex_world0\<lparr>w_dirs := {[''reviews''], [''reviews'', ''TV'']}\<rparr>),
      Some FileExistsError)"
proof -
  let ?s = "ex_world0\<lparr>w_dirs := {[''reviews''], [''reviews'', ''TV'']}\<rparr>"
  let ?r = "\<lparr>status = 200, body = ex_tv_doc\<rparr>"
  have g: "http_get ex_web (home_url @ ''/c/tv/'') [] = Inr ?r" by code_simp
  have h: "status ?r = 200" "category_page_count (body ?r) = Inr 2" "category_name (body ?r) = Inr ''TV''"
    by code_simp+
  have d: "path_exists (w_dirs ?s) (category_dir ''TV'')"
    by (simp add: category_dir_def path_exists_def is_dir_def step_comp_def)
  have "category_setup ex_web ''/c/tv/'' ex_world1 = (ex_world1, Inl FileExistsError)"
    using d unfolding ex_world1_def by (intro category_setup_dir_exists [OF g h]) simp
  then have "category_outcome ex_web ''/c/tv/'' ex_world1 (ex_world1, Some FileExistsError)"
    by (rule category_outcome.setup_error)
  then have run: "run_categories ex_web [''/c/tv/''] ?s (ex_world1, Some FileExistsError)"
    unfolding ex_world1_def by (rule run_categories.err)
  from existing_dir_aborts_run [OF g h d run] run show ?thesis by simp
qed

lemma ex_program_run:
  "\<exists>s. program_run ex_web ex_world0 (s, None)"
proof -
  let ?s0 = "ex_world0\<lparr>w_comments := []\<rparr>"
  let ?s1 = "log_info (''Run parse '' @ ''/c/tv/'') ?s0"
  let ?s2 = "?s1\<lparr>w_dirs := {[''reviews''], [''reviews'', ''TV'']}\<rparr>"
  let ?r = "\<lparr>status = 200, body = ex_tv_doc\<rparr>"
  have g: "http_get ex_web (home_url @ ''/c/tv/'') [] = Inr ?r" by code_simp
  have h: "category_page_count ex_tv_doc = Inr 2" "category_name ex_tv_doc = Inr ''TV''"
    by code_simp+
  have mk: "os_makedirs {} (category_dir ''TV'') = ({[''reviews''], [''reviews'', ''TV'']}, None)"
    by code_simp
  have su: "category_setup ex_web ''/c/tv/'' ?s1 = (?s2, Inr (Some (category_dir ''TV'', 2)))"
    by (simp add: ex_world0_def log_info_def category_setup_page [OF g] h mk)
  have "map_option cat_done (run_sched ex_web (home_url @ ''/c/tv/'') (category_dir ''TV'')
          (cat_init 2 (w_comments ?s2) (w_files ?s2) (w_log ?s2)) ex_race_sched) = Some True"
    by code_simp
  then obtain t where rs: "run_sched ex_web (home_url @ ''/c/tv/'') (category_dir ''TV'')
          (cat_init 2 (w_comments ?s2) (w_files ?s2) (w_log ?s2)) ex_race_sched = Some t"
    and dn: "cat_done t" by auto
  from rs have reach: "cat_reach ex_web (home_url @ ''/c/tv/'') (category_dir ''TV'')
          (cat_init 2 (w_comments ?s2) (w_files ?s2) (w_log ?s2)) t" by (rule run_sched_reach)
  have oc: "category_outcome ex_web ''/c/tv/'' ?s1 (world_after ?s2 t, None)"
    using su reach dn by (rule category_outcome.completed)
  have rc: "run_categories ex_web [''/c/tv/''] ?s0
              (log_info (''End parse '' @ ''/c/tv/'') (world_after ?s2 t), None)"
    using oc run_categories.nil by (rule run_categories.ok)
  have gu: "get_url_categories ex_web = Inr (set ex_cats)" by code_simp
  have "distinct ex_cats" "run_parse_order ex_cats = [''/c/tv/'']"
    by (simp_all add: ex_cats_def run_parse_order_def)
  with gu rc have pr: "program_run ex_web ex_world0 (log_info (''End parse '' @ ''/c/tv/'') (world_after ?s2 t), None)"
    by (auto intro: program_run.run)
  then show ?thesis by blast
qed

theorem run_parse_skips_three_witness:
  "\<exists>s cs. program_run ex_web ex_world0 (s, None) \<and> distinct cs \<and> set cs \<subseteq> set ex_cats \<and>
     length cs = 1 \<and> card (set ex_cats - set cs) = 3 \<and>
     info_msgs (w_log s) = info_msgs (w_log ex_world0) @
       concat (map (\<lambda>c. [''Run parse '' @ c, ''End parse '' @ c]) cs)"
proof -
  obtain s where pr: "program_run ex_web ex_world0 (s, None)" using ex_program_run by blast
  have gu: "get_url_categories ex_web = Inr (set ex_cats)" by code_simp
  have c: "card (set ex_cats) = 4" by (simp add: ex_cats_def)
  from Orchestrator.run_parse_skips_three [OF pr gu] pr c show ?thesis by auto
qed

theorem program_run_buffer_empty_witness:
  "\<exists>s. program_run ex_web ex_world0 (s, None) \<and> w_comments s = []"
proof -
  obtain s where pr: "program_run ex_web ex_world0 (s, None)" using ex_program_run by blast
  from program_run_buffer_empty [OF pr] pr show ?thesis by blast
qed

theorem cat_schedule_bounded_witness:
  "\<exists>t. run_sched ex_web ex_cat ''reviews/TV'' (cat_init 2 [] Map.empty []) ex_race_sched = Some t \<and>
     length ex_race_sched + cat_measure ex_web ex_cat t \<le> cat_measure ex_web ex_cat (cat_init 2 [] Map.empty [])"
proof -
  obtain t where r: "run_sched ex_web ex_cat ''reviews/TV'' (cat_init 2 [] Map.empty []) ex_race_sched = Some t"
    using ex_race_run by blast
  from cat_schedule_bounded [OF r] r show ?thesis by blast
qed

theorem cat_run_terminates_witness:
  "\<exists>sch t. run_sched ex_web ex_cat ''reviews/TV'' (cat_init 2 [] Map.empty []) sch = Some t \<and>
     (cat_done t \<or> failure t \<noteq> None)"
proof -
  have "cat_reach ex_web ex_cat ''reviews/TV'' (cat_init 2 [] Map.empty []) (cat_init 2 [] Map.empty [])"
    by (rule cat_reach.refl)
  from cat_run_terminates [OF this] show ?thesis .
qed


theorem page_error_aborts_category_witness:
  "0 < length (ptasks ex_page3) \<and>
   page_reviews ex_web (p_url (ptasks ex_page3 ! 0)) (p_page (ptasks ex_page3 ! 0)) = Inl ClientError \<and>
   cat_reach ex_web ex_cat2 ''d'' (run_page ex_web 0 ex_page3) (run_page ex_web 0 ex_page3) \<and>
   \<not> cat_done (run_page ex_web 0 ex_page3)"
proof -
  have l: "0 < length (ptasks ex_page3)" by (simp add: ex_page3_def)
  have e: "page_reviews ex_web (p_url (ptasks ex_page3 ! 0)) (p_page (ptasks ex_page3 ! 0)) = Inl ClientError"
    by code_simp
  have r: "cat_reach ex_web ex_cat2 ''d'' (run_page ex_web 0 ex_page3) (run_page ex_web 0 ex_page3)"
    by (rule cat_reach.refl)
  from page_error_aborts_category [OF l e r] l e r show ?thesis by blast
qed

theorem review_page_status_ignored_witness:
  "comments (run_page ex_web404 0 ex_page3) = [\<lparr>rv_url = page_url (product_url ''pc'') 3, author = ''Eve'', date = ''2021'', content = ''ok''\<rparr>] \<and>
   log (run_page ex_web404 0 ex_page3) = [] \<and> failure (run_page ex_web404 0 ex_page3) = None"
proof -
  have g: "ex_web404 (mk_request (page_url (p_url (ptasks ex_page3 ! 0)) (p_page (ptasks ex_page3 ! 0))) show_params) =
             Some \<lparr>status = 404, body = [ex_box ''Eve'']\<rparr>"
    by (simp add: ex_web404_def ex_page3_def)
  have x: "extract_reviews (page_url (product_url ''pc'') 3) [ex_box ''Eve''] =
             [\<lparr>rv_url = page_url (product_url ''pc'') 3, author = ''Eve'', date = ''2021'', content = ''ok''\<rparr>]"
    by code_simp
  from review_page_status_ignored [of ex_web404 ex_page3 0, OF g] x show ?thesis by (simp add: ex_page3_def cat_init_def)
qed

theorem cat_writes_confined_witness:
  "\<exists>t. run_sched ex_web ex_cat ''reviews/TV'' (cat_init 2 [] Map.empty []) ex_race_sched = Some t \<and>
     files t (product_file ''reviews/TV'' ''A'') \<noteq> Map.empty (product_file ''reviews/TV'' ''A'') \<and>
     (\<exists>nm. product_file ''reviews/TV'' ''A'' = product_file ''reviews/TV'' nm \<and> CHR ''/'' \<notin> set nm)"
proof -
  have "map_option (\<lambda>t. files t (product_file ''reviews/TV'' ''A'') \<noteq> None)
          (run_sched ex_web ex_cat ''reviews/TV'' (cat_init 2 [] Map.empty []) ex_race_sched) = Some True"
    by code_simp
  then obtain t where r: "run_sched ex_web ex_cat ''reviews/TV'' (cat_init 2 [] Map.empty []) ex_race_sched = Some t"
    and f: "files t (product_file ''reviews/TV'' ''A'') \<noteq> Map.empty (product_file ''reviews/TV'' ''A'')" by auto
  from r have "cat_reach ex_web ex_cat ''reviews/TV'' (cat_init 2 [] Map.empty []) t" by (rule run_sched_reach)
  from cat_writes_confined [OF this f] r f show ?thesis by blast
qed


theorem program_run_log_order_witness:
  "\<exists>s. program_run ex_web ex_world0 (s, None) \<and>
     (\<exists>cats. get_url_categories ex_web = Inr (set cats) \<and> distinct cats \<and>
       info_msgs (w_log s) = info_msgs (w_log ex_world0) @
         concat (map (\<lambda>c. [''Run parse '' @ c, ''End parse '' @ c]) (run_parse_order cats)))"
proof -
  obtain s where pr: "program_run ex_web ex_world0 (s, None)" using ex_program_run by blast
  from program_run_log_order [OF pr] pr show ?thesis by blast
qed


theorem cat_reach_well_formed_witness:
  "\<exists>s. run_sched ex_web ex_cat ''reviews/TV'' (cat_init 2 [] Map.empty []) ex_race_sched = Some s \<and>
     wf_cstate (nat 2) s"
proof -
  obtain s where r: "run_sched ex_web ex_cat ''reviews/TV'' (cat_init 2 [] Map.empty []) ex_race_sched = Some s"
    using ex_race_run by blast
  then have "cat_reach ex_web ex_cat ''reviews/TV'' (cat_init 2 [] Map.empty []) s" by (rule run_sched_reach)
  from cat_reach_well_formed [OF this] r show ?thesis by blast
qed

theorem pending_pages_bounded_witness:
  "\<exists>s. run_sched ex_web ex_cat2 ''d'' (cat_init 1 [] Map.empty []) [RunListing 0, RunListing 0] = Some s \<and>
     ltasks s ! 0 = LGather (product_url ''pc'') 2 ''C'' [] \<and>
     length (filter (\<lambda>pt. p_owner pt = 0) (ptasks s)) \<le> nat 2"
proof -
  have "map_option (\<lambda>s. ltasks s ! 0)
          (run_sched ex_web ex_cat2 ''d'' (cat_init 1 [] Map.empty []) [RunListing 0, RunListing 0]) =
        Some (LGather (product_url ''pc'') 2 ''C'' [])"
    by code_simp
  then obtain s where r: "run_sched ex_web ex_cat2 ''d'' (cat_init 1 [] Map.empty []) [RunListing 0, RunListing 0] = Some s"
    and t: "ltasks s ! 0 = LGather (product_url ''pc'') 2 ''C'' []" by auto
  from r have "cat_reach ex_web ex_cat2 ''d'' (cat_init 1 [] Map.empty []) s" by (rule run_sched_reach)
  from pending_pages_bounded [OF this t] r t show ?thesis by blast
qed


text \<open>The two listing pages of \<open>/c/tv/\<close> with their products crawled one after the other.\<close>

theorem serial_refines_spec_witness:
  "\<exists>s s'. run_serial ex_web ex_cat ''reviews/TV'' (cat_init 2 [] Map.empty [])
       [RunListing 0, RunListing 1, RunListing 0, RunPage 0] = Some s \<and>
     serial_ok s (RunListing 0) \<and> cat_step ex_web ex_cat ''reviews/TV'' s (RunListing 0) = Some s' \<and>
     failure s' = None \<and> abs_files s' = spec_effect ex_web ''reviews/TV'' s (RunListing 0) \<and>
     abs_files s' (product_file ''reviews/TV'' ''A'') = Some {#ex_review ''pa'' ''Ann''#}"
proof -
  have "map_option (\<lambda>s. (serial_ok s (RunListing 0),
            map_option (\<lambda>s'. (failure s', files s' (product_file ''reviews/TV'' ''A'')))
              (cat_step ex_web ex_cat ''reviews/TV'' s (RunListing 0))))
          (run_serial ex_web ex_cat ''reviews/TV'' (cat_init 2 [] Map.empty [])
             [RunListing 0, RunListing 1, RunListing 0, RunPage 0]) =
        Some (True, Some (None, Some [ex_review ''pa'' ''Ann'']))"
    by code_simp
  then obtain s s' where r: "run_serial ex_web ex_cat ''reviews/TV'' (cat_init 2 [] Map.empty [])
       [RunListing 0, RunListing 1, RunListing 0, RunPage 0] = Some s"
    and ok: "serial_ok s (RunListing 0)" and st: "cat_step ex_web ex_cat ''reviews/TV'' s (RunListing 0) = Some s'"
    and f: "failure s' = None" and a: "files s' (product_file ''reviews/TV'' ''A'') = Some [ex_review ''pa'' ''Ann'']"
    by (auto simp del: run_serial.simps cat_step.simps split: option.splits)
  from serial_reach.refl r have "serial_reach ex_web ex_cat ''reviews/TV'' (cat_init 2 [] Map.empty []) s"
    by (rule run_serial_reach)
  from serial_refines_spec [OF this ok st f] r ok st f a show ?thesis
    by (simp add: abs_files_def)
qed


theorem serial_run_terminates_witness:
  "(\<exists>sch t. run_serial ex_web ex_cat ''reviews/TV'' (cat_init 2 [] Map.empty []) sch = Some t \<and>
      (cat_done t \<or> failure t \<noteq> None)) \<and>
   (\<exists>t. run_serial ex_web ex_cat ''reviews/TV'' (cat_init 2 [] Map.empty []) ex_serial_sched = Some t \<and>
      cat_done t \<and> files t (product_file ''reviews/TV'' ''A'') = Some [ex_review ''pa'' ''Ann''] \<and>
      files t (product_file ''reviews/TV'' ''B'') = Some [ex_review ''pb'' ''Bob''])"
proof -
  have "map_option (\<lambda>t. (cat_done t, files t (product_file ''reviews/TV'' ''A''), files t (product_file ''reviews/TV'' ''B'')))
          (run_serial ex_web ex_cat ''reviews/TV'' (cat_init 2 [] Map.empty []) ex_serial_sched) =
        Some (True, Some [ex_review ''pa'' ''Ann''], Some [ex_review ''pb'' ''Bob''])"
    by code_simp
  then have ex: "\<exists>t. run_serial ex_web ex_cat ''reviews/TV'' (cat_init 2 [] Map.empty []) ex_serial_sched = Some t \<and>
      cat_done t \<and> files t (product_file ''reviews/TV'' ''A'') = Some [ex_review ''pa'' ''Ann''] \<and>
      files t (product_file ''reviews/TV'' ''B'') = Some [ex_review ''pb'' ''Bob'']"
    by (auto simp del: run_serial.simps)
  have "serial_reach ex_web ex_cat ''reviews/TV'' (cat_init 2 [] Map.empty []) (cat_init 2 [] Map.empty [])"
    by (rule serial_reach.refl)
  from serial_run_terminates [OF this] ex show ?thesis by blast
qed


theorem serial_run_refines_spec_witness:
  "\<exists>t. run_serial ex_web ex_cat ''reviews/TV'' (cat_init 2 [] Map.empty []) ex_serial_sched = Some t \<and>
     failure t = None \<and>
     serial_trace ex_web ex_cat ''reviews/TV'' (cat_init 2 [] Map.empty []) ex_serial_sched =
       [(product_url ''pa'', 1, ''A''), (product_url ''pb'', 1, ''B'')] \<and>
     abs_files t = spec_files ''reviews/TV'' ex_web (\<lambda>p. map_option mset (Map.empty p))
       [(product_url ''pa'', 1, ''A''), (product_url ''pb'', 1, ''B'')]"
proof -
  have "map_option failure
          (run_serial ex_web ex_cat ''reviews/TV'' (cat_init 2 [] Map.empty []) ex_serial_sched) = Some None"
    by code_simp
  then obtain t where r: "run_serial ex_web ex_cat ''reviews/TV'' (cat_init 2 [] Map.empty []) ex_serial_sched = Some t"
    and f: "failure t = None" by (auto simp del: run_serial.simps)
  have tr: "serial_trace ex_web ex_cat ''reviews/TV'' (cat_init 2 [] Map.empty []) ex_serial_sched =
       [(product_url ''pa'', 1, ''A''), (product_url ''pb'', 1, ''B'')]"
    by code_simp
  from serial_run_refines_spec [OF r f] r f tr show ?thesis by simp
qed


theorem catalogue_error_page_silent_witness:
  "ex_web503 (mk_request category_urls []) = Some \<lparr>status = 503, body = [Elem ''p'' [] [] [Text ''busy'']]\<rparr> \<and>
   bs_find_all ''a'' (Some ''ss'') (body \<lparr>status = 503, body = [Elem ''p'' [] [] [Text ''busy'']]\<rparr>) = [] \<and>
   program_run ex_web503 ex_world0 (ex_world0\<lparr>w_comments := []\<rparr>, None)"
proof -
  have g: "ex_web503 (mk_request category_urls []) = Some \<lparr>status = 503, body = [Elem ''p'' [] [] [Text ''busy'']]\<rparr>"
    by (simp add: ex_web503_def mk_request_def)
  have b: "bs_find_all ''a'' (Some ''ss'') (body \<lparr>status = 503, body = [Elem ''p'' [] [] [Text ''busy'']]\<rparr>) = []"
    by simp
  from catalogue_error_page_silent [where w = ex_web503 and r = "\<lparr>status = 503, body = [Elem ''p'' [] [] [Text ''busy'']]\<rparr>", OF g b] g b
  show ?thesis by simp
qed

subsection \<open>Output directories\<close>

theorem parse_comment_fields_witness:
  "\<exists>r. parse_comment (product_url ''pa'') (ex_box '' Ann '') = Some r \<and>
     author r = '' Ann '' \<and> date r = ''2021'' \<and> content r = ''ok''"
proof -
  define r where "r = \<lparr>rv_url = product_url ''pa'', author = '' Ann '', date = ''2021'', content = ''ok''\<rparr>"
  have pc: "parse_comment (product_url ''pa'') (ex_box '' Ann '') = Some r"
    unfolding r_def by (simp add: ex_box_def parse_comment_def bs_find_def class_ok_def py_strip_def py_isspace_def)
  from Extract.parse_comment_fields [OF pc] have
    "author r = '' Ann '' \<and> (\<exists>p q. '' 2021 '' = p @ date r @ q \<and> list_all py_isspace p \<and> list_all py_isspace q)"
    by (simp add: ex_box_def bs_find_def class_ok_def)
  with pc show ?thesis unfolding r_def by auto
qed

lemma ex_dirs_wf [simp]: "wf_dirs (w_dirs ex_world0)"
  by (simp add: ex_world0_def wf_dirs_def)

theorem category_setup_creates_dirs_witness:
  "category_setup ex_web ''/c/tv/'' ex_world0 =
     (ex_world0\<lparr>w_dirs := {} \<union> prefixes_of [''reviews'', ''TV'']\<rparr>,
      Inr (Some (category_dir (join_slash [''TV'']), 2)))"
proof -
  let ?r = "\<lparr>status = 200, body = ex_tv_doc\<rparr>"
  have g: "http_get ex_web (home_url @ ''/c/tv/'') [] = Inr ?r" by code_simp
  have h: "status ?r = 200" "category_page_count (body ?r) = Inr 2"
    "category_name (body ?r) = Inr (join_slash [''TV''])"
    by code_simp+
  have "[''TV''] \<noteq> []" "list_all normal_name [''TV'']" by (simp_all add: normal_name_def)
  from category_setup_creates_dirs [OF g h this ex_dirs_wf] show ?thesis
    by (simp add: ex_world0_def)
qed

theorem category_name_escapes_reviews_witness:
  "\<exists>t. cat_reach ex_web_dirs (home_url @ ''/c/up/'') (category_dir (''../'' @ ''Up''))
         (cat_init 1 (w_comments ex_world0) (w_files ex_world0) (w_log ex_world0)) t \<and>
       files t (product_file (category_dir (''../'' @ ''Up'')) ''A'') \<noteq>
         w_files ex_world0 (product_file (category_dir (''../'' @ ''Up'')) ''A'') \<and>
       category_setup ex_web_dirs ''/c/up/'' ex_world0 =
         (ex_world0\<lparr>w_dirs := insert [''Up''] (insert [''reviews''] (w_dirs ex_world0))\<rparr>,
          Inr (Some (category_dir (''../'' @ ''Up''), 1))) \<and>
       (\<exists>f. walk (insert [''Up''] (insert [''reviews''] (w_dirs ex_world0))) []
              (split_slash (product_file (category_dir (''../'' @ ''Up'')) ''A'')) = Some [''Up'', f])"
proof -
  let ?r = "\<lparr>status = 200, body = ex_cat_doc ''../Up''\<rparr>"
  let ?pd = "category_dir (''../'' @ ''Up'')"
  let ?p = "product_file ?pd ''A''"
  have g: "http_get ex_web_dirs (home_url @ ''/c/up/'') [] = Inr ?r" by code_simp
  have h: "status ?r = 200" "category_page_count (body ?r) = Inr 1"
    "category_name (body ?r) = Inr (''../'' @ ''Up'')"
    by code_simp+
  have n: "normal_name ''Up''" "''Up'' \<noteq> ''reviews''" "[''Up''] \<notin> w_dirs ex_world0"
    by (simp_all add: normal_name_def ex_world0_def)
  have "map_option (\<lambda>t. files t ?p \<noteq> None)
          (run_sched ex_web_dirs (home_url @ ''/c/up/'') ?pd (cat_init 1 [] Map.empty []) ex_up_sched) = Some True"
    by code_simp
  then obtain t where rs: "run_sched ex_web_dirs (home_url @ ''/c/up/'') ?pd (cat_init 1 [] Map.empty []) ex_up_sched = Some t"
    and ch: "files t ?p \<noteq> None" by auto
  from rs have reach: "cat_reach ex_web_dirs (home_url @ ''/c/up/'') ?pd
      (cat_init 1 (w_comments ex_world0) (w_files ex_world0) (w_log ex_world0)) t"
    by (simp add: ex_world0_def run_sched_reach)
  from ch have ch': "files t ?p \<noteq> w_files ex_world0 ?p" by (simp add: ex_world0_def)
  from category_name_escapes_reviews [where x = "''Up''", OF g h n reach ch'] reach ch'
  show ?thesis by blast
qed

theorem nested_category_aborts_run_witness:
  "\<exists>res. run_categories ex_web_dirs [''/c/ab/'', ''/c/a/''] ex_world0 res \<and> snd res \<noteq> None"
proof -
  let ?r1 = "\<lparr>status = 200, body = ex_cat_doc ''A/B''\<rparr>"
  let ?r2 = "\<lparr>status = 200, body = ex_cat_doc ''A''\<rparr>"
  let ?D = "{[''reviews''], [''reviews'', ''A''], [''reviews'', ''A'', ''B'']}"
  let ?s1 = "log_info (''Run parse '' @ ''/c/ab/'') ex_world0"
  let ?s1' = "?s1\<lparr>w_dirs := ?D\<rparr>"
  have g1: "http_get ex_web_dirs (home_url @ ''/c/ab/'') [] = Inr ?r1" by code_simp
  have h1: "status ?r1 = 200" "category_page_count (body ?r1) = Inr 1"
    "category_name (body ?r1) = Inr (''A'' @ ''/'' @ ''B'')"
    by code_simp+
  have g2: "http_get ex_web_dirs (home_url @ ''/c/a/'') [] = Inr ?r2" by code_simp
  have h2: "status ?r2 = 200" "category_page_count (body ?r2) = Inr 1" "category_name (body ?r2) = Inr ''A''"
    by code_simp+
  have mk: "os_makedirs {} (category_dir ''A/B'') = (?D, None)" by code_simp
  have su: "category_setup ex_web_dirs ''/c/ab/'' ?s1 = (?s1', Inr (Some (category_dir ''A/B'', 1)))"
    using h1 by (simp add: category_setup_page [OF g1] ex_world0_def log_info_def mk)
  have "map_option cat_done (run_sched ex_web_dirs (home_url @ ''/c/ab/'') (category_dir ''A/B'')
          (cat_init 1 (w_comments ?s1') (w_files ?s1') (w_log ?s1')) [RunListing 0]) = Some True"
    by code_simp
  then obtain t where rs: "run_sched ex_web_dirs (home_url @ ''/c/ab/'') (category_dir ''A/B'')
          (cat_init 1 (w_comments ?s1') (w_files ?s1') (w_log ?s1')) [RunListing 0] = Some t"
    and dn: "cat_done t" by auto
  have oc1: "category_outcome ex_web_dirs ''/c/ab/'' ?s1 (world_after ?s1' t, None)"
    using su run_sched_reach [OF rs] dn by (rule category_outcome.completed)
  define s2 where "s2 = log_info (''Run parse '' @ ''/c/a/'') (log_info (''End parse '' @ ''/c/ab/'') (world_after ?s1' t))"
  have "path_exists (w_dirs s2) (category_dir ''A'')"
    by (simp add: s2_def world_after_def category_dir_def path_exists_def is_dir_def step_comp_def)
  then have "category_setup ex_web_dirs ''/c/a/'' s2 = (s2, Inl FileExistsError)"
    by (rule category_setup_dir_exists [OF g2 h2])
  then have "category_outcome ex_web_dirs ''/c/a/'' (log_info (''Run parse '' @ ''/c/a/'')
      (log_info (''End parse '' @ ''/c/ab/'') (world_after ?s1' t))) (s2, Some FileExistsError)"
    unfolding s2_def by (rule category_outcome.setup_error)
  then have "run_categories ex_web_dirs [''/c/a/''] (log_info (''End parse '' @ ''/c/ab/'') (world_after ?s1' t))
      (s2, Some FileExistsError)"
    by (rule run_categories.err)
  with oc1 have run: "run_categories ex_web_dirs [''/c/ab/'', ''/c/a/''] ex_world0 (s2, Some FileExistsError)"
    by (rule run_categories.ok)
  have "normal_name ''A''" "normal_name ''B''" by (simp_all add: normal_name_def)
  from nested_category_aborts_run [OF g1 h1 g2 h2 this ex_dirs_wf run] run show ?thesis by blast
qed

theorem category_dir_ready_witness:
  "path_exists {[''reviews''], [''reviews'', ''TV'']} (category_dir ''TV'') \<and>
   (\<exists>q. walk {[''reviews''], [''reviews'', ''TV'']} [] (split_slash (product_file (category_dir ''TV'') ''A'')) = Some q)"
proof -
  let ?r = "\<lparr>status = 200, body = ex_tv_doc\<rparr>"
  have g: "http_get ex_web (home_url @ ''/c/tv/'') [] = Inr ?r" by code_simp
  have h: "status ?r = 200" "category_page_count (body ?r) = Inr 2" "category_name (body ?r) = Inr ''TV''"
    by code_simp+
  have mk: "os_makedirs {} (category_dir ''TV'') = ({[''reviews''], [''reviews'', ''TV'']}, None)"
    by code_simp
  have su: "category_setup ex_web ''/c/tv/'' ex_world0 =
      (ex_world0\<lparr>w_dirs := {[''reviews''], [''reviews'', ''TV'']}\<rparr>, Inr (Some (category_dir ''TV'', 2)))"
    using h by (simp add: category_setup_page [OF g] ex_world0_def mk)
  from category_dir_ready [OF su, of "''A''"] show ?thesis by simp
qed

end
