(* ===== verification/Spec2Isabelle.thy ===== *)
theory Spec2Isabelle
  imports Crawl_Examples
begin

text \<open>
  \<^bold>\<open>A verification model of the Eldorado review crawler\<close>
  (\<^verbatim>\<open>src/parsers/eldorado_parser.py\<close>, class \<open>EldoradoParser\<close>).

  \<^bold>\<open>The program.\<close> \<open>__init__\<close> fetches the catalogue page and collects the category
  paths matched by \<open>/c/([\w.-]+)/\<close> in a set (\<open>get_url_categories\<close>). \<open>run_parse\<close>
  enumerates that set, drops the first three, and runs one \<open>asyncio.run\<close> per
  category, in sequence. A category run (\<open>_queue_parse_category\<close>) fetches the
  category page, reads its page count and name, creates \<open>reviews/<name>\<close> and starts
  one task per listing page (\<open>_parse_category\<close>); each listing task crawls its products
  one after the other (\<open>_queue_parse_comments\<close>): product page, page count with a
  fallback to 1, name, one task per review page (\<open>_parse_comments\<close>), \<open>gather\<close>, then
  the parser-wide list \<open>self.comments\<close> is dumped to \<open><name>.json\<close> when non-empty and
  cleared. Review-page tasks of every product in flight append to that one list.

  \<^bold>\<open>Theories, leaf first.\<close>
  \<^item> \<open>Crawl_Prelude\<close>: type names, \<open>range(1, n+1)\<close> on a Python \<open>int\<close>, list and
    multiset lemmas shared by the proofs.
  \<^item> \<open>Logging\<close>: the logging configuration (lines 10--17, 22), log levels ordered as
    \<open>linorder\<close>, effective level and \<open>isEnabledFor\<close>, the records that reach the handlers.
  \<^item> \<open>Py_Builtins\<close>: the exceptions the code can raise (\<open>pyerr\<close>) and their
    propagation (\<open>sbind\<close>), \<open>str.strip\<close>, \<open>int(str)\<close>, decimal formatting, negative
    indexing, \<open>str.replace\<close>.
  \<^item> \<open>Os_Path\<close>: the directories on disk as a set of resolved paths, \<open>str.split('/')\<close>,
    \<open>posixpath.split\<close>, the kernel's lookup of a path, \<open>os.path.exists\<close>, \<open>os.mkdir\<close> and
    CPython's recursive \<open>os.makedirs\<close> (a \<open>function\<close> whose termination is by the length
    of the name), with its contract on plain paths and on paths through \<open>..\<close>.
  \<^item> \<open>Html_Doc\<close>: the BeautifulSoup calls as functions over a parsed tree
    (\<open>find_all\<close>, \<open>find\<close>, \<open>.text\<close>, \<open>.get\<close>); the library itself is an interface.
  \<^item> \<open>Http\<close>: the configuration of \<open>__init__\<close> (home URL, headers), requests, the site
    as a function from requests to responses (\<open>None\<close> = transport error), page URLs.
  \<^item> \<open>Extract\<close>: the extraction profiles: category links (the regular expression as
    \<open>re_search_cat\<close>), product links, product and category page counts, names, review
    records (\<open>parse_comment\<close>, \<open>extract_reviews\<close>).
  \<^item> \<open>Listing_Timing\<close>: the issue times of one listing task's requests under the
    \<open>asyncio.sleep\<close> delays (lines 49, 91, 97), for a static latency per request and
    zero processing time.
  \<^item> \<open>Category_Run\<close>: one category's concurrent crawl as a scheduler-driven step
    function \<open>cat_step\<close> over \<open>cstate\<close> (listing tasks \<open>ltask\<close>, review-page tasks
    \<open>ptask\<close>, the shared buffer, files, log, the first exception), schedules
    \<open>run_sched\<close> and reachability \<open>cat_reach\<close>. Each choice runs one task from one
    \<open>await\<close> to the next effect on shared state, which is exact for asyncio's
    cooperative loop: listing fetch (lines 90--95), product start (66--81, 87--88),
    resumption after \<open>gather\<close> with the write and reset (82--86), review page (43--64).
  \<^item> \<open>Category_Liveness\<close>: a measure of the work left in a category run
    (\<open>cat_measure\<close>: listing pages to fetch, products to start, review pages to run,
    resumptions after \<open>gather\<close>), that every step lowers it, and that no task is stuck.
  \<^item> \<open>Category_Wf\<close>: the well-formedness of a run's state (\<open>wf_cstate\<close>) and the
    bound on the review-page tasks pending for one product.
  \<^item> \<open>Category_Serial\<close>: the spec's per-product crawler as an abstract step on files
    seen as multisets (\<open>spec_write\<close>, \<open>spec_effect\<close>), schedules that keep one product
    in flight (\<open>serial_ok\<close>, \<open>run_serial\<close>, \<open>serial_reach\<close>) and the invariant
    \<open>serial_inv\<close> (idle, or one product busy) that carries the refinement.
  \<^item> \<open>Orchestrator\<close>: category setup (100--116, the output directory \<open>category_dir\<close> of
    line 108 created by \<open>os_makedirs\<close>), a category's outcome (normal end or an escaped
    exception), \<open>run_parse\<close> (118--122) and the whole program (125--126).
  \<^item> \<open>Crawl_Examples\<close>: a concrete site, the shared-buffer race, the file-name collision
    and the witnesses.

  \<^bold>\<open>What is proved.\<close>
  \<^item> Refinement (C1): with one listing page, the file of each product holds exactly the
    multiset union of its pages' reviews, whatever the completion order.
  \<^item> The race (C2): with two listing pages, a normal run writes B's review into A's file
    and no file for B.
  \<^item> Invariants of every interleaving (C3, C4): the buffer conserves reviews (initial
    content and appends = writes and what remains); files are only written non-empty.
  \<^item> C5: a run of the whole program that ends normally leaves the buffer empty, so no
    review crosses categories.
  \<^item> Functional behaviour of each step and extractor on every branch (C6--C10); C11: a
    review's author is its \<open>userName\<close> text unstripped, its date and content the texts of
    their divs with exactly the surrounding whitespace removed; the regular expression
    as leftmost match (C12).
  \<^item> Error paths of the orchestrator (C13: an existing output directory aborts the whole
    run); C14: a normal run crawls exactly \<open>card S - 3\<close> distinct discovered categories,
    so three are never crawled; discovery (C15).
  \<^item> Termination and progress (C16, C17): every schedule is no longer than the
    measure of its start state, and from every reachable state some schedule ends the
    category normally or with an exception recorded.
  \<^item> Review-page error paths (C18, C19): a transport error in a review page is never
    caught, so no interleaving ends the category normally; an answered review page is
    used whatever its status, with nothing logged.
  \<^item> Confinement (C20): every file a category run creates or changes is
    \<open><dir>/<name>.json\<close> with no \<open>/\<close> in the name.
  \<^item> Sequencing (C21): a normal run logs \<open>Run parse c\<close>, \<open>End parse c\<close> for each
    crawled category in the order of \<open>list(self.url_categories)[3:]\<close>.
  \<^item> C22: titles that differ only by \<open>/\<close> against \<open>_\<close> share a file, and the later
    product's write replaces the earlier one's reviews.
  \<^item> C23: with the configuration of lines 10--17 only warnings reach \<open>Log.log\<close> and the
    console; the INFO records of C21 are dropped.
  \<^item> Type and bounds (C24, C25): every reachable state is well formed, and a product
    never has more pending review-page tasks than its page count.
  \<^item> Refinement (C26): under schedules with one product in flight, for any number of
    listing pages, each step changes the files exactly as the spec's abstract step, so
    a run that raises nothing departs from the spec only on schedules where products
    overlap, as in C2. C27: that discipline can always be followed to the end of the run.
    C28: at the end of such a run the files are the spec's, after persisting the
    finished products in the order they resumed (\<open>serial_trace\<close>, \<open>spec_files\<close>).
  \<^item> Rate limiting (C29): the one-second sleep spaces a listing task's product
    requests at least 1000 ms apart, whatever the latencies of the site.
  \<^item> C30: an error page in place of the catalogue makes the program end normally
    having crawled nothing, since that request's status is never checked.
  \<^item> Output directories (C31--C33): on a category name of plain components line 109
    creates exactly the missing directories or raises \<open>FileExistsError\<close> changing nothing;
    a category titled
    \<open>../x\<close> puts its directory and files outside \<open>reviews\<close>; a category titled
    \<open>nm/sub\<close> crawled before one titled \<open>nm\<close> makes the run raise.
  \<^item> C34: \<open>os.makedirs\<close> on a non-empty name raises at most \<open>FileExistsError\<close> and leaves
    the name existing, from any directory tree; so after a successful setup the category
    directory exists and every product file's path resolves for the \<open>open\<close> of line 84.
  \<^item> C35: the whole program always has a complete run, normal or raising, for every site
    and initial disk and log (discovery, setup, C17 for each category, the loop).

  \<^bold>\<open>Bounds and choices.\<close> Every definition of the program is structurally recursive
  or a step function, except \<open>os_makedirs\<close>, a \<open>function\<close> that recurses on a strictly
  shorter head of its argument; runs are finite schedules, and no definition uses
  fuel: C16 bounds every schedule by a measure of the start state, so the crawl of a
  category needs none. The site is total and static during a
  run, so timeouts and hung fetches are out of scope. An exception is recorded and
  kills its task; the rest of the loop may still run until teardown (over-approximated
  by allowing any further steps).

  \<^bold>\<open>Not modelled.\<close> The HTML parser (\<open>lxml\<close>) and HTTP transport (library code), the
  real time (\<open>Listing_Timing\<close> assumes static latencies and no processing time), the format of a log line, the
  text that \<open>json.dump\<close> writes (a library call: the \<open>files\<close> map records the list of
  review records dumped to each path, and no property depends on its encoding), the
  file system below the \<open>files\<close> map (\<open>open\<close>, buffering, partial writes), and in the
  directory model symbolic links, permissions, absolute paths (the program's are relative)
  and regular files at a directory's path; and Unicode beyond bytes (\<open>\w\<close>, whitespace and digits
  are ASCII here).

  \<^bold>\<open>Plan for later work.\<close> None of the program's code is left unmodelled except
  the imports and the class statement; further work would strengthen existing results
  (for example, C26 for runs that raise, up to the task that raised).
\<close>

end
